(* ===== verification/Prelude.thy ===== *)
theory Prelude
  imports Main "HOL-Library.Word" "HOL-Library.Multiset" "HOL-Library.List_Lexorder" "HOL-Library.Char_ord"
    "HOL-Library.Product_Lexorder"
begin

text \<open>
  The shared prelude of the development: the collections of facts the component theories extend,
  the ordered finite maps that stand for Go maps and for the contents of a metastore bucket, the
  contract \<open>kv_store\<close> those maps satisfy, and generic facts on lists, options and sums.

  A map is the list of its pairs in ascending key order, so that it can be evaluated, walked in
  key order (which is how a bucket cursor walks), and so that its length is the number of its keys.
\<close>

named_theorems fsm_defs \<open>definitions of the metastore's transactions\<close>

type_synonym ('k, 'v) omap = "('k \<times> 'v) list"
type_synonym 'k oset = "('k, unit) omap"

abbreviation om_get :: "('k, 'v) omap \<Rightarrow> 'k \<Rightarrow> 'v option" where
  "om_get m k \<equiv> map_of m k"

fun om_put :: "'k::linorder \<Rightarrow> 'v \<Rightarrow> ('k, 'v) omap \<Rightarrow> ('k, 'v) omap" where
  "om_put k v [] = [(k, v)]"
| "om_put k v ((a, b) # m) =
     (if k < a then (k, v) # (a, b) # m
      else if k = a then (k, v) # m
      else (a, b) # om_put k v m)"

definition om_filter :: "('k \<Rightarrow> bool) \<Rightarrow> ('k, 'v) omap \<Rightarrow> ('k, 'v) omap" where
  "om_filter P m = filter (\<lambda>p. P (fst p)) m"

definition om_del :: "'k \<Rightarrow> ('k, 'v) omap \<Rightarrow> ('k, 'v) omap" where
  "om_del k m = om_filter (\<lambda>k'. k' \<noteq> k) m"

definition om_keys :: "('k, 'v) omap \<Rightarrow> 'k list" where
  "om_keys m = map fst m"

definition om_mem :: "('k, 'v) omap \<Rightarrow> 'k \<Rightarrow> bool" where
  "om_mem m k \<longleftrightarrow> om_get m k \<noteq> None"

definition om_wf :: "('k::linorder, 'v) omap \<Rightarrow> bool" where
  "om_wf m \<longleftrightarrow> sorted_wrt (<) (om_keys m)"

subsection \<open>Lookups\<close>

lemma get_om_put [simp]: "om_get (om_put k v m) k' = (if k' = k then Some v else om_get m k')"
  by (induction k v m rule: om_put.induct) auto

lemma get_om_filter [simp]: "om_get (om_filter P m) k = (if P k then om_get m k else None)"
  by (induction m) (auto simp: om_filter_def)

lemma get_om_del [simp]: "om_get (om_del k m) k' = (if k' = k then None else om_get m k')"
  by (simp add: om_del_def)

lemma mem_om_Nil [simp]: "\<not> om_mem [] k"
  by (simp add: om_mem_def)

lemma mem_om_put [simp]: "om_mem (om_put k v m) k' \<longleftrightarrow> k' = k \<or> om_mem m k'"
  by (simp add: om_mem_def)

lemma mem_om_filter [simp]: "om_mem (om_filter P m) k \<longleftrightarrow> P k \<and> om_mem m k"
  by (simp add: om_mem_def)

lemma mem_om_del [simp]: "om_mem (om_del k m) k' \<longleftrightarrow> k' \<noteq> k \<and> om_mem m k'"
  by (simp add: om_mem_def)

lemma mem_om_keys: "om_mem m k \<longleftrightarrow> k \<in> set (om_keys m)"
  by (auto simp: om_mem_def om_keys_def map_of_eq_None_iff)

lemma om_mem_Cons [simp]: "om_mem ((a, b) # m) k \<longleftrightarrow> k = a \<or> om_mem m k"
  by (simp add: om_mem_def)

lemma om_get_mem: "om_get m k = Some v \<Longrightarrow> om_mem m k"
  by (simp add: om_mem_def)

lemma om_mem_unit: "om_mem (m :: 'k oset) k \<longleftrightarrow> om_get m k = Some ()"
  by (cases "om_get m k") (simp_all add: om_mem_def)

subsection \<open>Well-formedness\<close>

lemma om_wf_Nil [simp]: "om_wf []"
  by (simp add: om_wf_def om_keys_def)

lemma om_wf_Cons: "om_wf ((a, b) # m) \<longleftrightarrow> (\<forall>k. om_mem m k \<longrightarrow> a < k) \<and> om_wf m"
  by (auto simp: om_wf_def om_keys_def mem_om_keys)

lemma om_wf_filter [simp]: "om_wf m \<Longrightarrow> om_wf (om_filter P m)"
  by (induction m) (auto simp: om_filter_def om_wf_def om_keys_def)

lemma om_wf_del [simp]: "om_wf m \<Longrightarrow> om_wf (om_del k m)"
  by (simp add: om_del_def)

lemma om_wf_put [simp]: "om_wf m \<Longrightarrow> om_wf (om_put k v m)"
proof (induction k v m rule: om_put.induct)
  case (1 k v)
  then show ?case by (simp add: om_wf_Cons)
next
  case (2 k v a b m)
  then show ?case by (auto simp: om_wf_Cons)
qed

lemma om_wf_distinct: "om_wf m \<Longrightarrow> distinct (om_keys m)"
  by (simp add: om_wf_def strict_sorted_iff)

lemma om_wf_get: "om_wf m \<Longrightarrow> (k, v) \<in> set m \<longleftrightarrow> om_get m k = Some v"
  using om_wf_distinct [of m] by (auto simp: om_keys_def dest: map_of_SomeD)

lemma om_ext:
  assumes "om_wf m" and "om_wf m'" and "\<And>k. om_get m k = om_get m' k"
  shows "m = m'"
proof -
  have keys: "om_keys m = om_keys m'"
    using assms by (intro strict_sorted_equal)
      (auto simp: om_wf_def mem_om_keys [symmetric] om_mem_def set_eq_iff)
  have split: "map (\<lambda>k. (k, the (om_get m k))) (om_keys m) = m" if "om_wf m" for m :: "('a, 'b) omap"
    using that unfolding om_keys_def map_map
    by (intro map_idI) (auto simp: om_wf_get)
  have "m = map (\<lambda>k. (k, the (om_get m k))) (om_keys m)"
    using split [OF assms(1)] by simp
  also have "\<dots> = map (\<lambda>k. (k, the (om_get m' k))) (om_keys m')"
    by (simp only: keys assms(3))
  also have "\<dots> = m'"
    by (rule split [OF assms(2)])
  finally show ?thesis .
qed

subsection \<open>The contract of a key-value store\<close>

text \<open>
  What the components rely on when they use a map or a bucket: lookups after writes and deletes,
  the key walk, and the size. The client facts below are proved from the contract alone.
\<close>

locale kv_store =
  fixes get :: "'m \<Rightarrow> 'k \<Rightarrow> 'v option"
    and put :: "'k \<Rightarrow> 'v \<Rightarrow> 'm \<Rightarrow> 'm"
    and del :: "'k \<Rightarrow> 'm \<Rightarrow> 'm"
    and keys :: "'m \<Rightarrow> 'k list"
    and invar :: "'m \<Rightarrow> bool"
  assumes get_put: "get (put k v m) k' = (if k' = k then Some v else get m k')"
    and get_del: "get (del k m) k' = (if k' = k then None else get m k')"
    and invar_put: "invar m \<Longrightarrow> invar (put k v m)"
    and invar_del: "invar m \<Longrightarrow> invar (del k m)"
    and keys_get: "invar m \<Longrightarrow> set (keys m) = dom (get m)"
    and keys_distinct: "invar m \<Longrightarrow> distinct (keys m)"
begin

lemma finite_dom: "invar m \<Longrightarrow> finite (dom (get m))"
  using keys_get [of m] List.finite_set [of "keys m"] by simp

lemma size_card: "invar m \<Longrightarrow> length (keys m) = card (dom (get m))"
  using distinct_card keys_distinct keys_get by metis

lemma dom_put: "dom (get (put k v m)) = insert k (dom (get m))"
  by (auto simp: get_put)

lemma dom_del: "dom (get (del k m)) = dom (get m) - {k}"
  by (auto simp: get_del split: if_splits)

lemma size_put:
  "invar m \<Longrightarrow> length (keys (put k v m)) = (if get m k = None then Suc (length (keys m)) else length (keys m))"
  by (simp add: size_card invar_put dom_put card_insert_if finite_dom domIff)

lemma size_del:
  "invar m \<Longrightarrow> length (keys (del k m)) = (if get m k = None then length (keys m) else length (keys m) - 1)"
  by (simp add: size_card invar_del dom_del card_Diff_singleton_if finite_dom domIff)

lemma get_fold_put:
  "get (fold (\<lambda>k. put k (f k)) ks m) k = (if k \<in> set ks then Some (f k) else get m k)"
  by (induction ks arbitrary: m) (auto simp: get_put)

lemma get_fold_del:
  "get (fold del ks m) k = (if k \<in> set ks then None else get m k)"
  by (induction ks arbitrary: m) (auto simp: get_del)

lemma invar_fold_put: "invar m \<Longrightarrow> invar (fold (\<lambda>k. put k (f k)) ks m)"
  by (induction ks arbitrary: m) (auto simp: invar_put)

lemma invar_fold_del: "invar m \<Longrightarrow> invar (fold del ks m)"
  by (induction ks arbitrary: m) (auto simp: invar_del)

end

interpretation om: kv_store "map_of" om_put om_del om_keys om_wf
  by unfold_locales (auto simp: mem_om_keys [symmetric] om_mem_def om_wf_distinct domIff)

lemma length_om_keys [simp]: "length (om_keys m) = length m"
  by (simp add: om_keys_def)

lemma length_om_put:
  "om_wf m \<Longrightarrow> length (om_put k v m) = (if om_mem m k then length m else Suc (length m))"
  using om.size_put [of m k v] by (simp add: om_mem_def)

lemma length_om_del:
  "om_wf m \<Longrightarrow> length (om_del k m) = (if om_mem m k then length m - 1 else length m)"
  using om.size_del [of m k] by (simp add: om_mem_def)

lemma length_om_del_less: "om_mem m k \<Longrightarrow> length (om_del k m) < length m"
  unfolding om_del_def om_filter_def mem_om_keys om_keys_def
  by (auto intro!: length_filter_less)

lemma length_om_card: "om_wf m \<Longrightarrow> length m = card {k. om_mem m k}"
  using om.size_card [of m] by (simp add: om_mem_def dom_def)

lemma length_om_filter: "length (om_filter P m) \<le> length m"
  by (simp add: om_filter_def)

lemma om_mem_pos: "om_mem m k \<Longrightarrow> 0 < length m"
  by (cases m) auto

lemmas om_sizes = length_om_put length_om_del length_om_filter om_mem_pos

subsection \<open>Sums as results\<close>

definition bind_sum :: "'e + 'a \<Rightarrow> ('a \<Rightarrow> 'e + 'b) \<Rightarrow> 'e + 'b" where
  "bind_sum r f = (case r of Inl e \<Rightarrow> Inl e | Inr x \<Rightarrow> f x)"

lemma bind_sum_simps [simp]:
  "bind_sum (Inl e) f = Inl e" "bind_sum (Inr x) f = f x"
  by (simp_all add: bind_sum_def)

lemma bind_sum_Inr: "bind_sum r f = Inr y \<longleftrightarrow> (\<exists>x. r = Inr x \<and> f x = Inr y)"
  by (cases r) auto

lemma bind_sum_InrE:
  assumes "bind_sum r f = Inr y"
  obtains x where "r = Inr x" and "f x = Inr y"
  using assms by (auto simp: bind_sum_Inr)

definition guard_sum :: "bool \<Rightarrow> 'e \<Rightarrow> 'e + unit" where
  "guard_sum b e = (if b then Inr () else Inl e)"

lemma guard_sum_Inr [simp]: "guard_sum b e = Inr u \<longleftrightarrow> b"
  by (simp add: guard_sum_def)

end
