(* ===== verification/Decimal.thy ===== *)
theory Decimal
  imports Prelude
begin

text \<open>
  Decimal text as Go's \<^verbatim>\<open>strconv\<close> reads and writes it: \<^verbatim>\<open>AppendInt\<close>/\<^verbatim>\<open>Itoa\<close> in base 10 and \<^verbatim>\<open>ParseInt\<close>/\<^verbatim>\<open>Atoi\<close> with
  base 10 and 64 bits (an optional sign, at least one digit, a range check). Both the receipt handle
  and the keys of the metadata store are built from it.
\<close>

subsection \<open>Digits\<close>

definition digit_char :: "nat \<Rightarrow> char" where
  "digit_char d = char_of (48 + d)"

definition is_digit :: "char \<Rightarrow> bool" where
  "is_digit ch \<longleftrightarrow> 48 \<le> (of_char ch :: nat) \<and> (of_char ch :: nat) \<le> 57"

definition digit_value :: "char \<Rightarrow> nat" where
  "digit_value ch = of_char ch - 48"

definition asciiDigits :: "string \<Rightarrow> bool" where
  "asciiDigits s \<longleftrightarrow> list_all is_digit s"

lemma is_digit_char [simp]: "d < 10 \<Longrightarrow> is_digit (digit_char d)"
  by (simp add: is_digit_def digit_char_def)

lemma digit_value_char [simp]: "d < 10 \<Longrightarrow> digit_value (digit_char d) = d"
  by (simp add: digit_value_def digit_char_def)

lemma digit_not_colon: "is_digit ch \<Longrightarrow> ch \<noteq> CHR '':''"
  by (auto simp: is_digit_def)

lemma digit_not_sign: "is_digit ch \<Longrightarrow> ch \<noteq> CHR ''-'' \<and> ch \<noteq> CHR ''+''"
  by (auto simp: is_digit_def)

lemma asciiDigits_no_colon: "asciiDigits s \<Longrightarrow> CHR '':'' \<notin> set s"
  using digit_not_colon by (auto simp: asciiDigits_def list_all_iff)

subsection \<open>Printing\<close>

fun nat_dec :: "nat \<Rightarrow> string" where
  "nat_dec n = (if n < 10 then [digit_char n] else nat_dec (n div 10) @ [digit_char (n mod 10)])"

declare nat_dec.simps [simp del]

definition AppendInt :: "int \<Rightarrow> string" where
  "AppendInt i = (if i < 0 then CHR ''-'' # nat_dec (nat (- i)) else nat_dec (nat i))"

subsection \<open>Parsing\<close>

definition dec_value :: "string \<Rightarrow> nat" where
  "dec_value s = foldl (\<lambda>v ch. 10 * v + digit_value ch) 0 s"

text \<open>
  \<^verbatim>\<open>ParseInt(s, 10, 64)\<close>: \<open>None\<close> for a syntax error and for a value outside the \<^verbatim>\<open>int64\<close> range. \<^verbatim>\<open>Atoi\<close> is the
  same function where \<^verbatim>\<open>int\<close> has 64 bits.
\<close>

definition parse_digits :: "string \<Rightarrow> nat option" where
  "parse_digits s = (if s \<noteq> [] \<and> asciiDigits s then Some (dec_value s) else None)"

definition ParseInt64 :: "string \<Rightarrow> int option" where
  "ParseInt64 s =
     (let neg = (s \<noteq> [] \<and> hd s = CHR ''-'');
          digits = (if s \<noteq> [] \<and> (hd s = CHR ''-'' \<or> hd s = CHR ''+'') then tl s else s)
      in case parse_digits digits of
           None \<Rightarrow> None
         | Some n \<Rightarrow> (if neg then (if n \<le> 2 ^ 63 then Some (- int n) else None)
                      else (if n < 2 ^ 63 then Some (int n) else None)))"

subsection \<open>Round trip\<close>

lemma nat_dec_digits: "asciiDigits (nat_dec n)"
  by (induction n rule: nat_dec.induct) (subst nat_dec.simps, simp add: asciiDigits_def)

lemma nat_dec_nonempty [simp]: "nat_dec n \<noteq> []"
  by (subst nat_dec.simps) simp

lemma dec_value_snoc: "dec_value (s @ [ch]) = 10 * dec_value s + digit_value ch"
  by (simp add: dec_value_def)

lemma dec_value_nat_dec [simp]: "dec_value (nat_dec n) = n"
proof (induction n rule: nat_dec.induct)
  case (1 n)
  show ?case
  proof (cases "n < 10")
    case True
    then show ?thesis by (simp add: nat_dec.simps dec_value_def)
  next
    case False
    then show ?thesis using 1 by (simp add: nat_dec.simps [of n] dec_value_snoc)
  qed
qed

lemma parse_digits_nat_dec [simp]: "parse_digits (nat_dec n) = Some n"
  by (simp add: parse_digits_def nat_dec_digits)

lemma ParseInt64_digits:
  assumes "asciiDigits s"
  shows "ParseInt64 s = (if s \<noteq> [] \<and> dec_value s < 2 ^ 63 then Some (int (dec_value s)) else None)"
proof -
  have "s \<noteq> [] \<Longrightarrow> hd s \<noteq> CHR ''-'' \<and> hd s \<noteq> CHR ''+''"
    using assms digit_not_sign by (cases s) (auto simp: asciiDigits_def)
  then show ?thesis using assms by (auto simp: ParseInt64_def parse_digits_def Let_def)
qed

lemma ParseInt64_AppendInt:
  assumes "- (2 ^ 63) \<le> i" and "i < 2 ^ 63"
  shows "ParseInt64 (AppendInt i) = Some i"
proof (cases "i < 0")
  case True
  then have "nat (- i) \<le> 2 ^ 63" using assms(1) by (simp add: nat_le_iff)
  with True show ?thesis by (simp add: ParseInt64_def AppendInt_def Let_def)
next
  case False
  then have "nat i < 2 ^ 63" using assms(2) by (simp add: nat_less_iff)
  with False show ?thesis
    by (simp add: AppendInt_def ParseInt64_digits nat_dec_digits)
qed

lemma nat_dec_inj: "nat_dec m = nat_dec n \<longleftrightarrow> m = n"
  by (metis dec_value_nat_dec)

lemma nat_dec_no_sign: "nat_dec m \<noteq> CHR ''-'' # s"
  using nat_dec_digits [of m] by (auto simp: asciiDigits_def is_digit_def)

lemma AppendInt_inj: "AppendInt i = AppendInt j \<longleftrightarrow> i = j"
  using nat_dec_no_sign [symmetric] by (auto simp: AppendInt_def nat_dec_no_sign nat_dec_inj)

lemma AppendInt_no_colon: "CHR '':'' \<notin> set (AppendInt i)"
  using asciiDigits_no_colon [OF nat_dec_digits] by (simp add: AppendInt_def)

end
