(* ===== verification/Errs.thy ===== *)
theory Errs
  imports Prelude
begin

text \<open>
  The error sentinels of \<^verbatim>\<open>src/internal/errs\<close> and of the packages modelled here. The source wraps a
  sentinel with a message (\<^verbatim>\<open>fmt.Errorf("%w: ...")\<close>) and classifies with \<^verbatim>\<open>errors.Is\<close>; the model keeps the
  sentinel and leaves the message out. \<open>ErrExternal\<close> carries an error that comes out of code outside
  the repository or outside the model (a resolver, a database, a failed system call); \<open>ErrVerify\<close> wraps
  the error a commit's read-back met.
\<close>

datatype (plugins only: code size) err =
    ErrTopicNotFound | ErrTopicAlreadyExists | ErrTopicChanged
  | ErrHandleMalformed | ErrHandleStale | ErrAckedAheadFull
  | ErrNotFound | ErrAlreadyExists | ErrUnavailable | ErrOutcomeUnknown | ErrNotAppliedHere
  | ErrOffsetNotFound | ErrCorruptRecord | ErrLogClosed
  | ErrSchemaNotFound | ErrSchemaIncompatible | ErrSchemaVersionConflict | ErrSchemaHistoryFull
  | ErrFanoutRoleConflict | ErrFanoutChildLimit | ErrFanoutSchemaMismatch | ErrFanoutSchemaManaged
  | ErrFanoutDelayTooLong | ErrDelayedChildProduce
  | ErrInvalidArgument | ErrPartitionRequired | ErrNotPartitionOwner
  | ErrForbidden
  | ErrInvalidSkip | ErrCapsNotPositive
  | ErrRemoteChildConflict | ErrRemoteChildLocal | ErrRemoteTargetLinked | ErrRemoteChildLimit
  | ErrRemoteRetentionFloor | ErrRemoteStubImmutable | ErrRemoteAwareDeleteRequired
  | ErrRemoteChildStale | ErrRemoteUnshipped
  | ErrRemoteNotFound | ErrRemoteExists | ErrRemoteLimit | ErrRemoteInUse | ErrRemoteChanged
  | ErrRemoteSaltRace | ErrRemoteKeyExhausted
  | ErrRootProtected | ErrPartitionAssigned | ErrAssignmentLive
  | ErrMemberRemoved | ErrMemberHeartbeatNewer | ErrStoppedApplying | ErrUndecodable
  | ErrNoAssignments | ErrUnauthorized | ErrThrottled | ErrNoAliveMembers | ErrAllMembersDraining
  | errBadMagic | errCorrupt | ErrUnexpectedEOF | ErrFrameTooLarge | ErrEmptyBatch | ErrLogPoisoned
  | ErrHwmSize | ErrVerify err
  | ErrExternal string

type_synonym 'a result = "err + 'a"

end
