(* ===== verification/Handle.thy ===== *)
theory Handle
  imports Decimal Errs
begin

text \<open>
  Receipt handles (\<^verbatim>\<open>src/internal/consumer/handle.go\<close>): the text \<^verbatim>\<open>partition:offset:nonce\<close> a consumer gets with a
  message and presents when it acks, extends or releases it.
\<close>

record Handle =
  Partition :: int
  hOffset :: int
  hNonce :: int

definition EncodeHandle :: "Handle \<Rightarrow> string" where
  "EncodeHandle h = AppendInt (Partition h) @ '':'' @ AppendInt (hOffset h) @ '':'' @ AppendInt (hNonce h)"

definition ValidateHandle :: "Handle \<Rightarrow> unit result" where
  "ValidateHandle h = (if Partition h < 0 \<or> hOffset h < 0 \<or> hNonce h \<le> 0 then Inl ErrHandleMalformed else Inr ())"

text \<open>The scan for the two colons; \<open>None\<close> is the early return on a third one.\<close>

fun scan_colons :: "string \<Rightarrow> int \<Rightarrow> int \<Rightarrow> int \<Rightarrow> (int \<times> int) option" where
  "scan_colons [] i first second = Some (first, second)"
| "scan_colons (ch # s) i first second =
     (if ch \<noteq> CHR '':'' then scan_colons s (i + 1) first second
      else if first < 0 then scan_colons s (i + 1) i second
      else if second < 0 then scan_colons s (i + 1) first i
      else None)"

definition DecodeHandle :: "string \<Rightarrow> Handle result" where
  "DecodeHandle s =
     (case scan_colons s 0 (-1) (-1) of
        None \<Rightarrow> Inl ErrHandleMalformed
      | Some (first, second) \<Rightarrow>
          if first \<le> 0 \<or> second \<le> first + 1 \<or> second = int (length s) - 1 then Inl ErrHandleMalformed
          else let partitionText = take (nat first) s;
                   offsetText = take (nat (second - (first + 1))) (drop (nat (first + 1)) s);
                   nonceText = drop (nat (second + 1)) s
               in if \<not> asciiDigits partitionText \<or> \<not> asciiDigits offsetText \<or> \<not> asciiDigits nonceText
                  then Inl ErrHandleMalformed
                  else case ParseInt64 partitionText of None \<Rightarrow> Inl ErrHandleMalformed | Some p \<Rightarrow>
                       case ParseInt64 offsetText of None \<Rightarrow> Inl ErrHandleMalformed | Some off \<Rightarrow>
                       case ParseInt64 nonceText of None \<Rightarrow> Inl ErrHandleMalformed | Some n \<Rightarrow>
                         let h = \<lparr>Partition = p, hOffset = off, hNonce = n\<rparr>
                         in case ValidateHandle h of Inl e \<Rightarrow> Inl e | Inr _ \<Rightarrow> Inr h)"

subsection \<open>The colon scan\<close>

lemma scan_colons_skip:
  "CHR '':'' \<notin> set a \<Longrightarrow> scan_colons (a @ s) i first second = scan_colons s (i + int (length a)) first second"
  by (induction a arbitrary: i) (auto simp: algebra_simps)

lemma scan_colons_none: "CHR '':'' \<notin> set s \<Longrightarrow> scan_colons s i first second = Some (first, second)"
  using scan_colons_skip [of s "[]" i first second] by simp

lemma scan_colons_full:
  assumes "CHR '':'' \<notin> set a" "CHR '':'' \<notin> set b" "CHR '':'' \<notin> set c"
  shows "scan_colons (a @ CHR '':'' # b @ CHR '':'' # c) 0 (-1) (-1) = Some (int (length a), int (length a) + 1 + int (length b))"
  using assms by (simp add: scan_colons_skip scan_colons_none)

lemma scan_colons_inv:
  assumes "scan_colons s 0 (-1) (-1) = Some (first, second)" and "0 \<le> first" and "0 \<le> second"
  obtains a b c where "s = a @ CHR '':'' # b @ CHR '':'' # c" "first = int (length a)"
    "second = int (length a) + 1 + int (length b)"
    "CHR '':'' \<notin> set a" "CHR '':'' \<notin> set b" "CHR '':'' \<notin> set c"
proof -
  have "CHR '':'' \<in> set s"
    using assms scan_colons_none [of s 0 "-1" "-1"] by auto
  then obtain a s1 where a: "s = a @ CHR '':'' # s1" "CHR '':'' \<notin> set a" by (meson split_list_first)
  have s1: "scan_colons s1 (int (length a) + 1) (int (length a)) (-1) = Some (first, second)"
    using assms(1) a by (simp add: scan_colons_skip)
  then have "CHR '':'' \<in> set s1"
    using assms(3) scan_colons_none [of s1 "int (length a) + 1" "int (length a)" "-1"] by auto
  then obtain b c where b: "s1 = b @ CHR '':'' # c" "CHR '':'' \<notin> set b" by (meson split_list_first)
  have c: "scan_colons c (int (length a) + int (length b) + 2) (int (length a)) (int (length a) + 1 + int (length b)) = Some (first, second)"
    using s1 b by (simp add: scan_colons_skip algebra_simps)
  have "CHR '':'' \<notin> set c"
  proof
    assume "CHR '':'' \<in> set c"
    then obtain d e where "c = d @ CHR '':'' # e" "CHR '':'' \<notin> set d" by (meson split_list_first)
    with c show False by (simp add: scan_colons_skip)
  qed
  with c have "first = int (length a)" "second = int (length a) + 1 + int (length b)"
    using scan_colons_none [of c "int (length a) + int (length b) + 2" "int (length a)" "int (length a) + 1 + int (length b)"]
    by auto
  with that a b \<open>CHR '':'' \<notin> set c\<close> show ?thesis by blast
qed

subsection \<open>What decodes, and to what\<close>

lemma decode_parts:
  assumes "CHR '':'' \<notin> set a" "CHR '':'' \<notin> set b" "CHR '':'' \<notin> set c"
  shows "DecodeHandle (a @ CHR '':'' # b @ CHR '':'' # c) =
    (if a \<noteq> [] \<and> b \<noteq> [] \<and> c \<noteq> [] \<and> asciiDigits a \<and> asciiDigits b \<and> asciiDigits c \<and>
        dec_value a < 2 ^ 63 \<and> dec_value b < 2 ^ 63 \<and> dec_value c < 2 ^ 63 \<and> 0 < dec_value c
     then Inr \<lparr>Partition = int (dec_value a), hOffset = int (dec_value b), hNonce = int (dec_value c)\<rparr>
     else Inl ErrHandleMalformed)"
proof -
  let ?s = "a @ CHR '':'' # b @ CHR '':'' # c" and ?f = "int (length a)" and ?g = "int (length a) + 1 + int (length b)"
  have "nat (?f + 1) = Suc (length a)" "nat (?g - (?f + 1)) = length b" "nat (?g + 1) = length a + Suc (Suc (length b))"
    by linarith+
  then have t: "take (nat ?f) ?s = a" "take (nat (?g - (?f + 1))) (drop (nat (?f + 1)) ?s) = b" "drop (nat (?g + 1)) ?s = c"
    by simp_all
  have g: "?f \<le> 0 \<longleftrightarrow> a = []" "?g \<le> ?f + 1 \<longleftrightarrow> b = []" "?g = int (length ?s) - 1 \<longleftrightarrow> c = []" by auto
  show ?thesis
    unfolding DecodeHandle_def scan_colons_full [OF assms] option.case prod.case g t Let_def
    by (simp add: ParseInt64_digits ValidateHandle_def)
qed

lemma decode_shape:
  assumes "DecodeHandle s = Inr h"
  obtains a b c where "s = a @ CHR '':'' # b @ CHR '':'' # c"
    "CHR '':'' \<notin> set a" "CHR '':'' \<notin> set b" "CHR '':'' \<notin> set c"
proof -
  obtain first second where sc: "scan_colons s 0 (-1) (-1) = Some (first, second)" "0 < first" "first + 1 < second"
    using assms by (auto simp: DecodeHandle_def split: option.splits if_splits)
  from sc(2,3) have "0 \<le> first" "0 \<le> second" by linarith+
  with sc(1) that show ?thesis by (elim scan_colons_inv) blast
qed

text \<open>
  C22. A receipt handle survives the wire: decoding what \<^verbatim>\<open>EncodeHandle\<close> wrote gives the handle back, for
  every partition index, offset and positive nonce of the \<^verbatim>\<open>int64\<close> range.
\<close>

theorem decode_encode_handle:
  assumes "0 \<le> Partition h" "Partition h < 2 ^ 63" "0 \<le> hOffset h" "hOffset h < 2 ^ 63" "0 < hNonce h" "hNonce h < 2 ^ 63"
  shows "DecodeHandle (EncodeHandle h) = Inr h"
proof -
  have "nat (Partition h) < 2 ^ 63" "nat (hOffset h) < 2 ^ 63" "nat (hNonce h) < 2 ^ 63"
    using assms by (simp_all add: nat_less_iff)
  with assms have "DecodeHandle (nat_dec (nat (Partition h)) @ CHR '':'' # nat_dec (nat (hOffset h)) @ CHR '':'' # nat_dec (nat (hNonce h))) = Inr h"
    by (subst decode_parts) (simp_all add: asciiDigits_no_colon nat_dec_digits)
  with assms show ?thesis by (simp add: EncodeHandle_def AppendInt_def)
qed

theorem decode_encode_handle_witness:
  "DecodeHandle (EncodeHandle \<lparr>Partition = 3, hOffset = 120, hNonce = 77\<rparr>) = Inr \<lparr>Partition = 3, hOffset = 120, hNonce = 77\<rparr>"
  by (rule decode_encode_handle) simp_all

text \<open>
  C23. Nothing else decodes. A text is accepted exactly when it is three non-empty runs of ASCII digits
  joined by single colons, each within the \<^verbatim>\<open>int64\<close> range and the last one positive, and the handle has
  the values of the three runs; in particular no sign, space or fourth field is accepted.
\<close>

theorem decode_handle_iff:
  "DecodeHandle s = Inr h \<longleftrightarrow>
   (\<exists>a b c. s = a @ CHR '':'' # b @ CHR '':'' # c \<and> a \<noteq> [] \<and> b \<noteq> [] \<and> c \<noteq> [] \<and>
      asciiDigits a \<and> asciiDigits b \<and> asciiDigits c \<and>
      dec_value a < 2 ^ 63 \<and> dec_value b < 2 ^ 63 \<and> dec_value c < 2 ^ 63 \<and> 0 < dec_value c \<and>
      h = \<lparr>Partition = int (dec_value a), hOffset = int (dec_value b), hNonce = int (dec_value c)\<rparr>)"
  (is "?l \<longleftrightarrow> ?r")
proof
  assume l: ?l
  then obtain a b c where s: "s = a @ CHR '':'' # b @ CHR '':'' # c"
    and no: "CHR '':'' \<notin> set a" "CHR '':'' \<notin> set b" "CHR '':'' \<notin> set c" by (rule decode_shape)
  from l [unfolded s decode_parts [OF no]] show ?r
    unfolding s by (intro exI [of _ a] exI [of _ b] exI [of _ c]) (simp split: if_splits)
next
  assume ?r
  then show ?l using asciiDigits_no_colon by (auto simp: decode_parts)
qed

end
