(* ===== verification/Expiry_Heap.thy ===== *)
theory Expiry_Heap
  imports Prelude
begin

text \<open>
  The expiry heap of a partition shard (\<^verbatim>\<open>src/internal/consumer/shard.go\<close>): the array heap
  \<^verbatim>\<open>expiryHeap\<close> with its sift-up and sift-down loops. \<open>heap_ok\<close> is the heap order; the contract
  \<open>expiry_queue\<close> says what the reservation table relies on (the multiset of entries and that
  the head expires first), and the interpretation at the end discharges it for the array heap.
\<close>

record expiryEntry =
  eOffset :: int
  eExpires :: int
  eNonce :: int

type_synonym expiryHeap = "expiryEntry list"

definition heap_less :: "expiryHeap \<Rightarrow> nat \<Rightarrow> nat \<Rightarrow> bool" where
  "heap_less h i j \<longleftrightarrow> eExpires (h ! i) < eExpires (h ! j)"

definition heap_swap :: "expiryHeap \<Rightarrow> nat \<Rightarrow> nat \<Rightarrow> expiryHeap" where
  "heap_swap h i j = h[i := h ! j, j := h ! i]"

definition parent :: "nat \<Rightarrow> nat" where
  "parent j = (j - 1) div 2"

lemma parent_less [simp]: "0 < j \<Longrightarrow> parent j < j"
  by (simp add: parent_def)

lemma parent_0 [simp]: "parent 0 = 0"
  by (simp add: parent_def)

lemma parent_le: "parent j \<le> j"
  by (cases "j = 0") (auto intro: less_imp_le)

lemma parent_eq [simp]: "parent j = j \<longleftrightarrow> j = 0"
  by (cases "j = 0") (auto dest: parent_less)

lemma parent_children: "0 < j \<Longrightarrow> parent j = i \<longleftrightarrow> j = 2 * i + 1 \<or> j = 2 * i + 2"
  by (auto simp: parent_def)

function heap_up :: "expiryHeap \<Rightarrow> nat \<Rightarrow> expiryHeap" where
  "heap_up h j =
     (let i = parent j
      in if i = j \<or> \<not> heap_less h j i then h else heap_up (heap_swap h i j) i)"
  by pat_completeness auto
termination
  by (relation "measure snd") (auto simp: le_neq_implies_less parent_le)

function heap_down :: "expiryHeap \<Rightarrow> nat \<Rightarrow> nat \<Rightarrow> expiryHeap" where
  "heap_down h i n =
     (let j1 = 2 * i + 1
      in if j1 \<ge> n then h
         else let j2 = j1 + 1;
                  j = (if j2 < n \<and> heap_less h j2 j1 then j2 else j1)
              in if \<not> heap_less h j i then h else heap_down (heap_swap h i j) j n)"
  by pat_completeness auto
termination
  by (relation "measure (\<lambda>(h, i, n). n - i)") (auto split: if_splits)

declare heap_up.simps [simp del] heap_down.simps [simp del]

definition heap_push :: "expiryEntry \<Rightarrow> expiryHeap \<Rightarrow> expiryHeap" where
  "heap_push e h = heap_up (h @ [e]) (length h)"

definition heap_pop :: "expiryHeap \<Rightarrow> expiryEntry \<times> expiryHeap" where
  "heap_pop h =
     (let n = length h - 1;
          old = heap_down (heap_swap h 0 n) 0 n
      in (old ! n, take n old))"

fun heap_init_from :: "nat \<Rightarrow> expiryHeap \<Rightarrow> nat \<Rightarrow> expiryHeap" where
  "heap_init_from 0 h n = h"
| "heap_init_from (Suc i) h n = heap_init_from i (heap_down h i n) n"

definition heap_init :: "expiryHeap \<Rightarrow> expiryHeap" where
  "heap_init h = heap_init_from (length h div 2) h (length h)"

subsection \<open>The heap order\<close>

abbreviation key :: "expiryHeap \<Rightarrow> nat \<Rightarrow> int" where
  "key h i \<equiv> eExpires (h ! i)"

text \<open>\<open>heap_from s h n\<close>: the first \<open>n\<close> slots are in heap order below every slot from \<open>s\<close> on.\<close>

definition heap_from :: "nat \<Rightarrow> expiryHeap \<Rightarrow> nat \<Rightarrow> bool" where
  "heap_from s h n \<longleftrightarrow> (\<forall>j. 0 < j \<longrightarrow> j < n \<longrightarrow> s \<le> parent j \<longrightarrow> key h (parent j) \<le> key h j)"

definition heap_ok :: "expiryHeap \<Rightarrow> bool" where
  "heap_ok h \<longleftrightarrow> heap_from 0 h (length h)"

lemma heap_fromD:
  "heap_from s h n \<Longrightarrow> 0 < j \<Longrightarrow> j < n \<Longrightarrow> s \<le> parent j \<Longrightarrow> key h (parent j) \<le> key h j"
  by (simp add: heap_from_def)

lemma mset_heap_swap [simp]:
  "i < length h \<Longrightarrow> j < length h \<Longrightarrow> mset (heap_swap h i j) = mset h"
  by (simp add: heap_swap_def mset_swap)

lemma length_heap_swap [simp]: "length (heap_swap h i j) = length h"
  by (simp add: heap_swap_def)

lemma nth_heap_swap:
  "i < length h \<Longrightarrow> j < length h \<Longrightarrow> k < length h \<Longrightarrow>
   heap_swap h i j ! k = (if k = j then h ! i else if k = i then h ! j else h ! k)"
  by (auto simp: heap_swap_def nth_list_update)

subsection \<open>Sift-up\<close>

text \<open>Heap order everywhere but at \<open>j\<close>, whose children still respect \<open>j\<close>'s parent.\<close>

definition up_inv :: "expiryHeap \<Rightarrow> nat \<Rightarrow> bool" where
  "up_inv h j \<longleftrightarrow>
     (\<forall>k. 0 < k \<longrightarrow> k < length h \<longrightarrow> k \<noteq> j \<longrightarrow> key h (parent k) \<le> key h k) \<and>
     (\<forall>k. 0 < k \<longrightarrow> k < length h \<longrightarrow> 0 < j \<longrightarrow> parent k = j \<longrightarrow> key h (parent j) \<le> key h k)"

lemma up_inv_swap:
  assumes inv: "up_inv h j" and j: "j < length h" "0 < j" and less: "heap_less h j (parent j)"
  shows "up_inv (heap_swap h (parent j) j) (parent j)"
proof -
  let ?i = "parent j"
  let ?h = "heap_swap h ?i j"
  have i: "?i < length h" "?i < j" using j parent_less [of j] by linarith+
  have kk: "key ?h k = (if k = j then key h ?i else if k = ?i then key h j else key h k)"
    if "k < length h" for k
    using nth_heap_swap [OF i(1) j(1) that] by simp
  have lt: "key h j < key h ?i" using less by (simp add: heap_less_def)
  have ord: "key h (parent k) \<le> key h k" if "0 < k" "k < length h" "k \<noteq> j" for k
    using inv that by (simp add: up_inv_def)
  have below: "key h ?i \<le> key h k" if "0 < k" "k < length h" "parent k = j" for k
    using inv that j by (simp add: up_inv_def)
  have 1: "key ?h (parent k) \<le> key ?h k" if k: "0 < k" "k < length h" "k \<noteq> ?i" for k
  proof -
    have pk: "parent k < length h" using k parent_less [of k] by linarith
    show ?thesis
      using ord [OF k(1,2)] below [OF k(1,2)] lt k i
      by (auto simp: kk [OF k(2)] kk [OF pk])
  qed
  have 2: "key ?h (parent ?i) \<le> key ?h k" if k: "0 < k" "k < length h" "parent k = ?i" "0 < ?i" for k
  proof -
    have pi: "parent ?i < length h" "parent ?i \<noteq> ?i" "parent ?i \<noteq> j"
      using i k parent_less [of ?i] by linarith+
    have "key h (parent ?i) \<le> key h ?i" using ord [of ?i] k i by auto
    then show ?thesis
      using ord [OF k(1,2)] k pi i by (auto simp: kk)
  qed
  show ?thesis
    unfolding up_inv_def length_heap_swap using 1 2 by blast
qed

lemma heap_up_correct:
  "j < length h \<Longrightarrow> up_inv h j \<Longrightarrow> heap_ok (heap_up h j) \<and> mset (heap_up h j) = mset h"
proof (induction h j rule: heap_up.induct)
  case (1 h j)
  let ?i = "parent j"
  show ?case
  proof (cases "?i = j \<or> \<not> heap_less h j ?i")
    case True
    then have "j = 0 \<or> key h ?i \<le> key h j" by (auto simp: heap_less_def)
    then have "heap_ok h"
      using "1.prems" by (auto simp: up_inv_def heap_ok_def heap_from_def)
    with True show ?thesis by (simp add: heap_up.simps [of h j])
  next
    case False
    then have pos: "0 < j" by (cases j) auto
    then have i: "?i < length h" using "1.prems" parent_less [of j] by linarith
    have "up_inv (heap_swap h ?i j) ?i"
      using False "1.prems" pos by (intro up_inv_swap) auto
    then have "heap_ok (heap_up (heap_swap h ?i j) ?i) \<and>
        mset (heap_up (heap_swap h ?i j) ?i) = mset (heap_swap h ?i j)"
      using "1.IH" [OF refl False] i by simp
    with False i "1.prems" show ?thesis by (simp add: heap_up.simps [of h j] Let_def)
  qed
qed

subsection \<open>Sift-down\<close>

text \<open>Heap order below \<open>s\<close> everywhere but at \<open>i\<close>'s children, which still respect \<open>i\<close>'s parent.\<close>

definition down_inv :: "nat \<Rightarrow> expiryHeap \<Rightarrow> nat \<Rightarrow> nat \<Rightarrow> bool" where
  "down_inv s h i n \<longleftrightarrow>
     (\<forall>k. 0 < k \<longrightarrow> k < n \<longrightarrow> parent k \<noteq> i \<longrightarrow> s \<le> parent k \<longrightarrow> key h (parent k) \<le> key h k) \<and>
     (\<forall>k. 0 < k \<longrightarrow> k < n \<longrightarrow> parent k = i \<longrightarrow> 0 < i \<longrightarrow> s \<le> parent i \<longrightarrow> key h (parent i) \<le> key h k)"

lemma down_inv_stop:
  assumes "down_inv s h i n" and "\<And>k. 0 < k \<Longrightarrow> k < n \<Longrightarrow> parent k = i \<Longrightarrow> key h i \<le> key h k"
  shows "heap_from s h n"
  using assms by (auto simp: down_inv_def heap_from_def)

lemma down_inv_swap:
  assumes inv: "down_inv s h i n" and n: "n \<le> length h" and j: "j < n" "parent j = i" "0 < j" and s: "s \<le> i"
    and least: "\<And>k. 0 < k \<Longrightarrow> k < n \<Longrightarrow> parent k = i \<Longrightarrow> key h j \<le> key h k"
    and less: "key h j < key h i"
  shows "down_inv s (heap_swap h i j) j n"
proof -
  let ?h = "heap_swap h i j"
  have i: "i < j" using parent_less [OF j(3)] j(2) by simp
  have kk: "key ?h k = (if k = j then key h i else if k = i then key h j else key h k)" if "k < n" for k
    using that n i j by (simp add: nth_heap_swap)
  have ord: "key h (parent k) \<le> key h k" if "0 < k" "k < n" "parent k \<noteq> i" "s \<le> parent k" for k
    using inv that by (simp add: down_inv_def)
  have 1: "key ?h (parent k) \<le> key ?h k"
    if k: "0 < k" "k < n" "parent k \<noteq> j" "s \<le> parent k" for k
  proof -
    have pk: "parent k < n" using k parent_less [of k] by linarith
    show ?thesis
    proof (cases "k = i")
      case True
      with k have "key h (parent i) \<le> key h j"
        using inv j i by (auto simp: down_inv_def)
      with True k i pk parent_less [of i] show ?thesis by (simp add: kk)
    next
      case False
      then show ?thesis
        using ord [OF k(1,2)] least [OF k(1,2)] less k pk i
        by (auto simp: kk [OF k(2)] kk [OF pk])
    qed
  qed
  have 2: "key ?h (parent j) \<le> key ?h k" if k: "0 < k" "k < n" "parent k = j" for k
  proof -
    have "k \<noteq> i" "k \<noteq> j" using k i parent_less [of k] by auto
    moreover have "key h j \<le> key h k" using ord [of k] k i s by auto
    ultimately show ?thesis using k i j by (auto simp: kk)
  qed
  show ?thesis unfolding down_inv_def using 1 2 by blast
qed

lemma heap_down_correct:
  "n \<le> length h \<Longrightarrow> s \<le> i \<Longrightarrow> down_inv s h i n \<Longrightarrow>
   heap_from s (heap_down h i n) n \<and> mset (heap_down h i n) = mset h \<and>
   drop n (heap_down h i n) = drop n h"
proof (induction h i n rule: heap_down.induct)
  case (1 h i n)
  define j1 where "j1 = 2 * i + 1"
  define j where "j = (if j1 + 1 < n \<and> heap_less h (j1 + 1) j1 then j1 + 1 else j1)"
  have eq: "heap_down h i n =
      (if j1 \<ge> n then h else if \<not> heap_less h j i then h else heap_down (heap_swap h i j) j n)"
    by (simp add: heap_down.simps [of h i n] j_def j1_def Let_def)
  show ?case
  proof (cases "j1 \<ge> n")
    case True
    then have "heap_from s h n"
      using "1.prems" by (intro down_inv_stop [of s h i]) (auto simp: parent_children j1_def)
    with True eq show ?thesis by simp
  next
    case False
    have least: "key h j \<le> key h k" if "0 < k" "k < n" "parent k = i" for k
      using that by (auto simp: parent_children j_def j1_def heap_less_def)
    have j: "j < n" "parent j = i" "0 < j"
      using False by (auto simp: j_def j1_def parent_def)
    show ?thesis
    proof (cases "heap_less h j i")
      case False
      then have "heap_from s h n"
        using "1.prems" least by (intro down_inv_stop [of s h i]) (auto simp: heap_less_def intro: order_trans [OF _ least])
      with False eq show ?thesis by simp
    next
      case True
      have ij: "i < j" using parent_less [OF j(3)] j(2) by simp
      have inv: "down_inv s (heap_swap h i j) j n"
        using "1.prems" j least True by (intro down_inv_swap) (auto simp: heap_less_def)
      have IH: "heap_from s (heap_down (heap_swap h i j) j n) n \<and>
          mset (heap_down (heap_swap h i j) j n) = mset (heap_swap h i j) \<and>
          drop n (heap_down (heap_swap h i j) j n) = drop n (heap_swap h i j)"
        by (rule "1.IH" [OF j1_def \<open>\<not> j1 \<ge> n\<close> refl j_def]) (use inv ij "1.prems" True in auto)
      have "mset (heap_swap h i j) = mset h" "drop n (heap_swap h i j) = drop n h"
        using j ij "1.prems" by (simp_all add: heap_swap_def mset_swap drop_update_cancel)
      with IH eq True \<open>\<not> j1 \<ge> n\<close> show ?thesis by simp
    qed
  qed
qed

subsection \<open>The heap operations\<close>

lemma heap_top_min:
  assumes "heap_ok h" and "i < length h"
  shows "key h 0 \<le> key h i"
  using assms(2)
proof (induction i rule: less_induct)
  case (less i)
  show ?case
  proof (cases "i = 0")
    case False
    then have "key h (parent i) \<le> key h i"
      using assms(1) less.prems by (intro heap_fromD [of 0 h "length h"]) (auto simp: heap_ok_def)
    moreover have "key h 0 \<le> key h (parent i)"
      using False less.prems parent_less [of i] by (intro less.IH) linarith+
    ultimately show ?thesis by linarith
  qed simp
qed

lemma heap_push_correct:
  assumes "heap_ok h"
  shows "heap_ok (heap_push e h)" and "mset (heap_push e h) = add_mset e (mset h)"
proof -
  have old: "key (h @ [e]) (parent k) \<le> key (h @ [e]) k" if "0 < k" "k < length h" for k
  proof -
    have "parent k < length h" using that parent_less [of k] by linarith
    then show ?thesis
      using heap_fromD [of 0 h "length h" k] assms that by (simp add: heap_ok_def nth_append)
  qed
  have leaf: "parent k \<noteq> length h" if "0 < k" "k < Suc (length h)" for k
    using that parent_less [of k] by linarith
  have "up_inv (h @ [e]) (length h)"
    using old leaf by (auto simp: up_inv_def)
  then have "heap_ok (heap_push e h) \<and> mset (heap_push e h) = mset (h @ [e])"
    unfolding heap_push_def by (intro heap_up_correct) auto
  then show "heap_ok (heap_push e h)" and "mset (heap_push e h) = add_mset e (mset h)"
    by simp_all
qed

lemma heap_pop_correct:
  assumes ok: "heap_ok h" and ne: "h \<noteq> []"
  shows "fst (heap_pop h) = h ! 0" and "heap_ok (snd (heap_pop h))"
    and "mset h = add_mset (h ! 0) (mset (snd (heap_pop h)))"
proof -
  define n where "n = length h - 1"
  define w where "w = heap_swap h 0 n"
  define old where "old = heap_down w 0 n"
  have n: "n < length h" "0 < length h" "length h = Suc n" using ne by (auto simp: n_def)
  have same: "key w k = key h k" if "0 < k" "k < n" for k
    using nth_heap_swap [OF n(2) n(1), of k] that n by (simp add: w_def)
  have "down_inv 0 w 0 n"
  proof -
    have "key w (parent k) \<le> key w k" if "0 < k" "k < n" "0 < parent k" for k
    proof -
      have "parent k < n" using that parent_less [of k] by linarith
      then show ?thesis
        using heap_fromD [of 0 h "length h" k] ok that n same by (simp add: heap_ok_def)
    qed
    then show ?thesis by (simp add: down_inv_def)
  qed
  then have down: "heap_from 0 old n" "mset old = mset w" "drop n old = drop n w"
    using heap_down_correct [of n w 0 0] n by (simp_all add: old_def w_def)
  have len: "length old = Suc n"
    using down(2) n mset_eq_length [of old w] by (simp add: w_def)
  have last: "old ! n = h ! 0"
    using down(3) len n nth_heap_swap [OF n(2) n(1) n(1)]
    by (metis Cons_nth_drop_Suc length_heap_swap lessI nth_via_drop w_def)
  have "heap_from 0 (take n old) n"
    unfolding heap_from_def
  proof (intro allI impI)
    fix j assume j: "0 < j" "j < n"
    then have "parent j < n" using parent_less [of j] by linarith
    then show "key (take n old) (parent j) \<le> key (take n old) j"
      using heap_fromD [OF down(1) j] j by simp
  qed
  then show "heap_ok (snd (heap_pop h))"
    using len by (simp add: heap_pop_def Let_def heap_ok_def old_def w_def n_def)
  show "fst (heap_pop h) = h ! 0"
    using last by (simp add: heap_pop_def Let_def old_def w_def n_def)
  have "mset h = mset w" using n by (simp add: w_def)
  also have "\<dots> = mset (take n old @ [old ! n])"
    using down(2) len by (simp add: take_Suc_conv_app_nth [symmetric])
  finally show "mset h = add_mset (h ! 0) (mset (snd (heap_pop h)))"
    using last by (simp add: heap_pop_def Let_def old_def w_def n_def)
qed

lemma heap_init_from_correct:
  "n \<le> length h \<Longrightarrow> heap_from i h n \<Longrightarrow>
   heap_from 0 (heap_init_from i h n) n \<and> mset (heap_init_from i h n) = mset h"
proof (induction i h n rule: heap_init_from.induct)
  case (2 i h n)
  have "down_inv i h i n"
    unfolding down_inv_def
  proof (intro conjI allI impI)
    fix k assume "0 < k" "k < n" "parent k \<noteq> i" "i \<le> parent k"
    then show "key h (parent k) \<le> key h k" using heap_fromD [OF 2(3)] by simp
  next
    fix k assume "0 < i" "i \<le> parent i"
    then have False using parent_less [of i] by linarith
    then show "key h (parent i) \<le> key h k" ..
  qed
  then have down: "heap_from i (heap_down h i n) n" "mset (heap_down h i n) = mset h"
    using heap_down_correct [of n h i i] 2(2) by auto
  with "2.IH" "2.prems" show ?case
    using mset_eq_length [OF down(2)] by simp
qed simp

lemma heap_init_correct: "heap_ok (heap_init h)" "mset (heap_init h) = mset h"
proof -
  have "heap_from (length h div 2) h (length h)"
    by (auto simp: heap_from_def parent_def)
  from heap_init_from_correct [OF _ this]
  show "mset (heap_init h) = mset h" and "heap_ok (heap_init h)"
    using mset_eq_length [of "heap_init h" h]
    by (auto simp: heap_init_def heap_ok_def)
qed

subsection \<open>The contract of the expiry queue\<close>

locale expiry_queue =
  fixes push :: "expiryEntry \<Rightarrow> 'q \<Rightarrow> 'q"
    and pop :: "'q \<Rightarrow> expiryEntry \<times> 'q"
    and top :: "'q \<Rightarrow> expiryEntry"
    and build :: "expiryEntry list \<Rightarrow> 'q"
    and contents :: "'q \<Rightarrow> expiryEntry multiset"
    and ok :: "'q \<Rightarrow> bool"
  assumes push_ok: "ok q \<Longrightarrow> ok (push e q)"
    and push_contents: "ok q \<Longrightarrow> contents (push e q) = add_mset e (contents q)"
    and pop_ok: "ok q \<Longrightarrow> contents q \<noteq> {#} \<Longrightarrow> ok (snd (pop q))"
    and pop_contents: "ok q \<Longrightarrow> contents q \<noteq> {#} \<Longrightarrow> contents q = add_mset (top q) (contents (snd (pop q)))"
    and pop_top: "ok q \<Longrightarrow> contents q \<noteq> {#} \<Longrightarrow> fst (pop q) = top q"
    and top_min: "ok q \<Longrightarrow> e \<in># contents q \<Longrightarrow> eExpires (top q) \<le> eExpires e"
    and build_ok: "ok (build es)"
    and build_contents: "contents (build es) = mset es"
begin

lemma none_due:
  "ok q \<Longrightarrow> now < eExpires (top q) \<Longrightarrow> e \<in># contents q \<Longrightarrow> now < eExpires e"
  using top_min by fastforce

lemma pop_smaller: "ok q \<Longrightarrow> contents q \<noteq> {#} \<Longrightarrow> size (contents (snd (pop q))) < size (contents q)"
  by (metis lessI pop_contents size_add_mset)

lemma pop_keeps:
  "ok q \<Longrightarrow> contents q \<noteq> {#} \<Longrightarrow> e \<in># contents q \<Longrightarrow> e = fst (pop q) \<or> e \<in># contents (snd (pop q))"
  by (metis insert_iff pop_contents pop_top set_mset_add_mset_insert)

lemma pop_sub: "ok q \<Longrightarrow> contents q \<noteq> {#} \<Longrightarrow> e \<in># contents (snd (pop q)) \<Longrightarrow> e \<in># contents q"
  by (metis add_mset_remove_trivial in_diffD pop_contents)

end

interpretation eh: expiry_queue heap_push heap_pop hd heap_init mset heap_ok
proof unfold_locales
  show "eExpires (hd q) \<le> eExpires e" if "heap_ok q" "e \<in># mset q" for q e
    using that heap_top_min by (metis hd_conv_nth in_set_conv_nth list.set_cases list.simps(3) set_mset_mset)
qed (auto simp: heap_push_correct heap_pop_correct heap_init_correct hd_conv_nth)

lemma length_heap_pop: "heap_ok h \<Longrightarrow> h \<noteq> [] \<Longrightarrow> length (snd (heap_pop h)) < length h"
  using eh.pop_smaller [of h] by simp

end
