(* ===== verification/Shard.thy ===== *)
theory Shard
  imports Errs Expiry_Heap
begin

text \<open>
  The reservation table of one partition (\<^verbatim>\<open>src/internal/consumer/shard.go\<close>, \<^verbatim>\<open>reserve.go\<close>,
  \<^verbatim>\<open>extend.go\<close>): the record \<open>partitionShard\<close> and every operation that runs under its mutex, each one
  definition. An operation that the source runs between \<^verbatim>\<open>sh.mu.Lock\<close> and \<^verbatim>\<open>sh.mu.Unlock\<close> is one
  atomic step here; what it does after the unlock (the commit callback and the release
  notification) is returned as a value of type \<open>effects\<close>.

  Offsets, nonces and Unix milliseconds are \<open>int\<close>: they are \<^verbatim>\<open>int64\<close> in the source and stay far from
  its bounds (offsets below the log tail, clock values). \<open>aheadVersion\<close> is a counter that may wrap, so
  it is a 64-bit word. A Go map is an ordered map of the prelude; where the source walks a map
  (Go leaves the order open) the model walks it in key order, and the facts proved of such a walk
  do not depend on the order.
\<close>

subsection \<open>State\<close>

record reservation =
  rExpires :: int
  rNonce :: int

text \<open>The nonce source: the stream of 64-bit draws and how many were taken.\<close>

record nonceSource =
  draws :: "nat \<Rightarrow> 64 word"
  drawn :: nat

record partitionShard =
  committed :: int
  entries :: "(int, reservation) omap"
  expiry :: expiryHeap
  ackedAhead :: "int oset"
  aheadVersion :: "64 word"
  corrupt :: "int oset"
  nextFree :: int
  rng :: nonceSource
  maxInFlight :: int
  maxAckedAhead :: int

record Caps =
  capInFlight :: int
  capAckedAhead :: int

record ReserveResult =
  Reserved :: bool
  Offset :: int
  Nonce :: int
  ExpiresAtUnixMs :: int
  SkipReason :: string

record effects =
  commitCall :: "int option"
  releaseCall :: bool

definition quiet :: effects where
  "quiet = \<lparr>commitCall = None, releaseCall = False\<rparr>"

definition heapCompactSlack :: nat where
  "heapCompactSlack = 16"

definition newPartitionShard :: "nonceSource \<Rightarrow> int \<Rightarrow> Caps \<Rightarrow> partitionShard" where
  "newPartitionShard src c caps =
     \<lparr>committed = c, entries = [], expiry = [], ackedAhead = [], aheadVersion = 0, corrupt = [],
      nextFree = c + 1, rng = src, maxInFlight = capInFlight caps, maxAckedAhead = capAckedAhead caps\<rparr>"

subsection \<open>Nonces\<close>

text \<open>The minting loop has no bound of its own, so a source that never yields a positive value is \<open>None\<close>.\<close>

partial_function (option) nextNonce :: "nonceSource \<Rightarrow> (int \<times> nonceSource) option" where
  "nextNonce r =
     (let n = uint (drop_bit 1 (draws r (drawn r))); r' = r\<lparr>drawn := Suc (drawn r)\<rparr>
      in if n > 0 then Some (n, r') else nextNonce r')"

definition nextNonceLocked :: "partitionShard \<Rightarrow> (int \<times> partitionShard) option" where
  "nextNonceLocked sh =
     (case nextNonce (rng sh) of None \<Rightarrow> None | Some (n, r) \<Rightarrow> Some (n, sh\<lparr>rng := r\<rparr>))"

subsection \<open>Purging expired reservations\<close>

definition freedLocked :: "int \<Rightarrow> partitionShard \<Rightarrow> partitionShard" where
  "freedLocked off sh = (if off < nextFree sh then sh\<lparr>nextFree := off\<rparr> else sh)"

definition compactExpiryLocked :: "partitionShard \<Rightarrow> partitionShard" where
  "compactExpiryLocked sh =
     (if length (expiry sh) \<le> 2 * length (entries sh) + heapCompactSlack then sh
      else sh\<lparr>expiry := heap_init
        (map (\<lambda>(off, rsv). \<lparr>eOffset = off, eExpires = rExpires rsv, eNonce = rNonce rsv\<rparr>) (entries sh))\<rparr>)"

lemma length_heap_down [simp]: "length (heap_down h i n) = length h"
  by (induction h i n rule: heap_down.induct) (subst heap_down.simps, simp add: Let_def)

lemma length_snd_heap_pop [simp]: "length (snd (heap_pop h)) = length h - 1"
  by (simp add: heap_pop_def Let_def)

definition live_slot :: "partitionShard \<Rightarrow> expiryEntry \<Rightarrow> bool" where
  "live_slot sh e \<longleftrightarrow>
     (case om_get (entries sh) (eOffset e) of
        Some rsv \<Rightarrow> rNonce rsv = eNonce e \<and> rExpires rsv = eExpires e
      | None \<Rightarrow> False)"

function purge_loop :: "int \<Rightarrow> partitionShard \<Rightarrow> nat \<Rightarrow> partitionShard \<times> nat" where
  "purge_loop now sh released =
     (if expiry sh \<noteq> [] \<and> eExpires (hd (expiry sh)) \<le> now then
        let e = fst (heap_pop (expiry sh));
            sh1 = sh\<lparr>expiry := snd (heap_pop (expiry sh))\<rparr>
        in if live_slot sh1 e
           then purge_loop now
                  (freedLocked (eOffset e) (sh1\<lparr>entries := om_del (eOffset e) (entries sh1)\<rparr>))
                  (Suc released)
           else purge_loop now sh1 released
      else (sh, released))"
  by pat_completeness auto
termination
  by (relation "measure (\<lambda>(now, sh, r). length (expiry sh))") (auto simp: freedLocked_def)

declare purge_loop.simps [simp del]

definition purgeExpiredLocked :: "int \<Rightarrow> partitionShard \<Rightarrow> partitionShard \<times> nat" where
  "purgeExpiredLocked now sh =
     (let (sh1, released) = purge_loop now sh 0 in (compactExpiryLocked sh1, released))"

subsection \<open>The committed frontier\<close>

function advance_loop :: "partitionShard \<Rightarrow> partitionShard" where
  "advance_loop sh =
     (let n = committed sh + 1
      in if om_mem (ackedAhead sh) n
         then advance_loop (sh\<lparr>ackedAhead := om_del n (ackedAhead sh),
                               aheadVersion := aheadVersion sh + 1, committed := n\<rparr>)
         else if om_mem (corrupt sh) n
         then advance_loop (sh\<lparr>corrupt := om_del n (corrupt sh), committed := n\<rparr>)
         else sh)"
  by pat_completeness auto
termination
  by (relation "measure (\<lambda>sh. length (ackedAhead sh) + length (corrupt sh))")
    (auto simp: length_om_del_less)

declare advance_loop.simps [simp del]

definition advanceCommittedLocked :: "partitionShard \<Rightarrow> int \<times> partitionShard" where
  "advanceCommittedLocked sh =
     (let sh1 = advance_loop sh;
          sh2 = (if nextFree sh1 < committed sh1 + 1 then sh1\<lparr>nextFree := committed sh1 + 1\<rparr> else sh1)
      in (committed sh2, sh2))"

definition seed_one :: "int \<Rightarrow> partitionShard \<Rightarrow> partitionShard" where
  "seed_one off sh =
     (if off > committed sh
      then sh\<lparr>ackedAhead := om_put off () (ackedAhead sh), aheadVersion := aheadVersion sh + 1\<rparr>
      else sh)"

definition seedAheadLocked :: "int list \<Rightarrow> partitionShard \<Rightarrow> int \<times> partitionShard" where
  "seedAheadLocked offsets sh = advanceCommittedLocked (fold seed_one offsets sh)"

definition aheadFullLocked :: "partitionShard \<Rightarrow> bool" where
  "aheadFullLocked sh \<longleftrightarrow> int (length (ackedAhead sh)) + int (length (corrupt sh)) \<ge> maxAckedAhead sh"

subsection \<open>Reserving\<close>

text \<open>\<^verbatim>\<open>time.Duration.Milliseconds\<close>: nanoseconds to milliseconds, truncating towards zero.\<close>

definition durationMillis :: "int \<Rightarrow> int" where
  "durationMillis d = (if d < 0 then - ((- d) div 1000000) else d div 1000000)"

definition resolvedOrReservedLocked :: "partitionShard \<Rightarrow> int \<Rightarrow> bool" where
  "resolvedOrReservedLocked sh off \<longleftrightarrow>
     om_mem (entries sh) off \<or> om_mem (ackedAhead sh) off \<or> om_mem (corrupt sh) off"

definition skipped :: "string \<Rightarrow> ReserveResult" where
  "skipped why = \<lparr>Reserved = False, Offset = 0, Nonce = 0, ExpiresAtUnixMs = 0, SkipReason = why\<rparr>"

definition reserveLocked :: "int \<Rightarrow> int \<Rightarrow> int \<Rightarrow> partitionShard \<Rightarrow> (ReserveResult \<times> partitionShard) option" where
  "reserveLocked off now vis sh =
     (case nextNonceLocked sh of
        None \<Rightarrow> None
      | Some (nonce, sh1) \<Rightarrow>
          (let exp = now + durationMillis vis;
               sh2 = sh1\<lparr>entries := om_put off \<lparr>rExpires = exp, rNonce = nonce\<rparr> (entries sh1),
                         expiry := heap_push \<lparr>eOffset = off, eExpires = exp, eNonce = nonce\<rparr> (expiry sh1)\<rparr>;
               sh3 = (if off \<ge> nextFree sh2 then sh2\<lparr>nextFree := off + 1\<rparr> else sh2)
           in Some (\<lparr>Reserved = True, Offset = off, Nonce = nonce, ExpiresAtUnixMs = exp, SkipReason = []\<rparr>,
                    sh3)))"

function scan_free :: "partitionShard \<Rightarrow> int \<Rightarrow> int \<Rightarrow> int option" where
  "scan_free sh off logTail =
     (if off < logTail
      then (if resolvedOrReservedLocked sh off then scan_free sh (off + 1) logTail else Some off)
      else None)"
  by pat_completeness auto
termination
  by (relation "measure (\<lambda>(sh, off, logTail). nat (logTail - off))") auto

declare scan_free.simps [simp del]

definition reserveNextLocked :: "int \<Rightarrow> int \<Rightarrow> int \<Rightarrow> partitionShard \<Rightarrow> (ReserveResult \<times> partitionShard) option" where
  "reserveNextLocked now vis logTail sh0 =
     (let sh = fst (purgeExpiredLocked now sh0)
      in if int (length (entries sh)) \<ge> maxInFlight sh then Some (skipped ''cap'', sh)
         else let n = committed sh + 1
              in if n \<ge> logTail then Some (skipped ''empty'', sh)
                 else if aheadFullLocked sh
                 then (if resolvedOrReservedLocked sh n then Some (skipped ''ahead_full'', sh)
                       else reserveLocked n now vis sh)
                 else (case scan_free sh (max n (nextFree sh)) logTail of
                         Some off \<Rightarrow> reserveLocked off now vis sh
                       | None \<Rightarrow> Some (skipped ''all_reserved'', sh)))"

subsection \<open>Resolving a reservation: ack and corrupt skip\<close>

datatype aheadSel = AckedAheadSet | CorruptSet

definition park :: "aheadSel \<Rightarrow> int \<Rightarrow> partitionShard \<Rightarrow> partitionShard" where
  "park sel off sh =
     (case sel of
        AckedAheadSet \<Rightarrow> sh\<lparr>ackedAhead := om_put off () (ackedAhead sh)\<rparr>
      | CorruptSet \<Rightarrow> sh\<lparr>corrupt := om_put off () (corrupt sh)\<rparr>)"

definition handle_live :: "partitionShard \<Rightarrow> int \<Rightarrow> int \<Rightarrow> bool" where
  "handle_live sh off nonce \<longleftrightarrow>
     (case om_get (entries sh) off of Some rsv \<Rightarrow> rNonce rsv = nonce | None \<Rightarrow> False)"

definition resolveReservedLocked ::
    "aheadSel \<Rightarrow> int \<Rightarrow> int \<Rightarrow> int \<Rightarrow> partitionShard \<Rightarrow> unit result \<times> partitionShard \<times> effects" where
  "resolveReservedLocked sel now off nonce sh0 =
     (let (sh, released) = purgeExpiredLocked now sh0;
          purged = (released > 0)
      in if \<not> handle_live sh off nonce
         then (Inl ErrHandleStale, sh, quiet\<lparr>releaseCall := purged\<rparr>)
         else let wasAtCap = (int (length (entries sh)) \<ge> maxInFlight sh);
                  aheadWasFull = aheadFullLocked sh
              in if off = committed sh + 1
                 then let sh1 = sh\<lparr>entries := om_del off (entries sh), committed := off\<rparr>;
                          (adv, sh2) = advanceCommittedLocked sh1
                      in (Inr (), sh2,
                          \<lparr>commitCall = Some adv, releaseCall = (purged \<or> wasAtCap \<or> aheadWasFull)\<rparr>)
                 else let sh1 = park sel off sh;
                          persisted = om_mem (ackedAhead sh1) off;
                          sh2 = (if persisted then sh1\<lparr>aheadVersion := aheadVersion sh1 + 1\<rparr> else sh1);
                          sh3 = sh2\<lparr>entries := om_del off (entries sh2)\<rparr>
                      in (Inr (), sh3,
                          \<lparr>commitCall = (if persisted then Some (committed sh3) else None),
                           releaseCall = (purged \<or> wasAtCap)\<rparr>))"

subsection \<open>Skipping what retention deleted\<close>

definition drop_below :: "int \<Rightarrow> (int, 'v) omap \<Rightarrow> (int, 'v) omap" where
  "drop_below oldest m = om_filter (\<lambda>off. \<not> off < oldest) m"

definition skipMissingBelowLocked ::
    "int \<Rightarrow> int \<Rightarrow> int \<Rightarrow> int \<Rightarrow> partitionShard \<Rightarrow> int result \<times> partitionShard \<times> effects" where
  "skipMissingBelowLocked now off nonce oldest sh0 =
     (let sh = fst (purgeExpiredLocked now sh0)
      in if \<not> handle_live sh off nonce then (Inl ErrHandleStale, sh, quiet)
         else let kept = drop_below oldest (ackedAhead sh);
                  sh1 = sh\<lparr>entries := drop_below oldest (entries sh), ackedAhead := kept,
                           aheadVersion := aheadVersion sh + of_nat (length (ackedAhead sh) - length kept),
                           corrupt := drop_below oldest (corrupt sh)\<rparr>;
                  before = committed sh1;
                  sh2 = (if committed sh1 < oldest - 1 then sh1\<lparr>committed := oldest - 1\<rparr> else sh1);
                  (adv, sh3) = advanceCommittedLocked sh2
              in (Inr (adv - before), sh3, \<lparr>commitCall = Some adv, releaseCall = True\<rparr>))"

subsection \<open>Extending and releasing a lease\<close>

definition extendHandleLocked ::
    "int \<Rightarrow> int \<Rightarrow> int \<Rightarrow> int \<Rightarrow> partitionShard \<Rightarrow> int result \<times> partitionShard \<times> effects" where
  "extendHandleLocked now off nonce vis sh0 =
     (let (sh, released) = purgeExpiredLocked now sh0;
          purged = (released > 0)
      in if \<not> handle_live sh off nonce
         then (Inl ErrHandleStale, sh, quiet\<lparr>releaseCall := purged\<rparr>)
         else let exp = now + durationMillis vis;
                  sh1 = sh\<lparr>entries := om_put off \<lparr>rExpires = exp, rNonce = nonce\<rparr> (entries sh),
                           expiry := heap_push \<lparr>eOffset = off, eExpires = exp, eNonce = nonce\<rparr> (expiry sh)\<rparr>
              in (Inr exp, sh1, quiet\<lparr>releaseCall := purged\<rparr>))"

definition releaseHandleLocked ::
    "int \<Rightarrow> int \<Rightarrow> int \<Rightarrow> partitionShard \<Rightarrow> unit result \<times> partitionShard \<times> effects" where
  "releaseHandleLocked now off nonce sh0 =
     (let (sh, released) = purgeExpiredLocked now sh0;
          purged = (released > 0)
      in if \<not> handle_live sh off nonce
         then (Inl ErrHandleStale, sh, quiet\<lparr>releaseCall := purged\<rparr>)
         else let sh1 = freedLocked off (sh\<lparr>entries := om_del off (entries sh)\<rparr>)
              in (Inr (), sh1, quiet\<lparr>releaseCall := True\<rparr>))"

subsection \<open>New limits\<close>

definition setCapsLocked :: "Caps \<Rightarrow> partitionShard \<Rightarrow> partitionShard" where
  "setCapsLocked caps sh = sh\<lparr>maxInFlight := capInFlight caps, maxAckedAhead := capAckedAhead caps\<rparr>"

end
