(* ===== verification/Shard_Inv.thy ===== *)
theory Shard_Inv
  imports Shard
begin

text \<open>
  The invariant of a partition shard and the functional behaviour of its internal routines: what
  the purge removes, what the frontier advance collapses, what the scan finds, and that every
  operation of \<open>Shard\<close> keeps the invariant.
\<close>

subsection \<open>The invariant\<close>

definition slot :: "int \<Rightarrow> reservation \<Rightarrow> expiryEntry" where
  "slot off rsv = \<lparr>eOffset = off, eExpires = rExpires rsv, eNonce = rNonce rsv\<rparr>"

lemma slot_sel [simp]:
  "eOffset (slot off rsv) = off" "eExpires (slot off rsv) = rExpires rsv" "eNonce (slot off rsv) = rNonce rsv"
  by (simp_all add: slot_def)

text \<open>
  What holds at every point inside an operation: the maps and the heap are well-formed, everything
  tracked lies past the frontier in exactly one of the three maps, everything below the scan hint
  is tracked, and every reservation has its slot in the heap.
\<close>

definition shard_core :: "partitionShard \<Rightarrow> bool" where
  "shard_core sh \<longleftrightarrow>
     om_wf (entries sh) \<and> om_wf (ackedAhead sh) \<and> om_wf (corrupt sh) \<and> heap_ok (expiry sh) \<and>
     (\<forall>off. resolvedOrReservedLocked sh off \<longrightarrow> committed sh < off) \<and>
     (\<forall>off. om_mem (entries sh) off \<longrightarrow> \<not> om_mem (ackedAhead sh) off \<and> \<not> om_mem (corrupt sh) off) \<and>
     (\<forall>off. om_mem (ackedAhead sh) off \<longrightarrow> \<not> om_mem (corrupt sh) off) \<and>
     (\<forall>off. committed sh < off \<longrightarrow> off < nextFree sh \<longrightarrow> resolvedOrReservedLocked sh off) \<and>
     (\<forall>off rsv. om_get (entries sh) off = Some rsv \<longrightarrow> slot off rsv \<in> set (expiry sh))"

text \<open>Between operations the frontier is also collapsed and the hint lies past it.\<close>

definition shard_inv :: "partitionShard \<Rightarrow> bool" where
  "shard_inv sh \<longleftrightarrow>
     shard_core sh \<and> committed sh < nextFree sh \<and>
     \<not> om_mem (ackedAhead sh) (committed sh + 1) \<and> \<not> om_mem (corrupt sh) (committed sh + 1)"

lemma shard_coreD:
  assumes "shard_core sh"
  shows "om_wf (entries sh)" "om_wf (ackedAhead sh)" "om_wf (corrupt sh)" "heap_ok (expiry sh)"
    and "\<And>off. resolvedOrReservedLocked sh off \<Longrightarrow> committed sh < off"
    and "\<And>off. om_mem (entries sh) off \<Longrightarrow> \<not> om_mem (ackedAhead sh) off"
    and "\<And>off. om_mem (entries sh) off \<Longrightarrow> \<not> om_mem (corrupt sh) off"
    and "\<And>off. om_mem (ackedAhead sh) off \<Longrightarrow> \<not> om_mem (corrupt sh) off"
    and "\<And>off. committed sh < off \<Longrightarrow> off < nextFree sh \<Longrightarrow> resolvedOrReservedLocked sh off"
    and "\<And>off rsv. om_get (entries sh) off = Some rsv \<Longrightarrow> slot off rsv \<in> set (expiry sh)"
  using assms by (auto simp: shard_core_def)

lemma shard_coreI:
  assumes "om_wf (entries sh)" "om_wf (ackedAhead sh)" "om_wf (corrupt sh)" "heap_ok (expiry sh)"
    and "\<And>off. resolvedOrReservedLocked sh off \<Longrightarrow> committed sh < off"
    and "\<And>off. om_mem (entries sh) off \<Longrightarrow> \<not> om_mem (ackedAhead sh) off"
    and "\<And>off. om_mem (entries sh) off \<Longrightarrow> \<not> om_mem (corrupt sh) off"
    and "\<And>off. om_mem (ackedAhead sh) off \<Longrightarrow> \<not> om_mem (corrupt sh) off"
    and "\<And>off. committed sh < off \<Longrightarrow> off < nextFree sh \<Longrightarrow> resolvedOrReservedLocked sh off"
    and "\<And>off rsv. om_get (entries sh) off = Some rsv \<Longrightarrow> slot off rsv \<in> set (expiry sh)"
  shows "shard_core sh"
  using assms by (auto simp: shard_core_def)

lemma shard_core_above:
  assumes "shard_core sh"
  shows "om_mem (entries sh) off \<Longrightarrow> committed sh < off"
    and "om_mem (ackedAhead sh) off \<Longrightarrow> committed sh < off"
    and "om_mem (corrupt sh) off \<Longrightarrow> committed sh < off"
  using shard_coreD(5) [OF assms] by (auto simp: resolvedOrReservedLocked_def)

lemma shard_inv_core: "shard_inv sh \<Longrightarrow> shard_core sh"
  by (simp add: shard_inv_def)

lemma shard_core_expiry:
  assumes "shard_core sh" and "heap_ok h"
    and "\<And>off rsv. om_get (entries sh) off = Some rsv \<Longrightarrow> slot off rsv \<in> set h"
  shows "shard_core (sh\<lparr>expiry := h\<rparr>)"
  using assms by (simp add: shard_core_def resolvedOrReservedLocked_def)

lemma shard_inv_new: "shard_inv (newPartitionShard src c caps)"
  by (simp add: shard_inv_def shard_core_def newPartitionShard_def resolvedOrReservedLocked_def
      heap_ok_def heap_from_def)

subsection \<open>Nonces\<close>

lemma uint_half: "uint (drop_bit (Suc 0) w) = uint (w :: 64 word) div 2"
  by (simp add: drop_bit_eq_div uint_div)

lemma uint_half_pos: "0 < uint (w :: 64 word) div 2 \<longleftrightarrow> 2 \<le> uint w"
  by linarith

lemma nextNonce_positive:
  assumes "nextNonce r = Some (n, r')"
  shows "0 < n \<and> n < 2 ^ 63"
proof -
  have bound: "uint (drop_bit 1 w) < 2 ^ 63" for w :: "64 word"
    using uint_lt2p [of w] by (simp add: uint_half)
  have "0 < fst p \<and> fst p < 2 ^ 63" if "nextNonce r = Some p" for r p
  proof (rule nextNonce.raw_induct [where P = "\<lambda>r p. 0 < fst p \<and> fst p < 2 ^ 63", OF _ that])
    fix f r p
    assume IH: "\<And>r p. f r = Some p \<Longrightarrow> 0 < fst p \<and> fst p < 2 ^ 63"
      and eq: "(let n = uint (drop_bit 1 (draws r (drawn r))); r' = r\<lparr>drawn := Suc (drawn r)\<rparr>
                in if n > 0 then Some (n, r') else f r') = Some p"
    show "0 < fst p \<and> fst p < 2 ^ 63"
      using eq IH bound [of "draws r (drawn r)"] by (auto simp: Let_def split: if_splits)
  qed
  with assms show ?thesis by fastforce
qed

lemma nextNonce_returns:
  assumes "drawn r \<le> k" and "2 \<le> uint (draws r k)"
  shows "\<exists>n r'. nextNonce r = Some (n, r')"
  using assms
proof (induction "k - drawn r" arbitrary: r)
  case 0
  then have "k = drawn r" by simp
  with 0 show ?case by (subst nextNonce.simps) (simp add: Let_def uint_half uint_half_pos)
next
  case (Suc d)
  show ?case
  proof (cases "2 \<le> uint (draws r (drawn r))")
    case True
    then show ?thesis by (subst nextNonce.simps) (simp add: Let_def uint_half uint_half_pos)
  next
    case False
    have "\<exists>n r'. nextNonce (r\<lparr>drawn := Suc (drawn r)\<rparr>) = Some (n, r')"
      by (rule Suc.hyps(1)) (use Suc.hyps(2) Suc.prems in auto)
    with False show ?thesis
      by (subst nextNonce.simps) (simp add: Let_def uint_half uint_half_pos)
  qed
qed

subsection \<open>The purge\<close>

definition live_at :: "int \<Rightarrow> (int, reservation) omap \<Rightarrow> (int, reservation) omap" where
  "live_at now m = filter (\<lambda>p. now < rExpires (snd p)) m"

lemma get_live_at:
  "om_wf m \<Longrightarrow> om_get (live_at now m) off =
    (case om_get m off of Some rsv \<Rightarrow> if now < rExpires rsv then Some rsv else None | None \<Rightarrow> None)"
proof (induction m)
  case (Cons p m)
  obtain a b where p: "p = (a, b)" by (cases p)
  from Cons show ?case
    by (auto simp: p live_at_def om_wf_Cons om_mem_def split: option.splits)
qed (simp add: live_at_def)

lemma om_wf_live_at [simp]: "om_wf m \<Longrightarrow> om_wf (live_at now m)"
  by (induction m) (auto simp: live_at_def om_wf_def om_keys_def)

lemma live_at_all: "(\<And>off rsv. om_get m off = Some rsv \<Longrightarrow> now < rExpires rsv) \<Longrightarrow> om_wf m \<Longrightarrow> live_at now m = m"
  unfolding live_at_def by (intro filter_True) (auto simp: om_wf_get)

lemma live_at_del:
  assumes "om_wf m" and "om_get m off = Some rsv" and "rExpires rsv \<le> now"
  shows "live_at now (om_del off m) = live_at now m"
  by (rule om_ext) (use assms in \<open>auto simp: get_live_at split: option.splits\<close>)

text \<open>One turn of the purge loop: a live slot frees its offset, a stale one is dropped.\<close>

lemma shard_core_purge_live:
  assumes core: "shard_core sh" and ne: "expiry sh \<noteq> []"
    and e: "e = fst (heap_pop (expiry sh))" and live: "live_slot sh e"
  shows "shard_core (freedLocked (eOffset e)
           (sh\<lparr>expiry := snd (heap_pop (expiry sh)), entries := om_del (eOffset e) (entries sh)\<rparr>))"
proof -
  note D = shard_coreD [OF core]
  have keep: "x \<in> set (snd (heap_pop (expiry sh)))" if "x \<in> set (expiry sh)" "eOffset x \<noteq> eOffset e" for x
    using eh.pop_keeps [of "expiry sh" x] that D(4) ne e by auto
  have "committed sh < eOffset e"
    using live shard_core_above(1) [OF core] by (auto simp: live_slot_def om_mem_def split: option.splits)
  with D keep eh.pop_ok [of "expiry sh"] ne show ?thesis
    by (auto simp: shard_core_def freedLocked_def resolvedOrReservedLocked_def)
qed

lemma shard_core_purge_stale:
  assumes core: "shard_core sh" and ne: "expiry sh \<noteq> []"
    and e: "e = fst (heap_pop (expiry sh))" and stale: "\<not> live_slot sh e"
  shows "shard_core (sh\<lparr>expiry := snd (heap_pop (expiry sh))\<rparr>)"
proof -
  note D = shard_coreD [OF core]
  have "slot off rsv \<in> set (snd (heap_pop (expiry sh)))" if "om_get (entries sh) off = Some rsv" for off rsv
  proof -
    have "slot off rsv \<noteq> e" using stale that by (auto simp: live_slot_def)
    with D(10) [OF that] eh.pop_keeps [of "expiry sh" "slot off rsv"] D(4) ne e show ?thesis by auto
  qed
  then show ?thesis
    using eh.pop_ok [of "expiry sh"] D(4) ne by (intro shard_core_expiry [OF core]) auto
qed

definition same_but_leases :: "partitionShard \<Rightarrow> partitionShard \<Rightarrow> bool" where
  "same_but_leases sh sh' \<longleftrightarrow>
     committed sh' = committed sh \<and> ackedAhead sh' = ackedAhead sh \<and> corrupt sh' = corrupt sh \<and>
     aheadVersion sh' = aheadVersion sh \<and> rng sh' = rng sh \<and>
     maxInFlight sh' = maxInFlight sh \<and> maxAckedAhead sh' = maxAckedAhead sh"

lemma live_slot_expiry [simp]: "live_slot (sh\<lparr>expiry := h\<rparr>) e = live_slot sh e"
  by (simp add: live_slot_def)

lemma live_slotD:
  "live_slot sh e \<Longrightarrow> \<exists>rsv. om_get (entries sh) (eOffset e) = Some rsv \<and> rExpires rsv = eExpires e"
  by (auto simp: live_slot_def split: option.splits)

lemma purge_loop_spec:
  assumes "shard_core sh" and "committed sh < nextFree sh" and "purge_loop now sh r = (sh', r')"
  shows "shard_core sh' \<and> committed sh' < nextFree sh' \<and> same_but_leases sh sh' \<and>
    entries sh' = live_at now (entries sh) \<and> r' + length (entries sh') = r + length (entries sh)"
  using assms
proof (induction now sh r rule: purge_loop.induct)
  case (1 now sh r)
  show ?case
  proof (cases "expiry sh \<noteq> [] \<and> eExpires (hd (expiry sh)) \<le> now")
    case False
    note D = shard_coreD [OF "1.prems"(1)]
    have "now < rExpires rsv" if "om_get (entries sh) off = Some rsv" for off rsv
      using D(10) [OF that] eh.none_due [of "expiry sh" now "slot off rsv"] D(4) False by fastforce
    then have "live_at now (entries sh) = entries sh"
      using D(1) by (intro live_at_all)
    moreover have "purge_loop now sh r = (sh, r)"
      by (simp only: purge_loop.simps [of now sh r] False if_False)
    ultimately show ?thesis
      using "1.prems" by (simp add: same_but_leases_def)
  next
    case True
    define e where "e = fst (heap_pop (expiry sh))"
    define sh1 where "sh1 = sh\<lparr>expiry := snd (heap_pop (expiry sh))\<rparr>"
    define sh2 where "sh2 = freedLocked (eOffset e) (sh1\<lparr>entries := om_del (eOffset e) (entries sh1)\<rparr>)"
    note D = shard_coreD [OF "1.prems"(1)]
    have due: "eExpires e \<le> now"
      using True eh.pop_top [of "expiry sh"] D(4) by (simp add: e_def)
    show ?thesis
    proof (cases "live_slot sh1 e")
      case live: True
      then obtain rsv where rsv: "om_get (entries sh) (eOffset e) = Some rsv" "rExpires rsv = eExpires e"
        using live_slotD [of sh e] by (auto simp: sh1_def)
      have core: "shard_core sh2"
        using shard_core_purge_live [OF "1.prems"(1) _ e_def] True live by (simp add: sh1_def sh2_def)
      have hint: "committed sh2 < nextFree sh2"
        using "1.prems"(2) shard_core_above(1) [OF "1.prems"(1)] rsv(1)
        by (auto simp: sh2_def sh1_def freedLocked_def om_mem_def)
      have step: "purge_loop now sh r = purge_loop now sh2 (Suc r)"
        using True live by (simp add: purge_loop.simps [of now sh r] e_def [symmetric] sh1_def [symmetric]
            sh2_def [symmetric] Let_def)
      have IH: "shard_core sh' \<and> committed sh' < nextFree sh' \<and> same_but_leases sh2 sh' \<and>
          entries sh' = live_at now (entries sh2) \<and> r' + length (entries sh') = Suc r + length (entries sh2)"
        by (rule "1.IH"(1) [OF True e_def sh1_def live, folded sh2_def]) (use core hint "1.prems"(3) step in simp_all)
      have e2: "entries sh2 = om_del (eOffset e) (entries sh)"
        by (simp add: sh2_def sh1_def freedLocked_def)
      have "Suc (length (entries sh2)) = length (entries sh)"
        using length_om_del [OF D(1), of "eOffset e"] rsv(1) om_mem_pos [of "entries sh" "eOffset e"] e2
        by (simp add: om_mem_def)
      moreover have "live_at now (entries sh2) = live_at now (entries sh)"
        using live_at_del [OF D(1) rsv(1)] due rsv(2) e2 by simp
      moreover have "same_but_leases sh sh2"
        by (simp add: same_but_leases_def sh2_def sh1_def freedLocked_def)
      ultimately show ?thesis using IH by (auto simp: same_but_leases_def)
    next
      case stale: False
      have core: "shard_core sh1"
        using shard_core_purge_stale [OF "1.prems"(1) _ e_def] True stale by (simp add: sh1_def)
      have step: "purge_loop now sh r = purge_loop now sh1 r"
        using True stale by (simp add: purge_loop.simps [of now sh r] e_def [symmetric] sh1_def [symmetric] Let_def)
      have "shard_core sh' \<and> committed sh' < nextFree sh' \<and> same_but_leases sh1 sh' \<and>
          entries sh' = live_at now (entries sh1) \<and> r' + length (entries sh') = r + length (entries sh1)"
        by (rule "1.IH"(2) [OF True e_def sh1_def stale]) (use core "1.prems"(2,3) step in \<open>simp_all add: sh1_def\<close>)
      then show ?thesis by (auto simp: sh1_def same_but_leases_def)
    qed
  qed
qed

lemma compact_spec:
  assumes "shard_core sh"
  shows "shard_core (compactExpiryLocked sh)"
    and "same_but_leases sh (compactExpiryLocked sh)"
    and "entries (compactExpiryLocked sh) = entries sh" and "nextFree (compactExpiryLocked sh) = nextFree sh"
    and "length (expiry (compactExpiryLocked sh)) \<le> 2 * length (entries sh) + heapCompactSlack"
proof -
  let ?es = "map (\<lambda>(off, rsv). \<lparr>eOffset = off, eExpires = rExpires rsv, eNonce = rNonce rsv\<rparr>) (entries sh)"
  note D = shard_coreD [OF assms]
  have set: "set (heap_init ?es) = set ?es" and len: "length (heap_init ?es) = length (entries sh)"
    using mset_eq_setD [OF heap_init_correct(2) [of ?es]] mset_eq_length [OF heap_init_correct(2) [of ?es]]
    by simp_all
  have "slot off rsv \<in> set (heap_init ?es)" if "om_get (entries sh) off = Some rsv" for off rsv
    unfolding set using map_of_SomeD [OF that] by (auto simp: slot_def intro!: image_eqI)
  then have "shard_core (sh\<lparr>expiry := heap_init ?es\<rparr>)"
    by (rule shard_core_expiry [OF assms heap_init_correct(1)])
  with assms show "shard_core (compactExpiryLocked sh)"
    by (simp add: compactExpiryLocked_def)
  show "length (expiry (compactExpiryLocked sh)) \<le> 2 * length (entries sh) + heapCompactSlack"
    using len by (simp add: compactExpiryLocked_def)
qed (simp_all add: compactExpiryLocked_def same_but_leases_def)

lemma purge_spec:
  assumes "shard_inv sh" and "purgeExpiredLocked now sh = (sh', r)"
  shows "shard_inv sh'" and "same_but_leases sh sh'" and "entries sh' = live_at now (entries sh)"
    and "r + length (entries sh') = length (entries sh)"
    and "length (expiry sh') \<le> 2 * length (entries sh') + heapCompactSlack"
proof -
  obtain sh1 where sh1: "purge_loop now sh 0 = (sh1, r)" and sh': "sh' = compactExpiryLocked sh1"
    using assms(2) by (auto simp: purgeExpiredLocked_def split: prod.splits)
  have P: "shard_core sh1 \<and> committed sh1 < nextFree sh1 \<and> same_but_leases sh sh1 \<and>
    entries sh1 = live_at now (entries sh) \<and> r + length (entries sh1) = 0 + length (entries sh)"
    by (rule purge_loop_spec [OF _ _ sh1]) (use assms(1) in \<open>simp_all add: shard_inv_def\<close>)
  then have C: "shard_core sh'" "same_but_leases sh1 sh'" "entries sh' = entries sh1" "nextFree sh' = nextFree sh1"
    "length (expiry sh') \<le> 2 * length (entries sh1) + heapCompactSlack"
    using compact_spec [of sh1] by (auto simp: sh')
  show "shard_inv sh'" "same_but_leases sh sh'" "entries sh' = live_at now (entries sh)"
    "r + length (entries sh') = length (entries sh)"
    "length (expiry sh') \<le> 2 * length (entries sh') + heapCompactSlack"
    using P C assms(1) by (auto simp: shard_inv_def same_but_leases_def)
qed

subsection \<open>The frontier advance\<close>

lemma om_filter_del: "\<not> P k \<Longrightarrow> om_filter P (om_del k m) = om_filter P m"
  by (auto simp: om_filter_def om_del_def intro!: filter_cong)

lemma om_filter_id: "(\<And>k. om_mem m k \<Longrightarrow> P k) \<Longrightarrow> om_filter P m = m"
  unfolding om_filter_def mem_om_keys om_keys_def by (intro filter_True) auto

lemma length_om_del_mem: "om_wf m \<Longrightarrow> om_mem m k \<Longrightarrow> Suc (length (om_del k m)) = length m"
  using length_om_del [of m k] om_mem_pos [of m k] by simp

definition advance_post :: "partitionShard \<Rightarrow> partitionShard \<Rightarrow> bool" where
  "advance_post sh sh' \<longleftrightarrow>
     committed sh \<le> committed sh' \<and>
     (\<forall>off. committed sh < off \<longrightarrow> off \<le> committed sh' \<longrightarrow> om_mem (ackedAhead sh) off \<or> om_mem (corrupt sh) off) \<and>
     ackedAhead sh' = om_filter (\<lambda>off. committed sh' < off) (ackedAhead sh) \<and>
     corrupt sh' = om_filter (\<lambda>off. committed sh' < off) (corrupt sh) \<and>
     entries sh' = entries sh \<and> expiry sh' = expiry sh \<and> rng sh' = rng sh \<and>
     maxInFlight sh' = maxInFlight sh \<and> maxAckedAhead sh' = maxAckedAhead sh \<and>
     aheadVersion sh' + of_nat (length (ackedAhead sh')) = aheadVersion sh + of_nat (length (ackedAhead sh)) \<and>
     \<not> om_mem (ackedAhead sh') (committed sh' + 1) \<and> \<not> om_mem (corrupt sh') (committed sh' + 1)"

lemma advance_postD:
  assumes "advance_post sh sh'"
  shows "committed sh \<le> committed sh'"
    and "\<And>off. committed sh < off \<Longrightarrow> off \<le> committed sh' \<Longrightarrow> om_mem (ackedAhead sh) off \<or> om_mem (corrupt sh) off"
    and "ackedAhead sh' = om_filter (\<lambda>off. committed sh' < off) (ackedAhead sh)"
    and "corrupt sh' = om_filter (\<lambda>off. committed sh' < off) (corrupt sh)"
    and "entries sh' = entries sh" "expiry sh' = expiry sh" "rng sh' = rng sh"
    and "maxInFlight sh' = maxInFlight sh" "maxAckedAhead sh' = maxAckedAhead sh"
    and "aheadVersion sh' + of_nat (length (ackedAhead sh')) = aheadVersion sh + of_nat (length (ackedAhead sh))"
    and "\<not> om_mem (ackedAhead sh') (committed sh' + 1)" "\<not> om_mem (corrupt sh') (committed sh' + 1)"
  using assms unfolding advance_post_def by blast+

definition pass_one :: "64 word \<Rightarrow> partitionShard \<Rightarrow> partitionShard" where
  "pass_one v sh = sh\<lparr>ackedAhead := om_del (committed sh + 1) (ackedAhead sh), aheadVersion := v,
                      corrupt := om_del (committed sh + 1) (corrupt sh), committed := committed sh + 1\<rparr>"

lemma shard_core_pass:
  assumes core: "shard_core sh" and n: "om_mem (ackedAhead sh) (committed sh + 1) \<or> om_mem (corrupt sh) (committed sh + 1)"
  shows "shard_core (pass_one v sh)"
proof -
  note D = shard_coreD [OF core]
  have gt: "committed sh + 1 < off" if "resolvedOrReservedLocked sh off" "off \<noteq> committed sh + 1" for off
    using D(5) [OF that(1)] that(2) by linarith
  have ne: "off \<noteq> committed sh + 1" if "om_mem (entries sh) off" for off
    using n D(6,7) that by auto
  show ?thesis
    using D(1,2,3,4,6,7,8,9,10) gt ne
    by (auto simp: shard_core_def resolvedOrReservedLocked_def pass_one_def)
qed

lemma om_del_absent: "\<not> om_mem m k \<Longrightarrow> om_del k m = m"
  unfolding om_del_def by (rule om_filter_id) auto

lemma nextFree_pass_one: "nextFree (pass_one v sh) = nextFree sh"
  by (simp add: pass_one_def)

lemma advance_post_pass:
  assumes n: "om_mem (ackedAhead sh) (committed sh + 1) \<or> om_mem (corrupt sh) (committed sh + 1)"
    and post: "advance_post (pass_one v sh) t"
    and v: "v + of_nat (length (om_del (committed sh + 1) (ackedAhead sh))) = aheadVersion sh + of_nat (length (ackedAhead sh))"
  shows "advance_post sh t"
proof -
  have c: "committed sh + 1 \<le> committed t"
    using post by (simp add: advance_post_def pass_one_def)
  then have f: "om_filter (\<lambda>off. committed t < off) (om_del (committed sh + 1) m) = om_filter (\<lambda>off. committed t < off) m" for m :: "int oset"
    by (intro om_filter_del) simp
  have run: "om_mem (ackedAhead sh) off \<or> om_mem (corrupt sh) off" if "committed sh < off" "off \<le> committed t" for off
  proof (cases "off = committed sh + 1")
    case False
    with that(1) have "committed sh + 1 < off" by linarith
    with that(2) post show ?thesis by (auto simp: advance_post_def pass_one_def)
  qed (use n in simp)
  show ?thesis
    using post v c run f unfolding advance_post_def pass_one_def by auto
qed

lemma advance_loop_ahead:
  assumes "shard_core sh" and "om_mem (ackedAhead sh) (committed sh + 1)"
  shows "advance_loop sh = advance_loop (pass_one (aheadVersion sh + 1) sh)"
    and "sh\<lparr>ackedAhead := om_del (committed sh + 1) (ackedAhead sh), aheadVersion := aheadVersion sh + 1,
            committed := committed sh + 1\<rparr> = pass_one (aheadVersion sh + 1) sh"
  using assms shard_coreD(8) [OF assms]
  by (simp_all add: advance_loop.simps [of sh] Let_def pass_one_def om_del_absent)

lemma advance_loop_corrupt:
  assumes "\<not> om_mem (ackedAhead sh) (committed sh + 1)" and "om_mem (corrupt sh) (committed sh + 1)"
  shows "advance_loop sh = advance_loop (pass_one (aheadVersion sh) sh)"
    and "sh\<lparr>corrupt := om_del (committed sh + 1) (corrupt sh), committed := committed sh + 1\<rparr> = pass_one (aheadVersion sh) sh"
  using assms by (simp_all add: advance_loop.simps [of sh] Let_def pass_one_def om_del_absent)

lemma advance_loop_spec:
  "shard_core sh \<Longrightarrow>
   shard_core (advance_loop sh) \<and> advance_post sh (advance_loop sh) \<and> nextFree (advance_loop sh) = nextFree sh"
proof (induction sh rule: advance_loop.induct)
  case (1 sh)
  let ?n = "committed sh + 1"
  note D = shard_coreD [OF "1.prems"]
  consider (ahead) "om_mem (ackedAhead sh) ?n"
    | (corrupt) "\<not> om_mem (ackedAhead sh) ?n" "om_mem (corrupt sh) ?n"
    | (stop) "\<not> om_mem (ackedAhead sh) ?n" "\<not> om_mem (corrupt sh) ?n" by blast
  then show ?case
  proof cases
    case ahead
    let ?s = "pass_one (aheadVersion sh + 1) sh"
    note step = advance_loop_ahead [OF "1.prems" ahead]
    have "shard_core ?s"
      using ahead by (intro shard_core_pass [OF "1.prems"]) simp
    with "1.IH"(1) [OF refl ahead] step(2)
    have IH: "shard_core (advance_loop ?s) \<and> advance_post ?s (advance_loop ?s) \<and> nextFree (advance_loop ?s) = nextFree ?s"
      by simp
    have v: "aheadVersion sh + 1 + of_nat (length (om_del ?n (ackedAhead sh))) = aheadVersion sh + of_nat (length (ackedAhead sh))"
      by (simp flip: length_om_del_mem [OF D(2) ahead])
    have "advance_post sh (advance_loop ?s)"
      by (rule advance_post_pass [OF disjI1 [OF ahead] _ v]) (use IH in blast)
    with IH show ?thesis unfolding step(1) nextFree_pass_one by blast
  next
    case corrupt
    let ?s = "pass_one (aheadVersion sh) sh"
    note step = advance_loop_corrupt [OF corrupt]
    have "shard_core ?s"
      using corrupt by (intro shard_core_pass [OF "1.prems"]) simp
    with "1.IH"(2) [OF refl corrupt] step(2)
    have IH: "shard_core (advance_loop ?s) \<and> advance_post ?s (advance_loop ?s) \<and> nextFree (advance_loop ?s) = nextFree ?s"
      by simp
    have "advance_post sh (advance_loop ?s)"
      by (rule advance_post_pass [OF disjI2 [OF corrupt(2)], where v = "aheadVersion sh"])
        (use IH in blast, simp add: om_del_absent [OF corrupt(1)])
    with IH show ?thesis unfolding step(1) nextFree_pass_one by blast
  next
    case stop
    then have eq: "advance_loop sh = sh"
      by (simp add: advance_loop.simps [of sh] Let_def)
    have "om_filter (\<lambda>off. committed sh < off) (ackedAhead sh) = ackedAhead sh"
      "om_filter (\<lambda>off. committed sh < off) (corrupt sh) = corrupt sh"
      using shard_core_above [OF "1.prems"] by (auto intro!: om_filter_id)
    with eq stop "1.prems" show ?thesis by (simp add: advance_post_def)
  qed
qed

lemma advance_post_nextFree [simp]: "advance_post sh (t\<lparr>nextFree := x\<rparr>) = advance_post sh t"
  by (simp add: advance_post_def)

lemma advanceCommittedLocked_spec:
  assumes "shard_core sh" and "advanceCommittedLocked sh = (adv, sh')"
  shows "shard_inv sh'" and "advance_post sh sh'" and "adv = committed sh'"
    and "nextFree sh' = max (nextFree sh) (committed sh' + 1)"
proof -
  define s1 where "s1 = advance_loop sh"
  have S: "shard_core s1" "advance_post sh s1" "nextFree s1 = nextFree sh"
    using advance_loop_spec [OF assms(1)] by (auto simp: s1_def)
  have sh': "sh' = s1\<lparr>nextFree := max (nextFree s1) (committed s1 + 1)\<rparr>" and adv: "adv = committed sh'"
    using assms(2) by (auto simp: advanceCommittedLocked_def Let_def s1_def [symmetric] max_def split: if_splits)
  show "adv = committed sh'" by (rule adv)
  show "advance_post sh sh'" using S(2) by (simp add: sh')
  show "nextFree sh' = max (nextFree sh) (committed sh' + 1)" using S(3) by (simp add: sh')
  have "shard_core sh'"
    using S(1) by (auto simp: sh' shard_core_def resolvedOrReservedLocked_def less_max_iff_disj)
  with advance_postD(11,12) [OF S(2)] show "shard_inv sh'" by (simp add: shard_inv_def sh')
qed

end
