(* ===== verification/Shard_Spec.thy ===== *)
theory Shard_Spec
  imports Shard_Inv
begin

text \<open>
  The abstract queue a partition shard implements, and the refinement. The abstract state knows
  only which offsets are resolved (never delivered again) and which are leased to whom until
  when; the frontier, the acked-ahead and corrupt sets, the scan hint and the heap are the
  shard's representation of it. Every operation of the shard keeps the invariant and simulates its
  abstract counterpart.
\<close>

subsection \<open>The abstract queue\<close>

record queue =
  resolved :: "int set"
  leases :: "int \<Rightarrow> reservation option"

definition q_expire :: "int \<Rightarrow> queue \<Rightarrow> queue" where
  "q_expire now q = q\<lparr>leases := (\<lambda>off. case leases q off of
     Some r \<Rightarrow> if now < rExpires r then Some r else None | None \<Rightarrow> None)\<rparr>"

definition q_holds :: "queue \<Rightarrow> int \<Rightarrow> int \<Rightarrow> bool" where
  "q_holds q off nonce \<longleftrightarrow> (\<exists>r. leases q off = Some r \<and> rNonce r = nonce)"

definition q_free :: "queue \<Rightarrow> int \<Rightarrow> bool" where
  "q_free q off \<longleftrightarrow> off \<notin> resolved q \<and> leases q off = None"

definition q_resolve :: "int \<Rightarrow> int \<Rightarrow> int \<Rightarrow> queue \<Rightarrow> unit result \<times> queue" where
  "q_resolve now off nonce q =
     (let q1 = q_expire now q
      in if q_holds q1 off nonce
         then (Inr (), q1\<lparr>resolved := insert off (resolved q1), leases := (leases q1)(off := None)\<rparr>)
         else (Inl ErrHandleStale, q1))"

definition q_lease :: "int \<Rightarrow> int \<Rightarrow> int \<Rightarrow> queue \<Rightarrow> queue" where
  "q_lease off exp nonce q = q\<lparr>leases := (leases q)(off \<mapsto> \<lparr>rExpires = exp, rNonce = nonce\<rparr>)\<rparr>"

definition q_extend :: "int \<Rightarrow> int \<Rightarrow> int \<Rightarrow> int \<Rightarrow> queue \<Rightarrow> int result \<times> queue" where
  "q_extend now off nonce vis q =
     (let q1 = q_expire now q; exp = now + durationMillis vis
      in if q_holds q1 off nonce then (Inr exp, q_lease off exp nonce q1) else (Inl ErrHandleStale, q1))"

definition q_release :: "int \<Rightarrow> int \<Rightarrow> int \<Rightarrow> queue \<Rightarrow> unit result \<times> queue" where
  "q_release now off nonce q =
     (let q1 = q_expire now q
      in if q_holds q1 off nonce then (Inr (), q1\<lparr>leases := (leases q1)(off := None)\<rparr>)
         else (Inl ErrHandleStale, q1))"

definition q_skip_below :: "int \<Rightarrow> queue \<Rightarrow> queue" where
  "q_skip_below oldest q = q\<lparr>resolved := resolved q \<union> {..< oldest},
     leases := (\<lambda>off. if off < oldest then None else leases q off)\<rparr>"

definition q_of :: "partitionShard \<Rightarrow> queue" where
  "q_of sh = \<lparr>resolved = {off. off \<le> committed sh \<or> om_mem (ackedAhead sh) off \<or> om_mem (corrupt sh) off},
              leases = map_of (entries sh)\<rparr>"

lemma q_of_sel [simp]:
  "off \<in> resolved (q_of sh) \<longleftrightarrow> off \<le> committed sh \<or> om_mem (ackedAhead sh) off \<or> om_mem (corrupt sh) off"
  "leases (q_of sh) = map_of (entries sh)"
  by (simp_all add: q_of_def)

lemma queue_eqI:
  "(\<And>off. off \<in> resolved q \<longleftrightarrow> off \<in> resolved q') \<Longrightarrow> leases q = leases q' \<Longrightarrow> q = (q' :: queue)"
  by (cases q; cases q') (auto simp: set_eq_iff)

lemma q_free_of:
  "q_free (q_of sh) off \<longleftrightarrow> committed sh < off \<and> \<not> resolvedOrReservedLocked sh off"
  by (auto simp: q_free_def resolvedOrReservedLocked_def om_mem_def)

lemma handle_live_q: "handle_live sh off nonce = q_holds (q_of sh) off nonce"
  by (auto simp: handle_live_def q_holds_def split: option.splits)

lemma handle_liveD: "handle_live sh off nonce \<Longrightarrow> om_mem (entries sh) off"
  by (auto simp: handle_live_def om_mem_def split: option.splits)

subsection \<open>Purge and advance\<close>

lemma purge_refines:
  assumes "shard_inv sh" and "purgeExpiredLocked now sh = (sh', r)"
  shows "q_of sh' = q_expire now (q_of sh)"
proof -
  note P = purge_spec [OF assms]
  have "om_wf (entries sh)" using assms(1) by (simp add: shard_inv_def shard_core_def)
  with P(2,3) show ?thesis
    by (intro queue_eqI) (auto simp: q_expire_def same_but_leases_def get_live_at fun_eq_iff split: option.splits)
qed

lemma advance_refines:
  assumes "advance_post sh sh'"
  shows "q_of sh' = q_of sh"
proof (rule queue_eqI)
  note A = advance_postD [OF assms]
  show "leases (q_of sh') = leases (q_of sh)" using A(5) by simp
  show "off \<in> resolved (q_of sh') \<longleftrightarrow> off \<in> resolved (q_of sh)" for off
    using A(1) A(2) [of off] by (auto simp: A(3) A(4))
qed

subsection \<open>Resolving\<close>

lemma shard_core_commit:
  assumes inv: "shard_inv sh" and mem: "om_mem (entries sh) (committed sh + 1)"
  shows "shard_core (sh\<lparr>entries := om_del (committed sh + 1) (entries sh), committed := committed sh + 1\<rparr>)"
proof -
  have core: "shard_core sh" by (rule shard_inv_core [OF inv])
  note D = shard_coreD [OF core]
  have gt: "committed sh + 1 < off" if "resolvedOrReservedLocked sh off" "off \<noteq> committed sh + 1" for off
    using D(5) [OF that(1)] that(2) by linarith
  have "\<not> om_mem (ackedAhead sh) (committed sh + 1)" "\<not> om_mem (corrupt sh) (committed sh + 1)"
    using D(6,7) [OF mem] .
  then have ne: "off \<noteq> committed sh + 1" if "om_mem (ackedAhead sh) off \<or> om_mem (corrupt sh) off" for off
    using that by auto
  show ?thesis
    using D(1,2,3,4,6,7,8,9,10) gt ne by (auto simp: shard_core_def resolvedOrReservedLocked_def)
qed

lemma shard_inv_park:
  assumes inv: "shard_inv sh" and mem: "om_mem (entries sh) off" and ne: "off \<noteq> committed sh + 1"
  shows "shard_inv ((park sel off sh)\<lparr>entries := om_del off (entries sh), aheadVersion := v\<rparr>)"
proof -
  have core: "shard_core sh" by (rule shard_inv_core [OF inv])
  note D = shard_coreD [OF core]
  define s where "s = (park sel off sh)\<lparr>entries := om_del off (entries sh), aheadVersion := v\<rparr>"
  have sets: "om_mem (entries s) o' \<longleftrightarrow> om_mem (entries sh) o' \<and> o' \<noteq> off"
    "om_mem (ackedAhead s) o' \<longleftrightarrow> om_mem (ackedAhead sh) o' \<or> (sel = AckedAheadSet \<and> o' = off)"
    "om_mem (corrupt s) o' \<longleftrightarrow> om_mem (corrupt sh) o' \<or> (sel = CorruptSet \<and> o' = off)" for o'
    by (cases sel; auto simp: s_def park_def)+
  have ror: "resolvedOrReservedLocked s o' = resolvedOrReservedLocked sh o'" for o'
    using mem by (cases sel) (auto simp: resolvedOrReservedLocked_def sets)
  have rest: "committed s = committed sh" "nextFree s = nextFree sh" "expiry s = expiry sh"
    "entries s = om_del off (entries sh)"
    by (cases sel; simp add: s_def park_def)+
  have wf: "om_wf (ackedAhead s)" "om_wf (corrupt s)"
    using D(2,3) by (cases sel; simp add: s_def park_def)+
  have "shard_core s"
    unfolding shard_core_def ror
  proof (intro conjI allI impI)
    show "om_wf (entries s)" "heap_ok (expiry s)" using D(1,4) by (simp_all add: rest)
    show "om_wf (ackedAhead s)" "om_wf (corrupt s)" by (fact wf)+
    show "committed s < o'" if "resolvedOrReservedLocked sh o'" for o' using D(5) [OF that] by (simp add: rest)
    show "\<not> om_mem (ackedAhead s) o'" "\<not> om_mem (corrupt s) o'" if "om_mem (entries s) o'" for o'
      using that D(6,7) [of o'] by (simp_all add: sets)
    show "\<not> om_mem (corrupt s) o'" if "om_mem (ackedAhead s) o'" for o'
      using that D(8) [of o'] D(6,7) [OF mem] by (auto simp: sets)
    show "resolvedOrReservedLocked sh o'" if "committed s < o'" "o' < nextFree s" for o'
      using that D(9) by (simp add: rest)
    show "slot o' rsv \<in> set (expiry s)" if "om_get (entries s) o' = Some rsv" for o' rsv
      using that D(1,10) by (simp add: rest split: if_splits)
  qed
  then show ?thesis
    using inv ne by (simp add: s_def [symmetric] shard_inv_def sets) (simp add: rest)
qed

lemma resolve_refines:
  assumes inv: "shard_inv sh0" and eq: "resolveReservedLocked sel now off nonce sh0 = (res, sh', eff)"
  shows "shard_inv sh'" and "(res, q_of sh') = q_resolve now off nonce (q_of sh0)"
proof -
  obtain sh r where p: "purgeExpiredLocked now sh0 = (sh, r)" by fastforce
  note P = purge_spec [OF inv p] and Q = purge_refines [OF inv p]
  let ?q' = "(q_of sh)\<lparr>resolved := insert off (resolved (q_of sh)), leases := (leases (q_of sh))(off := None)\<rparr>"
  have abs: "q_resolve now off nonce (q_of sh0) =
      (if handle_live sh off nonce then (Inr (), ?q') else (Inl ErrHandleStale, q_of sh))"
    by (simp add: q_resolve_def Let_def handle_live_q Q)
  have out: "(res, sh') = (fst (resolveReservedLocked sel now off nonce sh0),
                           fst (snd (resolveReservedLocked sel now off nonce sh0)))"
    using eq by simp
  consider (stale) "\<not> handle_live sh off nonce"
    | (front) "handle_live sh off nonce" "off = committed sh + 1"
    | (ahead) "handle_live sh off nonce" "off \<noteq> committed sh + 1" by blast
  then have "shard_inv sh' \<and> (res, q_of sh') = q_resolve now off nonce (q_of sh0)"
  proof cases
    case stale
    then have "(res, sh') = (Inl ErrHandleStale, sh)"
      using out by (simp add: resolveReservedLocked_def p)
    with P(1) stale show ?thesis by (simp add: abs)
  next
    case front
    define s1 where "s1 = sh\<lparr>entries := om_del off (entries sh), committed := off\<rparr>"
    obtain adv s2 where adv: "advanceCommittedLocked s1 = (adv, s2)" by fastforce
    have "shard_core s1"
      using shard_core_commit [OF P(1)] handle_liveD [OF front(1)] front(2) by (simp add: s1_def)
    note A = advanceCommittedLocked_spec [OF this adv]
    have res: "res = Inr ()" "sh' = s2"
      using eq front adv [unfolded s1_def front(2)] by (simp_all add: resolveReservedLocked_def p Let_def)
    have "q_of s1 = ?q'"
      using front(2) by (intro queue_eqI) (auto simp: s1_def)
    with advance_refines [OF A(2)] A(1) front(1) show ?thesis by (simp add: abs res)
  next
    case ahead
    define v where "v = (if om_mem (ackedAhead (park sel off sh)) off then aheadVersion sh + 1 else aheadVersion sh)"
    define s3 where "s3 = (park sel off sh)\<lparr>entries := om_del off (entries sh), aheadVersion := v\<rparr>"
    have "(res, sh') = (Inr (), s3)"
      using out ahead by (cases sel) (simp_all add: resolveReservedLocked_def p Let_def park_def v_def s3_def)
    moreover have "q_of s3 = ?q'"
      by (rule queue_eqI; cases sel) (auto simp: s3_def park_def)
    moreover have "shard_inv s3"
      unfolding s3_def by (rule shard_inv_park [OF P(1) handle_liveD [OF ahead(1)] ahead(2)])
    ultimately show ?thesis using ahead(1) by (simp add: abs)
  qed
  then show "shard_inv sh'" and "(res, q_of sh') = q_resolve now off nonce (q_of sh0)" by simp_all
qed

subsection \<open>Extending, releasing, skipping\<close>

lemma set_heap_push: "heap_ok h \<Longrightarrow> set (heap_push x h) = insert x (set h)"
  using heap_push_correct(2) [of h x] by (metis set_mset_add_mset_insert set_mset_mset)

lemma shard_inv_lease:
  assumes inv: "shard_inv sh"
    and new: "committed sh < off" "\<not> om_mem (ackedAhead sh) off" "\<not> om_mem (corrupt sh) off"
    and s: "entries s = om_put off \<lparr>rExpires = exp, rNonce = nonce\<rparr> (entries sh)"
      "expiry s = heap_push \<lparr>eOffset = off, eExpires = exp, eNonce = nonce\<rparr> (expiry sh)"
      "committed s = committed sh" "ackedAhead s = ackedAhead sh" "corrupt s = corrupt sh"
    and nf: "committed sh < nextFree s"
      "\<And>o'. committed sh < o' \<Longrightarrow> o' < nextFree s \<Longrightarrow> resolvedOrReservedLocked sh o' \<or> o' = off"
  shows "shard_inv s"
proof -
  have core: "shard_core sh" by (rule shard_inv_core [OF inv])
  note D = shard_coreD [OF core]
  have ror: "resolvedOrReservedLocked s o' \<longleftrightarrow> resolvedOrReservedLocked sh o' \<or> o' = off" for o'
    by (auto simp: resolvedOrReservedLocked_def s)
  have "shard_core s"
  proof (rule shard_coreI)
    show "om_wf (entries s)" "om_wf (ackedAhead s)" "om_wf (corrupt s)" "heap_ok (expiry s)"
      using D(1-4) heap_push_correct(1) by (simp_all add: s)
    show "committed s < o'" if "resolvedOrReservedLocked s o'" for o'
      using that D(5) new(1) by (auto simp: ror s(3))
    show "\<not> om_mem (ackedAhead s) o'" "\<not> om_mem (corrupt s) o'" if "om_mem (entries s) o'" for o'
      using that D(6,7) [of o'] new by (auto simp: s)
    show "\<not> om_mem (corrupt s) o'" if "om_mem (ackedAhead s) o'" for o'
      using that D(8) [of o'] by (simp add: s)
    show "resolvedOrReservedLocked s o'" if "committed s < o'" "o' < nextFree s" for o'
      using that nf(2) by (simp add: ror s(3))
    show "slot o' rsv \<in> set (expiry s)" if "om_get (entries s) o' = Some rsv" for o' rsv
      using that D(1,4,10) by (auto simp: s(1,2) set_heap_push slot_def split: if_splits)
  qed
  then show ?thesis using inv nf(1) by (simp add: shard_inv_def s)
qed

lemma extend_refines:
  assumes inv: "shard_inv sh0" and eq: "extendHandleLocked now off nonce vis sh0 = (res, sh', eff)"
  shows "shard_inv sh'" and "(res, q_of sh') = q_extend now off nonce vis (q_of sh0)"
proof -
  obtain sh r where p: "purgeExpiredLocked now sh0 = (sh, r)" by fastforce
  note P = purge_spec [OF inv p] and Q = purge_refines [OF inv p]
  show "shard_inv sh'"
  proof (cases "handle_live sh off nonce")
    case True
    note core = shard_inv_core [OF P(1)] and mem = handle_liveD [OF True]
    have "shard_inv (sh\<lparr>entries := om_put off \<lparr>rExpires = e, rNonce = nonce\<rparr> (entries sh),
            expiry := heap_push \<lparr>eOffset = off, eExpires = e, eNonce = nonce\<rparr> (expiry sh)\<rparr>)" for e
      by (rule shard_inv_lease [OF P(1) shard_core_above(1) [OF core mem] shard_coreD(6,7) [OF core mem]])
        (use P(1) shard_coreD(9) [OF core] in \<open>simp_all add: shard_inv_def\<close>)
    then show ?thesis using eq True by (auto simp: extendHandleLocked_def p Let_def)
  qed (use eq P(1) in \<open>simp add: extendHandleLocked_def p\<close>)
  have "q_of (sh\<lparr>entries := om_put off \<lparr>rExpires = e, rNonce = nonce\<rparr> (entries sh), expiry := h\<rparr>) =
        q_lease off e nonce (q_of sh)" for e h
    by (rule queue_eqI) (auto simp: q_lease_def)
  note L = this
  have "res = fst (extendHandleLocked now off nonce vis sh0)" "sh' = fst (snd (extendHandleLocked now off nonce vis sh0))"
    using eq by simp_all
  then show "(res, q_of sh') = q_extend now off nonce vis (q_of sh0)"
    by (cases "handle_live sh off nonce")
      (simp_all add: extendHandleLocked_def p Let_def q_extend_def handle_live_q [symmetric] L Q [symmetric])
qed

lemma shard_inv_free:
  assumes inv: "shard_inv sh" and mem: "om_mem (entries sh) off"
  shows "shard_inv (freedLocked off (sh\<lparr>entries := om_del off (entries sh)\<rparr>))"
proof -
  have core: "shard_core sh" by (rule shard_inv_core [OF inv])
  note D = shard_coreD [OF core]
  define s where "s = freedLocked off (sh\<lparr>entries := om_del off (entries sh)\<rparr>)"
  have s: "entries s = om_del off (entries sh)" "ackedAhead s = ackedAhead sh" "corrupt s = corrupt sh"
    "expiry s = expiry sh" "committed s = committed sh" "nextFree s = min off (nextFree sh)"
    by (auto simp: s_def freedLocked_def)
  have ror: "resolvedOrReservedLocked s o' \<longleftrightarrow> resolvedOrReservedLocked sh o' \<and> o' \<noteq> off" for o'
    using D(6,7) [OF mem] by (auto simp: resolvedOrReservedLocked_def s)
  have "shard_core s"
  proof (rule shard_coreI)
    show "resolvedOrReservedLocked s o'" if "committed s < o'" "o' < nextFree s" for o'
      using that D(9) by (simp add: ror s)
    show "\<not> om_mem (ackedAhead s) o'" "\<not> om_mem (corrupt s) o'" if "om_mem (entries s) o'" for o'
      using that D(6,7) [of o'] by (auto simp: s)
    show "om_wf (entries s)" "om_wf (ackedAhead s)" "om_wf (corrupt s)" "heap_ok (expiry s)"
      using D(1-4) by (simp_all add: s)
    show "committed s < o'" if "resolvedOrReservedLocked s o'" for o'
      using that D(5) by (simp add: ror s(5))
    show "\<not> om_mem (corrupt s) o'" if "om_mem (ackedAhead s) o'" for o'
      using that D(8) [of o'] by (simp add: s)
    show "slot o' rsv \<in> set (expiry s)" if "om_get (entries s) o' = Some rsv" for o' rsv
      using that D(1,10) by (simp add: s(1,4) split: if_splits)
  qed
  then show ?thesis
    using inv shard_core_above(1) [OF core mem] unfolding s_def [symmetric] by (simp add: shard_inv_def s)
qed

lemma release_refines:
  assumes inv: "shard_inv sh0" and eq: "releaseHandleLocked now off nonce sh0 = (res, sh', eff)"
  shows "shard_inv sh'" and "(res, q_of sh') = q_release now off nonce (q_of sh0)"
proof -
  obtain sh r where p: "purgeExpiredLocked now sh0 = (sh, r)" by fastforce
  note P = purge_spec [OF inv p] and Q = purge_refines [OF inv p]
  show "shard_inv sh'"
    using eq P(1) shard_inv_free [OF P(1) handle_liveD [of sh off nonce]]
    by (cases "handle_live sh off nonce") (simp_all add: releaseHandleLocked_def p Let_def)
  have "q_of (freedLocked off (sh\<lparr>entries := om_del off (entries sh)\<rparr>)) =
        (q_of sh)\<lparr>leases := (leases (q_of sh))(off := None)\<rparr>"
    by (rule queue_eqI) (auto simp: freedLocked_def)
  note L = this
  have "res = fst (releaseHandleLocked now off nonce sh0)" "sh' = fst (snd (releaseHandleLocked now off nonce sh0))"
    using eq by simp_all
  then show "(res, q_of sh') = q_release now off nonce (q_of sh0)"
    by (cases "handle_live sh off nonce")
      (simp_all add: releaseHandleLocked_def p Let_def q_release_def handle_live_q [symmetric] L Q [symmetric])
qed

lemma get_drop_below [simp]:
  "om_get (drop_below oldest m) off = (if off < oldest then None else om_get m off)"
  by (simp add: drop_below_def)

lemma mem_drop_below [simp]: "om_mem (drop_below oldest m) off \<longleftrightarrow> oldest \<le> off \<and> om_mem m off"
  by (auto simp: drop_below_def)

lemma om_wf_drop_below [simp]: "om_wf m \<Longrightarrow> om_wf (drop_below oldest m)"
  by (simp add: drop_below_def)

lemma shard_core_skip:
  assumes core: "shard_core sh" and lt: "committed sh < oldest"
  shows "shard_core (sh\<lparr>entries := drop_below oldest (entries sh), ackedAhead := drop_below oldest (ackedAhead sh),
           aheadVersion := v, corrupt := drop_below oldest (corrupt sh), committed := oldest - 1\<rparr>)"
    (is "shard_core ?s")
proof -
  note D = shard_coreD [OF core]
  have ror: "resolvedOrReservedLocked ?s o' \<longleftrightarrow> oldest \<le> o' \<and> resolvedOrReservedLocked sh o'" for o'
    by (auto simp: resolvedOrReservedLocked_def)
  show ?thesis
  proof (rule shard_coreI)
    show "om_wf (entries ?s)" "om_wf (ackedAhead ?s)" "om_wf (corrupt ?s)" "heap_ok (expiry ?s)"
      using D(1-4) by simp_all
    show "committed ?s < o'" if "resolvedOrReservedLocked ?s o'" for o'
      using that by (simp only: ror) simp
    show "\<not> om_mem (ackedAhead ?s) o'" "\<not> om_mem (corrupt ?s) o'" if "om_mem (entries ?s) o'" for o'
      using that D(6,7) [of o'] by simp_all
    show "\<not> om_mem (corrupt ?s) o'" if "om_mem (ackedAhead ?s) o'" for o'
      using that D(8) [of o'] by simp
    show "resolvedOrReservedLocked ?s o'" if "committed ?s < o'" "o' < nextFree ?s" for o'
      using that lt D(9) [of o'] unfolding ror by simp
    show "slot o' rsv \<in> set (expiry ?s)" if "om_get (entries ?s) o' = Some rsv" for o' rsv
      using that D(10) by (simp split: if_splits)
  qed
qed

lemma skip_refines:
  assumes inv: "shard_inv sh0" and lt: "off < oldest"
    and eq: "skipMissingBelowLocked now off nonce oldest sh0 = (res, sh', eff)"
  shows "shard_inv sh'"
    and "q_of sh' = (let q1 = q_expire now (q_of sh0)
           in if q_holds q1 off nonce then q_skip_below oldest q1 else q1)"
    and "res = (if q_holds (q_expire now (q_of sh0)) off nonce
           then Inr (committed sh' - committed sh0) else Inl ErrHandleStale)"
proof -
  obtain sh r where p: "purgeExpiredLocked now sh0 = (sh, r)" by fastforce
  note P = purge_spec [OF inv p] and Q = purge_refines [OF inv p]
  have c0: "committed sh = committed sh0" using P(2) by (simp add: same_but_leases_def)
  have all: "shard_inv sh' \<and>
      q_of sh' = (if handle_live sh off nonce then q_skip_below oldest (q_of sh) else q_of sh) \<and>
      res = (if handle_live sh off nonce then Inr (committed sh' - committed sh) else Inl ErrHandleStale)"
  proof (cases "handle_live sh off nonce")
    case False
    then have "sh' = sh" "res = Inl ErrHandleStale"
      using eq by (simp_all add: skipMissingBelowLocked_def p)
    with False P(1) show ?thesis by simp
  next
    case True
    have core: "shard_core sh" by (rule shard_inv_core [OF P(1)])
    have "committed sh < off" by (rule shard_core_above(1) [OF core handle_liveD [OF True]])
    with lt have c: "committed sh < oldest" "committed sh < oldest - 1" by simp_all
    define s2 where "s2 = sh\<lparr>entries := drop_below oldest (entries sh), ackedAhead := drop_below oldest (ackedAhead sh),
      aheadVersion := aheadVersion sh + of_nat (length (ackedAhead sh) - length (drop_below oldest (ackedAhead sh))),
      corrupt := drop_below oldest (corrupt sh), committed := oldest - 1\<rparr>"
    obtain adv s3 where adv: "advanceCommittedLocked s2 = (adv, s3)" by fastforce
    have "shard_core s2" unfolding s2_def by (rule shard_core_skip [OF core c(1)])
    note A = advanceCommittedLocked_spec [OF this adv]
    have out: "sh' = s3" "res = Inr (adv - committed sh)"
      using eq True c adv [unfolded s2_def] by (simp_all add: skipMissingBelowLocked_def p Let_def)
    have "q_of s2 = q_skip_below oldest (q_of sh)"
      by (rule queue_eqI) (use c(1) in \<open>auto simp: s2_def q_skip_below_def fun_eq_iff\<close>)
    with advance_refines [OF A(2)] A(1,3) True show ?thesis by (simp add: out)
  qed
  then show "shard_inv sh'" by simp
  show "q_of sh' = (let q1 = q_expire now (q_of sh0)
      in if q_holds q1 off nonce then q_skip_below oldest q1 else q1)"
    and "res = (if q_holds (q_expire now (q_of sh0)) off nonce
           then Inr (committed sh' - committed sh0) else Inl ErrHandleStale)"
    using all unfolding Q [symmetric] handle_live_q c0 Let_def by simp_all
qed

subsection \<open>Reserving\<close>

lemma scan_free_spec:
  "case scan_free sh off logTail of
     Some o' \<Rightarrow> off \<le> o' \<and> o' < logTail \<and> \<not> resolvedOrReservedLocked sh o' \<and>
       (\<forall>x. off \<le> x \<longrightarrow> x < o' \<longrightarrow> resolvedOrReservedLocked sh x)
   | None \<Rightarrow> (\<forall>x. off \<le> x \<longrightarrow> x < logTail \<longrightarrow> resolvedOrReservedLocked sh x)"
proof (induction sh off logTail rule: scan_free.induct)
  case (1 sh off logTail)
  show ?case
  proof (cases "off < logTail \<and> resolvedOrReservedLocked sh off")
    case True
    have split: "off \<le> x \<longleftrightarrow> x = off \<or> off + 1 \<le> x" for x by linarith
    from True have "scan_free sh off logTail = scan_free sh (off + 1) logTail"
      by (simp add: scan_free.simps [of sh off])
    with "1.IH" True show ?thesis by (auto simp: split split: option.splits)
  next
    case False
    then show ?thesis by (auto simp: scan_free.simps [of sh off])
  qed
qed

lemma reserveLocked_spec:
  assumes inv: "shard_inv sh" and eq: "reserveLocked off now vis sh = Some (res, sh')"
    and free: "committed sh < off" "\<not> resolvedOrReservedLocked sh off"
    and below: "\<And>x. committed sh < x \<Longrightarrow> x < off \<Longrightarrow> resolvedOrReservedLocked sh x"
  shows "shard_inv sh'"
    and "res = \<lparr>Reserved = True, Offset = off, Nonce = Nonce res, ExpiresAtUnixMs = now + durationMillis vis, SkipReason = []\<rparr>"
    and "q_of sh' = q_lease off (now + durationMillis vis) (Nonce res) (q_of sh)"
    and "0 < Nonce res \<and> Nonce res < 2 ^ 63"
    and "maxInFlight sh' = maxInFlight sh \<and> maxAckedAhead sh' = maxAckedAhead sh \<and>
         ackedAhead sh' = ackedAhead sh \<and> corrupt sh' = corrupt sh \<and> committed sh' = committed sh \<and>
         entries sh' = om_put off \<lparr>rExpires = now + durationMillis vis, rNonce = Nonce res\<rparr> (entries sh)"
proof -
  obtain n g where n: "nextNonce (rng sh) = Some (n, g)"
    using eq by (auto simp: reserveLocked_def nextNonceLocked_def split: option.splits)
  define e where "e = now + durationMillis vis"
  define s where "s = sh\<lparr>rng := g, entries := om_put off \<lparr>rExpires = e, rNonce = n\<rparr> (entries sh),
    expiry := heap_push \<lparr>eOffset = off, eExpires = e, eNonce = n\<rparr> (expiry sh), nextFree := max (nextFree sh) (off + 1)\<rparr>"
  have "\<not> off < nextFree sh" using free shard_coreD(9) [OF shard_inv_core [OF inv]] by blast
  then have out: "res = \<lparr>Reserved = True, Offset = off, Nonce = n, ExpiresAtUnixMs = e, SkipReason = []\<rparr>" "sh' = s"
    using eq by (auto simp: reserveLocked_def nextNonceLocked_def n Let_def s_def e_def)
  have "\<not> om_mem (ackedAhead sh) off" "\<not> om_mem (corrupt sh) off"
    using free(2) by (simp_all add: resolvedOrReservedLocked_def)
  then have "shard_inv s"
    by (rule shard_inv_lease [where exp = e and nonce = n, OF inv free(1)])
      (use free(1) below \<open>\<not> off < nextFree sh\<close> in \<open>auto simp: s_def\<close>)
  then show "shard_inv sh'" by (simp add: out)
  show "res = \<lparr>Reserved = True, Offset = off, Nonce = Nonce res, ExpiresAtUnixMs = now + durationMillis vis, SkipReason = []\<rparr>"
    by (simp add: out e_def)
  show "q_of sh' = q_lease off (now + durationMillis vis) (Nonce res) (q_of sh)"
    by (rule queue_eqI) (auto simp: out s_def q_lease_def e_def)
  show "0 < Nonce res \<and> Nonce res < 2 ^ 63" using nextNonce_positive [OF n] by (simp add: out)
  show "maxInFlight sh' = maxInFlight sh \<and> maxAckedAhead sh' = maxAckedAhead sh \<and>
         ackedAhead sh' = ackedAhead sh \<and> corrupt sh' = corrupt sh \<and> committed sh' = committed sh \<and>
         entries sh' = om_put off \<lparr>rExpires = now + durationMillis vis, rNonce = Nonce res\<rparr> (entries sh)"
    by (simp add: out s_def e_def)
qed

text \<open>
  The scan starts at the hint, yet what it finds is the lowest free offset of all: everything
  between the frontier and the hint is taken.
\<close>

lemma reserveNext_cases:
  assumes inv: "shard_inv sh0" and p: "purgeExpiredLocked now sh0 = (sh, r)"
    and eq: "reserveNextLocked now vis logTail sh0 = Some (res, sh')"
  obtains (taken) off where "reserveLocked off now vis sh = Some (res, sh')" "committed sh < off" "off < logTail"
      "\<not> resolvedOrReservedLocked sh off" "\<And>x. committed sh < x \<Longrightarrow> x < off \<Longrightarrow> resolvedOrReservedLocked sh x"
      "int (length (entries sh)) < maxInFlight sh" "aheadFullLocked sh \<Longrightarrow> off = committed sh + 1"
  | (cap) "res = skipped ''cap''" "sh' = sh" "maxInFlight sh \<le> int (length (entries sh))"
  | (empty) "res = skipped ''empty''" "sh' = sh" "logTail \<le> committed sh + 1"
  | (full) "res = skipped ''ahead_full''" "sh' = sh" "aheadFullLocked sh" "resolvedOrReservedLocked sh (committed sh + 1)"
  | (all) "res = skipped ''all_reserved''" "sh' = sh"
      "\<And>x. committed sh < x \<Longrightarrow> x < logTail \<Longrightarrow> resolvedOrReservedLocked sh x"
proof -
  note P = purge_spec [OF inv p]
  have hint: "resolvedOrReservedLocked sh x" if "committed sh < x" "x < nextFree sh" for x
    using shard_coreD(9) [OF shard_inv_core [OF P(1)]] that by blast
  let ?start = "max (committed sh + 1) (nextFree sh)"
  have S: "case scan_free sh ?start logTail of
     Some o' \<Rightarrow> ?start \<le> o' \<and> o' < logTail \<and> \<not> resolvedOrReservedLocked sh o' \<and>
       (\<forall>x. committed sh < x \<longrightarrow> x < o' \<longrightarrow> resolvedOrReservedLocked sh x)
   | None \<Rightarrow> (\<forall>x. committed sh < x \<longrightarrow> x < logTail \<longrightarrow> resolvedOrReservedLocked sh x)"
    using scan_free_spec [where sh = sh and off = ?start and logTail = logTail] hint by (force split: option.splits)
  have eq': "reserveNextLocked now vis logTail sh0 =
     (if maxInFlight sh \<le> int (length (entries sh)) then Some (skipped ''cap'', sh)
      else if logTail \<le> committed sh + 1 then Some (skipped ''empty'', sh)
      else if aheadFullLocked sh
      then (if resolvedOrReservedLocked sh (committed sh + 1) then Some (skipped ''ahead_full'', sh)
            else reserveLocked (committed sh + 1) now vis sh)
      else (case scan_free sh ?start logTail of
              Some off \<Rightarrow> reserveLocked off now vis sh | None \<Rightarrow> Some (skipped ''all_reserved'', sh)))"
    by (simp add: reserveNextLocked_def p Let_def)
  show ?thesis
  proof (cases "scan_free sh ?start logTail")
    case None
    with S show ?thesis
      using eq [unfolded eq'] that by (auto split: if_splits)
  next
    case (Some off)
    with S show ?thesis
      using eq [unfolded eq'] that by (auto split: if_splits)
  qed
qed

lemma reserve_refines:
  assumes inv: "shard_inv sh0" and eq: "reserveNextLocked now vis logTail sh0 = Some (res, sh')"
  defines "q \<equiv> q_expire now (q_of sh0)"
  shows "shard_inv sh'"
    and "Reserved res \<Longrightarrow> q_free q (Offset res) \<and> (\<forall>x < Offset res. \<not> q_free q x) \<and> Offset res < logTail \<and>
         ExpiresAtUnixMs res = now + durationMillis vis \<and> 0 < Nonce res \<and> Nonce res < 2 ^ 63 \<and>
         q_of sh' = q_lease (Offset res) (ExpiresAtUnixMs res) (Nonce res) q"
    and "\<not> Reserved res \<Longrightarrow> q_of sh' = q"
proof -
  obtain sh r where p: "purgeExpiredLocked now sh0 = (sh, r)" by fastforce
  note P = purge_spec [OF inv p] and Q = purge_refines [OF inv p]
  have "shard_inv sh' \<and> (if Reserved res
      then q_free q (Offset res) \<and> (\<forall>x < Offset res. \<not> q_free q x) \<and> Offset res < logTail \<and>
         ExpiresAtUnixMs res = now + durationMillis vis \<and> 0 < Nonce res \<and> Nonce res < 2 ^ 63 \<and>
         q_of sh' = q_lease (Offset res) (ExpiresAtUnixMs res) (Nonce res) q
      else q_of sh' = q)"
    using inv p eq
  proof (cases rule: reserveNext_cases)
    case (taken off)
    note R = reserveLocked_spec [OF P(1) taken(1,2,4,5)]
    have o: "Reserved res" "Offset res = off" "ExpiresAtUnixMs res = now + durationMillis vis"
      using arg_cong [OF R(2), of Reserved] arg_cong [OF R(2), of Offset] arg_cong [OF R(2), of ExpiresAtUnixMs]
      by simp_all
    show ?thesis
      unfolding q_def Q [symmetric] o
      using R(1,3,4) taken(2-5) by (simp add: q_free_of o)
  qed (use P(1) in \<open>simp_all add: skipped_def q_def Q\<close>)
  then show "shard_inv sh'"
    and "Reserved res \<Longrightarrow> q_free q (Offset res) \<and> (\<forall>x < Offset res. \<not> q_free q x) \<and> Offset res < logTail \<and>
         ExpiresAtUnixMs res = now + durationMillis vis \<and> 0 < Nonce res \<and> Nonce res < 2 ^ 63 \<and>
         q_of sh' = q_lease (Offset res) (ExpiresAtUnixMs res) (Nonce res) q"
    and "\<not> Reserved res \<Longrightarrow> q_of sh' = q"
    by simp_all
qed

end
