(* ===== verification/Shard_Run.thy ===== *)
theory Shard_Run
  imports Shard_Spec
begin

text \<open>
  Runs of a partition shard. Requests of many consumers reach a shard as a sequence of atomic
  steps; \<open>shard_step\<close> is one such step, labelled with the request, the clock it read and the answer.
  The abstract queue has its own step, the locale \<open>queue_impl\<close> says what it means to implement it, and the
  safety of whole runs is proved once in the locale and then holds of the shard.
\<close>

subsection \<open>Steps\<close>

datatype shardEvent =
  ReserveEv int int int ReserveResult
| ResolveEv aheadSel int int int "unit result"
| SkipMissingEv int int int int "int result"
| ExtendEv int int int int "int result"
| ReleaseEv int int int "unit result"
| PurgeEv int
| CapsEv Caps

inductive shard_step :: "partitionShard \<Rightarrow> shardEvent \<Rightarrow> partitionShard \<Rightarrow> bool" where
  step_reserve: "reserveNextLocked now vis logTail sh = Some (res, sh') \<Longrightarrow>
    shard_step sh (ReserveEv now vis logTail res) sh'"
| step_resolve: "resolveReservedLocked sel now off nonce sh = (res, sh', eff) \<Longrightarrow>
    shard_step sh (ResolveEv sel now off nonce res) sh'"
| step_skip: "off < oldest \<Longrightarrow> skipMissingBelowLocked now off nonce oldest sh = (res, sh', eff) \<Longrightarrow>
    shard_step sh (SkipMissingEv now off nonce oldest res) sh'"
| step_extend: "extendHandleLocked now off nonce vis sh = (res, sh', eff) \<Longrightarrow>
    shard_step sh (ExtendEv now off nonce vis res) sh'"
| step_release: "releaseHandleLocked now off nonce sh = (res, sh', eff) \<Longrightarrow>
    shard_step sh (ReleaseEv now off nonce res) sh'"
| step_purge: "purgeExpiredLocked now sh = (sh', r) \<Longrightarrow> shard_step sh (PurgeEv now) sh'"
| step_caps: "shard_step sh (CapsEv caps) (setCapsLocked caps sh)"

inductive_cases shard_stepE: "shard_step sh e sh'"

inductive runs :: "('s \<Rightarrow> 'e \<Rightarrow> 's \<Rightarrow> bool) \<Rightarrow> 's \<Rightarrow> 'e list \<Rightarrow> 's \<Rightarrow> bool" for step where
  runs_nil: "runs step s [] s"
| runs_cons: "step s e s' \<Longrightarrow> runs step s' es s'' \<Longrightarrow> runs step s (e # es) s''"

inductive_simps runs_simps [simp]: "runs step s [] s'" "runs step s (e # es) s'"

lemma runs_append: "runs step s (xs @ ys) s' \<longleftrightarrow> (\<exists>t. runs step s xs t \<and> runs step t ys s')"
  by (induction xs arbitrary: s) (simp, auto)

subsection \<open>The same requests against the abstract queue\<close>

fun q_step :: "queue \<Rightarrow> shardEvent \<Rightarrow> queue \<Rightarrow> bool" where
  "q_step q (ReserveEv now vis logTail res) q' \<longleftrightarrow>
     (let q1 = q_expire now q
      in if Reserved res
         then q_free q1 (Offset res) \<and> (\<forall>x < Offset res. \<not> q_free q1 x) \<and> Offset res < logTail \<and>
              ExpiresAtUnixMs res = now + durationMillis vis \<and> 0 < Nonce res \<and> Nonce res < 2 ^ 63 \<and>
              q' = q_lease (Offset res) (ExpiresAtUnixMs res) (Nonce res) q1
         else q' = q1)"
| "q_step q (ResolveEv sel now off nonce res) q' \<longleftrightarrow> (res, q') = q_resolve now off nonce q"
| "q_step q (SkipMissingEv now off nonce oldest res) q' \<longleftrightarrow>
     (let q1 = q_expire now q
      in off < oldest \<and>
         (if q_holds q1 off nonce then q' = q_skip_below oldest q1 \<and> (\<exists>k. res = Inr k)
          else q' = q1 \<and> res = Inl ErrHandleStale))"
| "q_step q (ExtendEv now off nonce vis res) q' \<longleftrightarrow> (res, q') = q_extend now off nonce vis q"
| "q_step q (ReleaseEv now off nonce res) q' \<longleftrightarrow> (res, q') = q_release now off nonce q"
| "q_step q (PurgeEv now) q' \<longleftrightarrow> q' = q_expire now q"
| "q_step q (CapsEv caps) q' \<longleftrightarrow> q' = q"

text \<open>A resolved offset is not leased.\<close>

definition q_wf :: "queue \<Rightarrow> bool" where
  "q_wf q \<longleftrightarrow> (\<forall>off \<in> resolved q. leases q off = None)"

fun hands_out :: "shardEvent \<Rightarrow> int \<Rightarrow> int \<Rightarrow> bool" where
  "hands_out (ReserveEv now vis logTail res) off nonce \<longleftrightarrow> Reserved res \<and> Offset res = off \<and> Nonce res = nonce"
| "hands_out _ off nonce \<longleftrightarrow> False"

fun resolves :: "shardEvent \<Rightarrow> int \<Rightarrow> bool" where
  "resolves (ResolveEv sel now off' nonce (Inr u)) off \<longleftrightarrow> off' = off"
| "resolves (SkipMissingEv now off' nonce oldest (Inr k)) off \<longleftrightarrow> off < oldest"
| "resolves _ off \<longleftrightarrow> False"

fun ends_lease :: "shardEvent \<Rightarrow> int \<Rightarrow> bool" where
  "ends_lease (ResolveEv sel now off' nonce (Inr u)) off \<longleftrightarrow> off' = off"
| "ends_lease (SkipMissingEv now off' nonce oldest (Inr k)) off \<longleftrightarrow> off < oldest"
| "ends_lease (ExtendEv now off' nonce vis (Inr k)) off \<longleftrightarrow> off' = off"
| "ends_lease (ReleaseEv now off' nonce (Inr u)) off \<longleftrightarrow> off' = off"
| "ends_lease _ off \<longleftrightarrow> False"

fun handle_used :: "shardEvent \<Rightarrow> (int \<times> int) option" where
  "handle_used (ResolveEv sel now off nonce (Inr u)) = Some (off, nonce)"
| "handle_used (SkipMissingEv now off nonce oldest (Inr k)) = Some (off, nonce)"
| "handle_used (ExtendEv now off nonce vis (Inr k)) = Some (off, nonce)"
| "handle_used (ReleaseEv now off nonce (Inr u)) = Some (off, nonce)"
| "handle_used _ = None"

fun ev_now :: "shardEvent \<Rightarrow> int option" where
  "ev_now (ReserveEv now vis logTail res) = Some now"
| "ev_now (ResolveEv sel now off nonce res) = Some now"
| "ev_now (SkipMissingEv now off nonce oldest res) = Some now"
| "ev_now (ExtendEv now off nonce vis res) = Some now"
| "ev_now (ReleaseEv now off nonce res) = Some now"
| "ev_now (PurgeEv now) = Some now"
| "ev_now (CapsEv caps) = None"

subsection \<open>What one abstract step does\<close>

lemma q_expire_sel [simp]:
  "resolved (q_expire now q) = resolved q"
  "leases (q_expire now q) off = Some r \<longleftrightarrow> leases q off = Some r \<and> now < rExpires r"
  "leases (q_expire now q) off = None \<longleftrightarrow> (\<forall>r. leases q off = Some r \<longrightarrow> rExpires r \<le> now)"
  by (auto simp: q_expire_def not_less split: option.splits)

lemma q_step_resolved:
  assumes "q_step q e q'"
  shows "off \<in> resolved q' \<longleftrightarrow> off \<in> resolved q \<or> resolves e off"
  using assms
  by (cases e) (auto simp: Let_def q_resolve_def q_extend_def q_release_def q_lease_def q_skip_below_def split: if_splits)

lemma q_step_lease:
  assumes "q_step q e q'" and "leases q' off = Some r"
  shows "(\<exists>r'. leases q off = Some r' \<and> rNonce r' = rNonce r) \<or> hands_out e off (rNonce r)"
  using assms
  by (cases e) (auto simp: Let_def q_holds_def q_resolve_def q_extend_def q_release_def q_lease_def q_skip_below_def
      split: if_splits)

lemma q_step_handle:
  assumes "q_step q e q'" and "handle_used e = Some (off, nonce)"
  shows "\<exists>r. leases q off = Some r \<and> rNonce r = nonce"
  using assms
  by (cases e rule: handle_used.cases)
    (auto simp: Let_def q_holds_def q_resolve_def q_extend_def q_release_def split: if_splits)

lemma q_step_wf:
  assumes "q_step q e q'" and "q_wf q"
  shows "q_wf q'"
  using assms
  by (cases e) (auto simp: Let_def q_wf_def q_free_def q_holds_def q_resolve_def q_extend_def q_release_def q_lease_def
      q_skip_below_def split: if_splits)

lemma q_step_keeps_lease:
  assumes "q_step q e q'" and "leases q off = Some r" and "q_wf q"
    and "\<And>t. ev_now e = Some t \<Longrightarrow> t < rExpires r" and "\<not> ends_lease e off"
  shows "leases q' off = Some r" and "\<not> hands_out e off nonce"
  using assms
  by (cases e; auto simp: Let_def q_free_def q_resolve_def q_extend_def q_release_def q_lease_def
      q_skip_below_def split: if_splits)+

lemma q_step_no_handout:
  assumes "q_step q e q'" and "off \<in> resolved q"
  shows "\<not> hands_out e off nonce"
  using assms by (cases e) (auto simp: Let_def q_free_def split: if_splits)

subsection \<open>Implementations of the queue\<close>

text \<open>
  An implementation has a step relation over the same requests, an invariant its steps keep, and
  an abstraction under which every step of it is a step of the queue.
\<close>

locale queue_impl =
  fixes step :: "'s \<Rightarrow> shardEvent \<Rightarrow> 's \<Rightarrow> bool" and inv :: "'s \<Rightarrow> bool" and abs_q :: "'s \<Rightarrow> queue"
  assumes step_inv: "inv s \<Longrightarrow> step s e s' \<Longrightarrow> inv s'"
    and step_sim: "inv s \<Longrightarrow> step s e s' \<Longrightarrow> q_step (abs_q s) e (abs_q s')"
    and inv_wf: "inv s \<Longrightarrow> q_wf (abs_q s)"
begin

lemma runs_inv:
  "runs step s es s' \<Longrightarrow> inv s \<Longrightarrow> inv s'"
  by (induction rule: runs.induct) (auto intro: step_inv)

lemma runs_resolved:
  "runs step s es s' \<Longrightarrow> inv s \<Longrightarrow>
   off \<in> resolved (abs_q s') \<longleftrightarrow> off \<in> resolved (abs_q s) \<or> (\<exists>e \<in> set es. resolves e off)"
proof (induction rule: runs.induct)
  case (runs_cons s e s' es s'')
  with q_step_resolved [OF step_sim] step_inv show ?case by auto
qed simp

text \<open>Every handle a request used with success was handed out before it, unless it was leased at the start.\<close>

lemma runs_handle:
  assumes "runs step s (es1 @ e # es2) s'" and "inv s" and "handle_used e = Some (off, nonce)"
  shows "(\<exists>r. leases (abs_q s) off = Some r \<and> rNonce r = nonce) \<or> (\<exists>d \<in> set es1. hands_out d off nonce)"
  using assms(1,2)
proof (induction es1 arbitrary: s)
  case Nil
  then show ?case using q_step_handle [OF step_sim _ , of s] assms(3) by auto
next
  case (Cons d es1)
  then obtain t where t: "step s d t" "runs step t (es1 @ e # es2) s'" by auto
  have "inv t" using step_inv [OF Cons.prems(2) t(1)] .
  from Cons.IH [OF t(2) this] show ?case
    using q_step_lease [OF step_sim [OF Cons.prems(2) t(1)]] by fastforce
qed

lemma runs_keeps_lease:
  assumes "runs step s es s'" and "inv s" and "leases (abs_q s) off = Some r"
    and "\<And>e t. e \<in> set es \<Longrightarrow> ev_now e = Some t \<Longrightarrow> t < rExpires r"
    and "\<And>e. e \<in> set es \<Longrightarrow> \<not> ends_lease e off"
  shows "leases (abs_q s') off = Some r \<and> (\<forall>e \<in> set es. \<forall>nonce. \<not> hands_out e off nonce)"
  using assms
proof (induction rule: runs.induct)
  case (runs_cons s e s' es s'')
  note K = q_step_keeps_lease [OF step_sim [OF runs_cons.prems(1) runs_cons.hyps(1)] runs_cons.prems(2)
      inv_wf [OF runs_cons.prems(1)]]
  have kept: "leases (abs_q s') off = Some r"
    by (rule K(1)) (use runs_cons.prems(3,4) in auto)
  have "\<not> hands_out e off n" for n
    by (rule K(2)) (use runs_cons.prems(3,4) in auto)
  moreover have "inv s'" using step_inv runs_cons.prems(1) runs_cons.hyps(1) by blast
  ultimately show ?case using runs_cons.IH kept runs_cons.prems(3,4) by auto
qed simp

lemma runs_no_handout:
  "runs step s es s' \<Longrightarrow> inv s \<Longrightarrow> off \<in> resolved (abs_q s) \<Longrightarrow> e \<in> set es \<Longrightarrow>
   \<not> hands_out e off nonce \<and> (\<forall>n. handle_used e \<noteq> Some (off, n))"
proof (induction rule: runs.induct)
  case (runs_cons s d s' es s'')
  have sim: "q_step (abs_q s) d (abs_q s')" and "inv s'"
    using step_sim step_inv runs_cons.prems(1) runs_cons.hyps(1) by auto
  have "off \<in> resolved (abs_q s')" using q_step_resolved [OF sim] runs_cons.prems(2) by blast
  moreover have "leases (abs_q s) off = None"
    using inv_wf [OF runs_cons.prems(1)] runs_cons.prems(2) by (simp add: q_wf_def)
  then have "\<not> hands_out d off nonce \<and> (\<forall>n. handle_used d \<noteq> Some (off, n))"
    using q_step_no_handout [OF sim runs_cons.prems(2)] q_step_handle [OF sim] by fastforce
  ultimately show ?case using runs_cons.IH \<open>inv s'\<close> runs_cons.prems(3) by auto
qed simp

end

lemma shard_inv_caps: "shard_inv sh \<Longrightarrow> shard_inv (setCapsLocked caps sh)"
  by (simp add: setCapsLocked_def shard_inv_def shard_core_def resolvedOrReservedLocked_def)

lemma q_of_caps [simp]: "q_of (setCapsLocked caps sh) = q_of sh"
  by (simp add: setCapsLocked_def q_of_def)

lemma shard_step_refines:
  assumes "shard_step sh e sh'" and inv: "shard_inv sh"
  shows "shard_inv sh' \<and> q_step (q_of sh) e (q_of sh')"
  using assms(1)
proof cases
  case (step_reserve now vis logTail res)
  from reserve_refines [OF inv this(2)] step_reserve(1) show ?thesis by (simp add: Let_def)
next
  case (step_resolve sel now off nonce res eff)
  from resolve_refines [OF inv this(2)] step_resolve(1) show ?thesis by simp
next
  case (step_skip off oldest now nonce res eff)
  from skip_refines [OF inv this(2,3)] step_skip(1,2) show ?thesis by (simp add: Let_def)
next
  case (step_extend now off nonce vis res eff)
  from extend_refines [OF inv this(2)] step_extend(1) show ?thesis by simp
next
  case (step_release now off nonce res eff)
  from release_refines [OF inv this(2)] step_release(1) show ?thesis by simp
next
  case (step_purge now r)
  from purge_spec(1) [OF inv this(2)] purge_refines [OF inv this(2)] step_purge(1) show ?thesis by simp
next
  case (step_caps caps)
  with shard_inv_caps [OF inv] show ?thesis by simp
qed

lemma shard_q_wf: "shard_inv sh \<Longrightarrow> q_wf (q_of sh)"
  using shard_coreD(6,7) [OF shard_inv_core] shard_core_above(1) [OF shard_inv_core]
  by (fastforce simp: q_wf_def om_mem_def)

interpretation shq: queue_impl shard_step shard_inv q_of
  by unfold_locales (use shard_step_refines shard_q_wf in auto)

subsection \<open>A concrete run\<close>

text \<open>
  A shard at frontier \<open>-1\<close> over a log of three records, with a source whose every draw yields nonce 1:
  offset 0 is leased for two milliseconds, offset 1 for one second, 1 is acked ahead of the
  frontier, and then 0 is acked, which collapses the frontier over both.
\<close>

definition ex_src :: nonceSource where
  "ex_src = \<lparr>draws = (\<lambda>_. 2), drawn = 0\<rparr>"

definition ex_caps :: Caps where
  "ex_caps = \<lparr>capInFlight = 2, capAckedAhead = 2\<rparr>"

definition ex0 :: partitionShard where
  "ex0 = newPartitionShard ex_src (-1) ex_caps"

definition ex_res :: "int \<Rightarrow> int \<Rightarrow> ReserveResult" where
  "ex_res off exp = \<lparr>Reserved = True, Offset = off, Nonce = 1, ExpiresAtUnixMs = exp, SkipReason = []\<rparr>"

definition ex1 :: partitionShard where
  "ex1 = \<lparr>committed = -1, entries = [(0, \<lparr>rExpires = 2, rNonce = 1\<rparr>)],
     expiry = [\<lparr>eOffset = 0, eExpires = 2, eNonce = 1\<rparr>], ackedAhead = [], aheadVersion = 0, corrupt = [],
     nextFree = 1, rng = ex_src\<lparr>drawn := 1\<rparr>, maxInFlight = 2, maxAckedAhead = 2\<rparr>"

definition ex2 :: partitionShard where
  "ex2 = ex1\<lparr>entries := [(0, \<lparr>rExpires = 2, rNonce = 1\<rparr>), (1, \<lparr>rExpires = 1000, rNonce = 1\<rparr>)],
     expiry := [\<lparr>eOffset = 0, eExpires = 2, eNonce = 1\<rparr>, \<lparr>eOffset = 1, eExpires = 1000, eNonce = 1\<rparr>],
     nextFree := 2, rng := ex_src\<lparr>drawn := 2\<rparr>\<rparr>"

definition ex3 :: partitionShard where
  "ex3 = ex2\<lparr>entries := [(0, \<lparr>rExpires = 2, rNonce = 1\<rparr>)], ackedAhead := [(1, ())], aheadVersion := 1\<rparr>"

definition ex4 :: partitionShard where
  "ex4 = ex3\<lparr>committed := 1, entries := [], ackedAhead := [], aheadVersion := 2\<rparr>"

lemmas ex_defs = ex0_def ex1_def ex2_def ex3_def ex4_def ex_res_def ex_src_def ex_caps_def

lemma ex_nonce: "nextNonce \<lparr>draws = (\<lambda>_. 2), drawn = k\<rparr> = Some (1, \<lparr>draws = (\<lambda>_. 2), drawn = Suc k\<rparr>)"
  by (subst nextNonce.simps) (simp add: uint_half)

lemma purge_none_due:
  "expiry sh = [] \<or> now < eExpires (hd (expiry sh)) \<Longrightarrow> length (expiry sh) \<le> 2 * length (entries sh) + heapCompactSlack \<Longrightarrow>
   purgeExpiredLocked now sh = (sh, 0)"
  by (auto simp: purgeExpiredLocked_def purge_loop.simps [of now sh] compactExpiryLocked_def)

lemmas ex_eval = purge_none_due reserveNextLocked_def reserveLocked_def nextNonceLocked_def ex_nonce newPartitionShard_def
  resolvedOrReservedLocked_def aheadFullLocked_def scan_free.simps durationMillis_def heap_push_def heap_up.simps parent_def
  heap_less_def heapCompactSlack_def om_del_def om_filter_def Let_def

lemma ex_step1: "reserveNextLocked 0 2000000 3 ex0 = Some (ex_res 0 2, ex1)"
  by (simp add: ex_defs ex_eval)

lemma ex_step2: "reserveNextLocked 0 1000000000 3 ex1 = Some (ex_res 1 1000, ex2)"
  by (simp add: ex_defs ex_eval)

lemma ex_step3: "resolveReservedLocked AckedAheadSet 1 1 1 ex2 = (Inr (), ex3, \<lparr>commitCall = Some (-1), releaseCall = True\<rparr>)"
  by (simp add: ex_defs ex_eval resolveReservedLocked_def handle_live_def park_def)

lemma ex_step4: "resolveReservedLocked AckedAheadSet 1 0 1 ex3 = (Inr (), ex4, \<lparr>commitCall = Some 1, releaseCall = False\<rparr>)"
  by (simp add: ex_defs ex_eval resolveReservedLocked_def handle_live_def park_def advanceCommittedLocked_def
      advance_loop.simps)

definition ex_run :: "shardEvent list" where
  "ex_run = [ReserveEv 0 2000000 3 (ex_res 0 2), ReserveEv 0 1000000000 3 (ex_res 1 1000),
     ResolveEv AckedAheadSet 1 1 1 (Inr ()), ResolveEv AckedAheadSet 1 0 1 (Inr ())]"

lemma ex_runs: "runs shard_step ex0 ex_run ex4"
  unfolding ex_run_def
  by (intro runs_cons step_reserve step_resolve) (rule ex_step1 ex_step2 ex_step3 ex_step4 runs_nil)+

subsection \<open>Safety of runs\<close>

lemma frontier_resolved: "off \<le> committed sh \<Longrightarrow> off \<in> resolved (q_of sh)"
  by simp

lemma shard_frontier:
  assumes "shard_inv sh"
  shows "committed sh + 1 \<notin> resolved (q_of sh)"
  using assms by (simp add: shard_inv_def)

text \<open>
  C1. No message is lost. Take any run of a new shard. Every offset the committed frontier has passed
  was passed already at the start, or some request of the run resolved it: an ack or a corrupt skip of
  that very offset, or a skip past what retention deleted. And the handle that request presented had been
  handed out by an earlier reservation of the run.
\<close>

theorem frontier_safe:
  assumes "runs shard_step (newPartitionShard src c caps) es sh" and "off \<le> committed sh"
  shows "off \<le> c \<or>
    (\<exists>es1 e es2 o' n. es = es1 @ e # es2 \<and> resolves e off \<and> handle_used e = Some (o', n) \<and>
       (\<exists>d \<in> set es1. hands_out d o' n))"
proof -
  let ?s = "newPartitionShard src c caps"
  have s: "resolved (q_of ?s) = {..c}" "leases (q_of ?s) = (\<lambda>_. None)"
    by (auto simp: q_of_def newPartitionShard_def)
  have "off \<le> c \<or> (\<exists>e \<in> set es. resolves e off)"
    using shq.runs_resolved [OF assms(1) shard_inv_new] frontier_resolved [OF assms(2)] s(1) by simp
  moreover have "\<exists>o' n. handle_used e = Some (o', n)" if "resolves e off" for e
    using that by (cases e rule: handle_used.cases) auto
  moreover have "\<exists>d \<in> set es1. hands_out d o' n"
    if "es = es1 @ e # es2" "handle_used e = Some (o', n)" for es1 e es2 o' n
    using shq.runs_handle [OF _ shard_inv_new that(2)] assms(1) that(1) s(2) by fastforce
  ultimately show ?thesis by (metis in_set_conv_decomp)
qed

theorem frontier_safe_witness:
  "runs shard_step ex0 ex_run ex4 \<and> 1 \<le> committed ex4 \<and>
   ((1::int) \<le> -1 \<or> (\<exists>es1 e es2 o' n. ex_run = es1 @ e # es2 \<and> resolves e 1 \<and> handle_used e = Some (o', n) \<and>
       (\<exists>d \<in> set es1. hands_out d o' n)))"
  using frontier_safe [of ex_src "-1" ex_caps ex_run ex4 1, folded ex0_def] ex_runs by (simp add: ex4_def)

text \<open>
  C6. No second delivery while a lease runs. After a reservation handed out an offset, as long as the
  clock is before its expiry and no request ended or moved that lease, no other reservation hands the
  offset out, and the holder's handle stays valid.
\<close>

theorem no_redelivery_while_leased:
  assumes "shard_inv sh" and "shard_step sh (ReserveEv now vis logTail res) sh1" and "Reserved res"
    and "runs shard_step sh1 es sh2"
    and "\<forall>e \<in> set es. (\<forall>t. ev_now e = Some t \<longrightarrow> t < ExpiresAtUnixMs res) \<and> \<not> ends_lease e (Offset res)"
  shows "handle_live sh2 (Offset res) (Nonce res) \<and> (\<forall>e \<in> set es. \<forall>n. \<not> hands_out e (Offset res) n)"
proof -
  from shard_step_refines [OF assms(2,1)] assms(3)
  have "shard_inv sh1"
    and "leases (q_of sh1) (Offset res) = Some \<lparr>rExpires = ExpiresAtUnixMs res, rNonce = Nonce res\<rparr>"
    by (simp_all add: Let_def q_lease_def)
  from shq.runs_keeps_lease [OF assms(4) this] assms(5) show ?thesis
    by (auto simp: handle_live_q q_holds_def)
qed

theorem no_redelivery_while_leased_witness:
  "shard_inv ex0 \<and> shard_step ex0 (ReserveEv 0 2000000 3 (ex_res 0 2)) ex1 \<and> Reserved (ex_res 0 2) \<and>
   runs shard_step ex1 [ReserveEv 0 1000000000 3 (ex_res 1 1000), ResolveEv AckedAheadSet 1 1 1 (Inr ())] ex3 \<and>
   handle_live ex3 0 1"
proof -
  have a: "shard_inv ex0" unfolding ex0_def by (rule shard_inv_new)
  have b: "shard_step ex0 (ReserveEv 0 2000000 3 (ex_res 0 2)) ex1" by (rule step_reserve [OF ex_step1])
  have c: "runs shard_step ex1 [ReserveEv 0 1000000000 3 (ex_res 1 1000), ResolveEv AckedAheadSet 1 1 1 (Inr ())] ex3"
    by (intro runs_cons step_reserve step_resolve) (rule ex_step2 ex_step3 runs_nil)+
  have "Reserved (ex_res 0 2)" by (simp add: ex_res_def)
  with a b c no_redelivery_while_leased [OF a b _ c] show ?thesis by (simp add: ex_res_def)
qed

text \<open>
  C7. A resolved offset is done. Once an ack or skip resolved an offset, no later reservation of the run
  hands it out and no later ack, skip, extension or release of it succeeds: a second ack with the same
  handle is refused.
\<close>

theorem resolved_is_final:
  assumes "runs shard_step (newPartitionShard src c caps) (es1 @ e # es2) sh" and "resolves e off" and "d \<in> set es2"
  shows "\<not> hands_out d off n \<and> (\<forall>n. handle_used d \<noteq> Some (off, n))"
proof -
  from assms(1) runs_append [of shard_step _ "es1 @ [e]" es2] obtain t
    where t: "runs shard_step (newPartitionShard src c caps) (es1 @ [e]) t" "runs shard_step t es2 sh"
    by (metis append.assoc append_Cons append_Nil)
  have "off \<in> resolved (q_of t)"
    using shq.runs_resolved [OF t(1) shard_inv_new] assms(2) by simp
  from shq.runs_no_handout [OF t(2) shq.runs_inv [OF t(1) shard_inv_new] this assms(3)]
  show ?thesis by simp
qed

theorem resolved_is_final_witness:
  "runs shard_step ex0 ([ReserveEv 0 2000000 3 (ex_res 0 2), ReserveEv 0 1000000000 3 (ex_res 1 1000)] @
     ResolveEv AckedAheadSet 1 1 1 (Inr ()) # [ResolveEv AckedAheadSet 1 0 1 (Inr ())]) ex4 \<and>
   (\<forall>n. handle_used (ResolveEv AckedAheadSet 1 0 1 (Inr ())) \<noteq> Some (1, n))"
  using resolved_is_final [of ex_src "-1" ex_caps
      "[ReserveEv 0 2000000 3 (ex_res 0 2), ReserveEv 0 1000000000 3 (ex_res 1 1000)]"
      "ResolveEv AckedAheadSet 1 1 1 (Inr ())" "[ResolveEv AckedAheadSet 1 0 1 (Inr ())]" ex4 1
      "ResolveEv AckedAheadSet 1 0 1 (Inr ())", folded ex0_def] ex_runs
  by (simp add: ex_run_def)

end
