(* ===== verification/Shard_Capacity.thy ===== *)
theory Shard_Capacity
  imports Shard_Run
begin

text \<open>
  The bounds a shard keeps and the wake-ups it owes: how many leases and resolved-ahead offsets it can
  hold, what a reservation returns on every branch, and when an operation must call the release
  notifier because a poller that found nothing could now be served.
\<close>

subsection \<open>What a reservation returns\<close>

text \<open>
  C15. A reservation hands out the lowest free offset below the log tail, although its scan starts at
  a hint and not at the frontier; the lease is on record with the expiry it reports and a nonce in
  the positive \<^verbatim>\<open>int64\<close> range. When it hands out nothing, either the lease limit is reached, or no offset
  below the tail is free, or the resolved-ahead set is full and the frontier's next offset is taken.
\<close>

theorem reserve_lowest_free:
  assumes "shard_inv sh" and "reserveNextLocked now vis logTail sh = Some (res, sh')"
  shows "shard_inv sh' \<and>
    (let q = q_expire now (q_of sh); live = live_at now (entries sh)
     in if Reserved res
        then q_free q (Offset res) \<and> (\<forall>x < Offset res. \<not> q_free q x) \<and> Offset res < logTail \<and>
             q_of sh' = q_lease (Offset res) (now + durationMillis vis) (Nonce res) q \<and>
             ExpiresAtUnixMs res = now + durationMillis vis \<and> 0 < Nonce res \<and> Nonce res < 2 ^ 63
        else q_of sh' = q \<and>
             (maxInFlight sh \<le> int (length live) \<or> (\<forall>x < logTail. \<not> q_free q x) \<or>
              aheadFullLocked sh \<and> \<not> q_free q (committed sh + 1)))"
proof -
  obtain s r where p: "purgeExpiredLocked now sh = (s, r)" by fastforce
  note P = purge_spec [OF assms(1) p] and Q = purge_refines [OF assms(1) p]
    and R = reserve_refines [OF assms]
  have same: "committed s = committed sh" "maxInFlight s = maxInFlight sh" "aheadFullLocked s = aheadFullLocked sh"
    using P(2) by (simp_all add: same_but_leases_def aheadFullLocked_def)
  have "maxInFlight sh \<le> int (length (live_at now (entries sh))) \<or> (\<forall>x < logTail. \<not> q_free (q_of s) x) \<or>
        aheadFullLocked sh \<and> \<not> q_free (q_of s) (committed sh + 1)" if "\<not> Reserved res"
    using assms(1) p assms(2)
  proof (cases rule: reserveNext_cases)
    case (taken off)
    have "Reserved res" using arg_cong [OF reserveLocked_spec(2) [OF P(1) taken(1,2,4,5)], of Reserved] by simp
    with that show ?thesis by simp
  qed (use P(3) same in \<open>auto simp: q_free_of\<close>)
  with R Q show ?thesis by (auto simp: Let_def)
qed

theorem reserve_lowest_free_witness:
  "shard_inv ex1 \<and> reserveNextLocked 0 1000000000 3 ex1 = Some (ex_res 1 1000, ex2) \<and>
   \<not> q_free (q_expire 0 (q_of ex1)) 0"
proof -
  have i: "shard_inv ex1"
    using shard_step_refines [OF step_reserve [OF ex_step1]] shard_inv_new by (simp add: ex0_def)
  from reserve_lowest_free [OF i ex_step2] show ?thesis
    using i ex_step2 by (simp add: Let_def ex_res_def)
qed

subsection \<open>Bounds\<close>

lemma length_heap_up: "length (heap_up h j) = length h"
  by (induction h j rule: heap_up.induct) (subst heap_up.simps, simp add: Let_def)

lemma length_heap_push: "length (heap_push e h) = Suc (length h)"
  by (simp add: heap_push_def length_heap_up)

text \<open>The leases other than one on the frontier's next offset, plus everything resolved ahead.\<close>

definition ahead_load :: "partitionShard \<Rightarrow> nat" where
  "ahead_load sh = length (ackedAhead sh) + length (corrupt sh) + length (om_del (committed sh + 1) (entries sh))"

definition within_caps :: "Caps \<Rightarrow> partitionShard \<Rightarrow> bool" where
  "within_caps caps sh \<longleftrightarrow> maxInFlight sh = capInFlight caps \<and> maxAckedAhead sh = capAckedAhead caps \<and>
     int (length (entries sh)) \<le> capInFlight caps \<and>
     int (length (expiry sh)) \<le> 2 * capInFlight caps + int heapCompactSlack + 1 \<and>
     int (ahead_load sh) \<le> capAckedAhead caps - 1 + capInFlight caps"

lemma length_om_filter_mono:
  "(\<And>k. om_mem m k \<Longrightarrow> P k \<Longrightarrow> Q k) \<Longrightarrow> length (om_filter P m) \<le> length (om_filter Q m)"
  by (induction m) (auto simp: om_filter_def mem_om_keys om_keys_def)

lemma length_live_at_del: "length (om_del k (live_at now m)) \<le> length (om_del k m)"
  by (induction m) (auto simp: live_at_def om_del_def om_filter_def)

lemma length_del_le: "length (om_del k m) \<le> length m"
  by (simp add: om_del_def om_filter_def)

lemma length_del_del: "length (om_del k (om_del l m)) \<le> length (om_del k m)"
  by (induction m) (auto simp: om_del_def om_filter_def)

lemma within_caps_purge:
  assumes "shard_inv sh" and "purgeExpiredLocked now sh = (sh', r)" and "within_caps caps sh"
  shows "within_caps caps sh'"
proof -
  note P = purge_spec [OF assms(1,2)]
  have "length (entries sh') \<le> length (entries sh)" using P(4) by simp
  moreover have "ahead_load sh' \<le> ahead_load sh"
    using P(2) length_live_at_del by (simp add: ahead_load_def P(3) same_but_leases_def)
  ultimately show ?thesis using assms(3) P(2,5) by (simp add: within_caps_def same_but_leases_def)
qed

lemma within_caps_advance:
  assumes "advance_post s1 s2" and "maxInFlight s1 = capInFlight caps" "maxAckedAhead s1 = capAckedAhead caps"
    and "int (length (entries s1)) \<le> capInFlight caps"
    and "int (length (expiry s1)) \<le> 2 * capInFlight caps + int heapCompactSlack + 1"
    and "int (length (ackedAhead s1) + length (corrupt s1) + length (entries s1)) \<le> capAckedAhead caps - 1 + capInFlight caps"
  shows "within_caps caps s2"
proof -
  note A = advance_postD [OF assms(1)]
  have "length (ackedAhead s2) \<le> length (ackedAhead s1)" "length (corrupt s2) \<le> length (corrupt s1)"
    by (simp_all add: A(3,4) om_filter_def)
  then have "ahead_load s2 \<le> length (ackedAhead s1) + length (corrupt s1) + length (entries s1)"
    using length_del_le [of "committed s2 + 1" "entries s1"] by (simp add: ahead_load_def A(5))
  with assms(2-6) show ?thesis
    using assms(1) by (simp add: within_caps_def advance_post_def)
qed

lemma om_del_commute: "om_del k (om_del l m) = om_del l (om_del k m)"
  by (simp add: om_del_def om_filter_def conj_commute)

lemma length_del_other:
  assumes "om_wf m" "om_mem m off" "off \<noteq> k"
  shows "Suc (length (om_del k (om_del off m))) = length (om_del k m)"
  using length_om_del_mem [of "om_del k m" off] assms by (simp add: om_del_commute [of k off])

lemma within_caps_resolve:
  assumes inv: "shard_inv sh0" and eq: "resolveReservedLocked sel now off nonce sh0 = (res, sh', eff)"
    and w0: "within_caps caps sh0"
  shows "within_caps caps sh'"
proof -
  obtain sh r where p: "purgeExpiredLocked now sh0 = (sh, r)" by fastforce
  note P = purge_spec [OF inv p] and w = within_caps_purge [OF inv p w0]
  have out: "sh' = fst (snd (resolveReservedLocked sel now off nonce sh0))" using eq by simp
  consider (stale) "\<not> handle_live sh off nonce"
    | (front) "handle_live sh off nonce" "off = committed sh + 1"
    | (ahead) "handle_live sh off nonce" "off \<noteq> committed sh + 1" by blast
  then show ?thesis
  proof cases
    case stale
    then show ?thesis using out w by (simp add: resolveReservedLocked_def p)
  next
    case front
    define s1 where "s1 = sh\<lparr>entries := om_del off (entries sh), committed := off\<rparr>"
    have "shard_core s1"
      using shard_core_commit [OF P(1)] handle_liveD [OF front(1)] front(2) by (simp add: s1_def)
    then have post: "advance_post s1 (snd (advanceCommittedLocked s1))"
      by (rule advanceCommittedLocked_spec(2) [OF _ prod.collapse [symmetric]])
    have "within_caps caps (snd (advanceCommittedLocked s1))"
      by (rule within_caps_advance [OF post])
        (use w front(2) length_del_le [of off "entries sh"] in \<open>auto simp: s1_def within_caps_def ahead_load_def\<close>)
    moreover have "sh' = snd (advanceCommittedLocked s1)"
      using out front by (simp add: resolveReservedLocked_def p Let_def s1_def split_beta)
    ultimately show ?thesis by simp
  next
    case ahead
    note core = shard_inv_core [OF P(1)] and mem = handle_liveD [OF ahead(1)]
    have "\<not> om_mem (ackedAhead sh) off" "\<not> om_mem (corrupt sh) off" by (fact shard_coreD(6,7) [OF core mem])+
    then have "length (ackedAhead (park sel off sh)) + length (corrupt (park sel off sh)) =
        Suc (length (ackedAhead sh) + length (corrupt sh))"
      using shard_coreD(2,3) [OF core] by (cases sel) (simp_all add: park_def length_om_put)
    then have "ahead_load sh' = ahead_load sh"
      using out ahead length_del_other [OF shard_coreD(1) [OF core] mem ahead(2)]
      by (cases sel) (simp_all add: resolveReservedLocked_def p Let_def ahead_load_def park_def)
    then show ?thesis
      using out w ahead length_del_le [of off "entries sh"]
      by (cases sel) (simp_all add: resolveReservedLocked_def p Let_def within_caps_def park_def)
  qed
qed

lemma within_caps_extend:
  assumes inv: "shard_inv sh0" and eq: "extendHandleLocked now off nonce vis sh0 = (res, sh', eff)"
    and w0: "within_caps caps sh0"
  shows "within_caps caps sh'"
proof -
  obtain sh r where p: "purgeExpiredLocked now sh0 = (sh, r)" by fastforce
  note P = purge_spec [OF inv p] and w = within_caps_purge [OF inv p w0]
  have out: "sh' = fst (snd (extendHandleLocked now off nonce vis sh0))" using eq by simp
  note wf = shard_coreD(1) [OF shard_inv_core [OF P(1)]]
  have "length (om_put off x (entries sh)) = length (entries sh)"
    and "length (om_del k (om_put off x (entries sh))) = length (om_del k (entries sh))"
    if "om_mem (entries sh) off" for x k
    using that wf by (simp_all add: length_om_put length_om_del)
  then show ?thesis
    using out w P(5) handle_liveD [of sh off nonce]
    by (cases "handle_live sh off nonce") 
      (simp_all add: extendHandleLocked_def p Let_def within_caps_def ahead_load_def length_heap_push)
qed

lemma within_caps_release:
  assumes inv: "shard_inv sh0" and eq: "releaseHandleLocked now off nonce sh0 = (res, sh', eff)"
    and w0: "within_caps caps sh0"
  shows "within_caps caps sh'"
proof -
  obtain sh r where p: "purgeExpiredLocked now sh0 = (sh, r)" by fastforce
  note w = within_caps_purge [OF inv p w0]
  have out: "sh' = fst (snd (releaseHandleLocked now off nonce sh0))" using eq by simp
  show ?thesis
    using out w length_del_le [of off "entries sh"] length_del_del [of "committed sh + 1" off "entries sh"]
    by (cases "handle_live sh off nonce")
      (simp_all add: releaseHandleLocked_def p Let_def within_caps_def ahead_load_def freedLocked_def)
qed

lemma within_caps_skip:
  assumes inv: "shard_inv sh0" and eq: "skipMissingBelowLocked now off nonce oldest sh0 = (res, sh', eff)"
    and lt: "off < oldest" and w0: "within_caps caps sh0"
  shows "within_caps caps sh'"
proof -
  obtain sh r where p: "purgeExpiredLocked now sh0 = (sh, r)" by fastforce
  note P = purge_spec [OF inv p] and w = within_caps_purge [OF inv p w0]
  have out: "sh' = fst (snd (skipMissingBelowLocked now off nonce oldest sh0))" using eq by simp
  show ?thesis
  proof (cases "handle_live sh off nonce")
    case False
    then show ?thesis using out w by (simp add: skipMissingBelowLocked_def p)
  next
    case True
    have core: "shard_core sh" by (rule shard_inv_core [OF P(1)])
    have "committed sh < off" by (rule shard_core_above(1) [OF core handle_liveD [OF True]])
    with lt have c: "committed sh < oldest" "committed sh < oldest - 1" by simp_all
    define s2 where "s2 = sh\<lparr>entries := drop_below oldest (entries sh), ackedAhead := drop_below oldest (ackedAhead sh),
      aheadVersion := aheadVersion sh + of_nat (length (ackedAhead sh) - length (drop_below oldest (ackedAhead sh))),
      corrupt := drop_below oldest (corrupt sh), committed := oldest - 1\<rparr>"
    have "shard_core s2" unfolding s2_def by (rule shard_core_skip [OF core c(1)])
    then have post: "advance_post s2 (snd (advanceCommittedLocked s2))"
      by (rule advanceCommittedLocked_spec(2) [OF _ prod.collapse [symmetric]])
    have out2: "sh' = snd (advanceCommittedLocked s2)"
      using out True c by (simp add: skipMissingBelowLocked_def p Let_def s2_def split_beta)
    have L: "length (drop_below oldest (ackedAhead sh)) \<le> length (ackedAhead sh)"
      "length (drop_below oldest (corrupt sh)) \<le> length (corrupt sh)"
      "length (drop_below oldest (entries sh)) \<le> length (entries sh)"
      by (simp_all add: drop_below_def om_filter_def)
    have "length (drop_below oldest (entries sh)) \<le> length (om_del (committed sh + 1) (entries sh))"
      unfolding drop_below_def om_del_def by (rule length_om_filter_mono) (use c in auto)
    with w L have "within_caps caps (snd (advanceCommittedLocked s2))"
      by (intro within_caps_advance [OF post]) (simp_all add: s2_def within_caps_def ahead_load_def)
    then show ?thesis by (simp add: out2)
  qed
qed

lemma within_caps_reserve:
  assumes inv: "shard_inv sh0" and eq: "reserveNextLocked now vis logTail sh0 = Some (res, sh')"
    and w0: "within_caps caps sh0"
  shows "within_caps caps sh'"
proof -
  obtain sh r where p: "purgeExpiredLocked now sh0 = (sh, r)" by fastforce
  note P = purge_spec [OF inv p] and w = within_caps_purge [OF inv p w0]
  show ?thesis
    using inv p eq
  proof (cases rule: reserveNext_cases)
    case (taken off)
    note R = reserveLocked_spec(5) [OF P(1) taken(1,2,4,5)] and wf = shard_coreD(1) [OF shard_inv_core [OF P(1)]]
    have new: "\<not> om_mem (entries sh) off" using taken(4) by (simp add: resolvedOrReservedLocked_def)
    have len: "length (entries sh') = Suc (length (entries sh))" using R wf new by (simp add: length_om_put)
    have heap: "length (expiry sh') = Suc (length (expiry sh))"
      using taken(1) by (auto simp: reserveLocked_def nextNonceLocked_def Let_def length_heap_push split: option.splits)
    have "int (ahead_load sh') \<le> capAckedAhead caps - 1 + capInFlight caps"
    proof (cases "aheadFullLocked sh")
      case True
      with taken(7) have "om_del (committed sh' + 1) (entries sh') = om_del (committed sh + 1) (entries sh)"
        using R wf by (intro om_ext) auto
      then show ?thesis using w R by (simp add: ahead_load_def within_caps_def)
    next
      case False
      then show ?thesis
        using w R taken(6) len length_del_le [of "committed sh' + 1" "entries sh'"]
        by (simp add: ahead_load_def within_caps_def aheadFullLocked_def)
    qed
    then show ?thesis using w R taken(6) len heap P(5) by (simp add: within_caps_def)
  qed (use w in simp_all)
qed

lemma within_caps_step:
  assumes "shard_step sh e sh'" and inv: "shard_inv sh" and w: "within_caps caps sh" and e: "\<And>c. e \<noteq> CapsEv c"
  shows "within_caps caps sh'"
  using assms(1)
  by cases (use inv w e in \<open>auto intro: within_caps_reserve within_caps_resolve within_caps_skip within_caps_extend
      within_caps_release within_caps_purge\<close>)

text \<open>
  C20. The memory of a partition is bounded. While its limits do not change, a shard never holds more than
  \<^verbatim>\<open>MaxInFlight\<close> leases, nor more than \<^verbatim>\<open>MaxAckedAhead - 1 + MaxInFlight\<close> offsets resolved ahead of the frontier,
  nor more than \<^verbatim>\<open>2 * MaxInFlight + 17\<close> slots in its expiry heap, though an ack is never refused.
\<close>

theorem shard_memory_bounded:
  assumes "runs shard_step (newPartitionShard src c caps) es sh"
    and "\<forall>e \<in> set es. \<forall>c. e \<noteq> CapsEv c" and "0 < capInFlight caps" and "0 < capAckedAhead caps"
  shows "int (length (entries sh)) \<le> capInFlight caps \<and>
    int (length (ackedAhead sh) + length (corrupt sh)) \<le> capAckedAhead caps - 1 + capInFlight caps \<and>
    int (length (expiry sh)) \<le> 2 * capInFlight caps + 17"
proof -
  have "within_caps caps sh" if "runs shard_step s es sh" "shard_inv s" "within_caps caps s" for s
    using that assms(2)
  proof (induction rule: runs.induct)
    case (runs_cons s e s' es s'')
    then show ?case using within_caps_step [of s e s' caps] shard_step_refines [of s e s'] by auto
  qed simp
  moreover have "within_caps caps (newPartitionShard src c caps)"
    using assms(3,4) by (simp add: within_caps_def ahead_load_def newPartitionShard_def om_del_def om_filter_def)
  ultimately have "within_caps caps sh" using assms(1) shard_inv_new by blast
  then show ?thesis by (simp add: within_caps_def ahead_load_def heapCompactSlack_def)
qed

theorem shard_memory_bounded_witness:
  "runs shard_step ex0 ex_run ex4 \<and> int (length (expiry ex4)) \<le> 2 * capInFlight ex_caps + 17"
  using shard_memory_bounded [of ex_src "-1" ex_caps ex_run ex4, folded ex0_def] ex_runs
  by (simp add: ex_run_def ex_caps_def)

subsection \<open>Wake-ups\<close>

text \<open>Whether a reservation against the shard, as it stands, would be served.\<close>

definition can_reserve :: "int \<Rightarrow> partitionShard \<Rightarrow> bool" where
  "can_reserve logTail sh \<longleftrightarrow> int (length (entries sh)) < maxInFlight sh \<and>
     (if aheadFullLocked sh then committed sh + 1 < logTail \<and> \<not> resolvedOrReservedLocked sh (committed sh + 1)
      else \<exists>x. committed sh < x \<and> x < logTail \<and> \<not> resolvedOrReservedLocked sh x)"

lemma can_reserve_purged:
  assumes "shard_inv sh0" and "purgeExpiredLocked now sh0 = (sh, 0)"
  shows "can_reserve logTail sh0 = can_reserve logTail sh"
proof -
  note P = purge_spec [OF assms]
  have "live_at now (entries sh0) = entries sh0"
    using P(3,4) unfolding live_at_def by (metis add_0 filter_True length_filter_less less_irrefl)
  then show ?thesis
    using P(2,3) by (simp add: can_reserve_def same_but_leases_def aheadFullLocked_def resolvedOrReservedLocked_def)
qed

lemma q_resolve_free:
  "(res, q') = q_resolve now off nonce q \<Longrightarrow> q_free q' x \<Longrightarrow> q_free (q_expire now q) x"
  by (auto simp: q_resolve_def q_free_def Let_def split: if_splits)

lemma wake_resolve:
  assumes inv: "shard_inv sh0" and eq: "resolveReservedLocked sel now off nonce sh0 = (res, sh', eff)"
    and can: "can_reserve logTail sh'" and quiet: "\<not> releaseCall eff"
  shows "can_reserve logTail sh0"
proof -
  obtain sh r where p: "purgeExpiredLocked now sh0 = (sh, r)" by fastforce
  note P = purge_spec [OF inv p]
  have r: "r = 0"
    using eq quiet by (auto simp: resolveReservedLocked_def p Let_def quiet_def split: if_splits prod.splits)
  have out: "sh' = fst (snd (resolveReservedLocked sel now off nonce sh0))"
    "eff = snd (snd (resolveReservedLocked sel now off nonce sh0))" using eq by simp_all
  note Q = resolve_refines [OF inv eq] and PQ = purge_refines [OF inv p]
  have free: "q_free (q_of sh') x \<Longrightarrow> q_free (q_of sh) x" for x
    using q_resolve_free [OF Q(2)] PQ by simp
  have "can_reserve logTail sh"
  proof (cases "handle_live sh off nonce")
    case False
    then show ?thesis using out can by (simp add: resolveReservedLocked_def p)
  next
    case True
    then have cap: "int (length (entries sh)) < maxInFlight sh"
      using out(2) quiet by (cases "off = committed sh + 1")
        (auto simp: resolveReservedLocked_def p Let_def not_le split: prod.splits)
    obtain x where x: "x < logTail" "q_free (q_of sh') x" "aheadFullLocked sh' \<Longrightarrow> x = committed sh' + 1"
      using can by (auto simp: can_reserve_def q_free_of split: if_splits)
    have "x = committed sh + 1" if "aheadFullLocked sh"
    proof -
      have ne: "off \<noteq> committed sh + 1"
        using out(2) quiet True that by (auto simp: resolveReservedLocked_def p Let_def split: prod.splits)
      have "length m \<le> length (om_put off () m)" if "om_wf m" for m using that by (simp add: length_om_put)
      then have "aheadFullLocked sh' \<and> committed sh' = committed sh"
        using out(1) True ne that shard_coreD(2,3) [OF shard_inv_core [OF P(1)]]
        by (cases sel) (force simp: resolveReservedLocked_def p Let_def park_def aheadFullLocked_def)+
      with x(3) show ?thesis by simp
    qed
    with cap x free [OF x(2)] show ?thesis by (auto simp: can_reserve_def q_free_of)
  qed
  with can_reserve_purged [OF inv] p r show ?thesis by simp
qed

lemma wake_extend:
  assumes inv: "shard_inv sh0" and eq: "extendHandleLocked now off nonce vis sh0 = (res, sh', eff)"
    and can: "can_reserve logTail sh'" and quiet: "\<not> releaseCall eff"
  shows "can_reserve logTail sh0"
proof -
  obtain sh r where p: "purgeExpiredLocked now sh0 = (sh, r)" by fastforce
  note wf = shard_coreD(1) [OF shard_inv_core [OF purge_spec(1) [OF inv p]]]
  have r: "r = 0" using eq quiet by (auto simp: extendHandleLocked_def p Let_def split: if_splits)
  have out: "sh' = fst (snd (extendHandleLocked now off nonce vis sh0))" using eq by simp
  have "can_reserve logTail sh' = can_reserve logTail sh"
    using handle_liveD [of sh off nonce] wf unfolding out
    by (auto simp: extendHandleLocked_def p Let_def can_reserve_def aheadFullLocked_def length_om_put
        resolvedOrReservedLocked_def)
  with can can_reserve_purged [OF inv] p r show ?thesis by simp
qed

lemma wake_release:
  assumes inv: "shard_inv sh0" and eq: "releaseHandleLocked now off nonce sh0 = (res, sh', eff)"
    and can: "can_reserve logTail sh'" and quiet: "\<not> releaseCall eff"
  shows "can_reserve logTail sh0"
proof -
  obtain sh r where p: "purgeExpiredLocked now sh0 = (sh, r)" by fastforce
  have "sh' = sh" "r = 0"
    using eq quiet by (auto simp: releaseHandleLocked_def p Let_def split: if_splits)
  with can can_reserve_purged [OF inv] p show ?thesis by simp
qed

text \<open>
  C21. A reservation is served exactly when, after the expired leases are dropped, the shard has room:
  a free lease slot and a free offset below the log tail, or, once the resolved-ahead set is full,
  the frontier's next offset.
\<close>

theorem reserve_served_iff:
  assumes "shard_inv sh" and "reserveNextLocked now vis logTail sh = Some (res, sh')"
  shows "Reserved res \<longleftrightarrow> can_reserve logTail (fst (purgeExpiredLocked now sh))"
proof -
  obtain s r where p: "purgeExpiredLocked now sh = (s, r)" by fastforce
  from assms(1) p assms(2) show ?thesis
  proof (cases rule: reserveNext_cases)
    case (taken off)
    note R = arg_cong [OF reserveLocked_spec(2) [OF purge_spec(1) [OF assms(1) p] taken(1,2,4,5)], of Reserved]
    with taken show ?thesis by (auto simp: p can_reserve_def)
  next
    case all
    then have "\<not> can_reserve logTail s"
      using all(3) [of "committed s + 1"] by (auto simp: can_reserve_def)
    with all(1) show ?thesis by (simp add: p skipped_def)
  qed (auto simp: p can_reserve_def skipped_def)
qed

theorem reserve_served_iff_witness: "shard_inv ex0 \<and> can_reserve 3 (fst (purgeExpiredLocked 0 ex0))"
proof -
  have i: "shard_inv ex0" unfolding ex0_def by (rule shard_inv_new)
  with reserve_served_iff [OF i ex_step1] show ?thesis by (simp add: ex_res_def)
qed

text \<open>
  C16. No wake-up is lost by an ack, a corrupt skip, an extension or a release: if a reservation could
  not have been served before the operation and can be after it, the operation calls the release
  notifier, on its error returns as well.
\<close>

theorem no_lost_wakeup:
  assumes "shard_inv sh" and "\<not> can_reserve logTail sh"
  shows "(let (res, sh', eff) = resolveReservedLocked sel now off nonce sh in can_reserve logTail sh' \<longrightarrow> releaseCall eff) \<and>
    (let (res, sh', eff) = extendHandleLocked now off nonce vis sh in can_reserve logTail sh' \<longrightarrow> releaseCall eff) \<and>
    (let (res, sh', eff) = releaseHandleLocked now off nonce sh in can_reserve logTail sh' \<longrightarrow> releaseCall eff)"
  unfolding Let_def
  using assms(2)
  by (intro conjI)
    (auto split: prod.splits dest: wake_resolve [OF assms(1)] wake_extend [OF assms(1)] wake_release [OF assms(1)])

definition ex_tight :: partitionShard where
  "ex_tight = setCapsLocked \<lparr>capInFlight = 1, capAckedAhead = 2\<rparr> ex1"

lemma ex_tight_inv: "shard_inv ex_tight"
  unfolding ex_tight_def
  by (rule shard_inv_caps) (use shard_step_refines [OF step_reserve [OF ex_step1]] shard_inv_new in \<open>simp add: ex0_def\<close>)

lemma ex_tight_full: "\<not> can_reserve 3 ex_tight"
  by (simp add: can_reserve_def ex_tight_def setCapsLocked_def ex1_def)

lemma heap_pop_one: "heap_pop [e] = (e, [])"
  by (simp add: heap_pop_def heap_down.simps [of _ 0 0] heap_swap_def)

lemma purge_loop_nil: "expiry sh = [] \<Longrightarrow> purge_loop now sh r = (sh, r)"
  by (simp add: purge_loop.simps)

lemma ex_tight_purge:
  "purgeExpiredLocked 5 ex_tight = (ex_tight\<lparr>entries := [], expiry := [], nextFree := 0\<rparr>, 1)"
  unfolding purgeExpiredLocked_def
  by (subst purge_loop.simps)
    (simp add: purge_loop_nil heap_pop_one live_slot_def freedLocked_def compactExpiryLocked_def ex_tight_def
      setCapsLocked_def ex1_def om_del_def om_filter_def Let_def)

lemma ex_tight_room: "can_reserve 3 (ex_tight\<lparr>entries := [], expiry := [], nextFree := 0\<rparr>)"
  unfolding can_reserve_def
  by (auto simp: ex_tight_def setCapsLocked_def ex1_def aheadFullLocked_def resolvedOrReservedLocked_def intro: exI [of _ 0])

theorem no_lost_wakeup_witness:
  "shard_inv ex_tight \<and> \<not> can_reserve 3 ex_tight \<and>
   (let (res, sh', eff) = resolveReservedLocked AckedAheadSet 5 0 1 ex_tight in can_reserve 3 sh' \<and> releaseCall eff)"
proof -
  have r: "resolveReservedLocked AckedAheadSet 5 0 1 ex_tight =
      (Inl ErrHandleStale, ex_tight\<lparr>entries := [], expiry := [], nextFree := 0\<rparr>, quiet\<lparr>releaseCall := True\<rparr>)"
    by (simp add: resolveReservedLocked_def ex_tight_purge handle_live_def)
  have "can_reserve 3 (fst (snd (resolveReservedLocked AckedAheadSet 5 0 1 ex_tight)))"
    unfolding r using ex_tight_room by simp
  with no_lost_wakeup [OF ex_tight_inv ex_tight_full, of AckedAheadSet 5 0 1] ex_tight_inv ex_tight_full
  show ?thesis by (auto simp: Let_def split: prod.splits)
qed

text \<open>
  C17. The retention skip is the exception. It drops the expired leases too, but where it then finds the
  presented handle stale it returns without calling the notifier: a shard that could serve nobody can
  serve a poller afterwards, and no poller is told.
\<close>

theorem skip_missing_loses_wakeup:
  "\<exists>sh now off nonce oldest logTail sh'. shard_inv sh \<and> off < oldest \<and> \<not> can_reserve logTail sh \<and>
     skipMissingBelowLocked now off nonce oldest sh = (Inl ErrHandleStale, sh', quiet) \<and>
     can_reserve logTail sh' \<and> \<not> releaseCall quiet"
proof -
  have "skipMissingBelowLocked 5 0 1 1 ex_tight =
      (Inl ErrHandleStale, ex_tight\<lparr>entries := [], expiry := [], nextFree := 0\<rparr>, quiet)"
    by (simp add: skipMissingBelowLocked_def ex_tight_purge handle_live_def)
  moreover have "\<not> releaseCall quiet" by (simp add: quiet_def)
  ultimately show ?thesis
    using ex_tight_inv ex_tight_full ex_tight_room
    by (intro exI [of _ ex_tight] exI [of _ 5] exI [of _ 0] exI [of _ 1] exI [of _ 3] exI) auto
qed

end
