(* ===== verification/InFlight.thy ===== *)
theory InFlight
  imports Shard_Capacity
begin

text \<open>
  The in-flight table of a node (\<^verbatim>\<open>src/internal/consumer/inflight.go\<close>, \<^verbatim>\<open>caps_follow.go\<close>, \<^verbatim>\<open>purger.go\<close> and the exported
  methods of \<^verbatim>\<open>reserve.go\<close> and \<^verbatim>\<open>extend.go\<close>): the shards of all partitions, their creation from persisted state,
  and the limits that follow the topic records.

  What the table calls but does not define is in the record \<open>wiring\<close>: the resolver of a topic's limits, the
  readers of the two persisted files, the version source, and which callbacks are registered. A call of a
  callback is an entry of the list of calls an operation returns. The clock reading and the fresh nonce
  source are arguments.
\<close>

subsection \<open>State\<close>

type_synonym shardKey = "string \<times> int"

record InFlight =
  shards :: "(shardKey, partitionShard) omap"
  capsSeen :: "(string, 64 word) omap"
  capsChecked :: "64 word"
  capsRetryAt :: int

record wiring =
  resolve :: "string \<Rightarrow> Caps result"
  recover :: "(string \<Rightarrow> int \<Rightarrow> int option) option"
  recoverAhead :: "(string \<Rightarrow> int \<Rightarrow> (int \<times> int list) option) option"
  topicVersion :: "(string \<Rightarrow> 64 word) option"
  metadataVersion :: "64 word"
  capsLocked :: bool
  unixNano :: int
  onCommit :: bool
  onRelease :: bool
  onDrop :: bool

datatype call = CommitCall string int int | ReleaseCall string int | DropCall string int

definition NewInFlight :: InFlight where
  "NewInFlight = \<lparr>shards = [], capsSeen = [], capsChecked = 0, capsRetryAt = 0\<rparr>"

definition shard :: "InFlight \<Rightarrow> string \<Rightarrow> int \<Rightarrow> partitionShard option" where
  "shard f t p = om_get (shards f) (t, p)"

definition put_shard :: "string \<Rightarrow> int \<Rightarrow> partitionShard \<Rightarrow> InFlight \<Rightarrow> InFlight" where
  "put_shard t p sh f = f\<lparr>shards := om_put (t, p) sh (shards f)\<rparr>"

definition notifyRelease :: "wiring \<Rightarrow> string \<Rightarrow> int \<Rightarrow> call list" where
  "notifyRelease w t p = (if onRelease w then [ReleaseCall t p] else [])"

definition calls_of :: "wiring \<Rightarrow> string \<Rightarrow> int \<Rightarrow> effects \<Rightarrow> call list" where
  "calls_of w t p eff =
     (case commitCall eff of Some c \<Rightarrow> if onCommit w then [CommitCall t p c] else [] | None \<Rightarrow> []) @
     (if releaseCall eff then notifyRelease w t p else [])"

subsection \<open>Limits\<close>

definition resolvedCaps :: "wiring \<Rightarrow> string \<Rightarrow> Caps result" where
  "resolvedCaps w t =
     (case resolve w t of
        Inl e \<Rightarrow> Inl e
      | Inr caps \<Rightarrow> if capInFlight caps \<le> 0 \<or> capAckedAhead caps \<le> 0 then Inl ErrCapsNotPositive else Inr caps)"

definition set_topic_caps :: "Caps \<Rightarrow> string \<Rightarrow> (shardKey, partitionShard) omap \<Rightarrow> (shardKey, partitionShard) omap" where
  "set_topic_caps caps t m = map (\<lambda>(k, sh). if fst k \<noteq> t then (k, sh) else (k, setCapsLocked caps sh)) m"

definition RefreshCaps :: "wiring \<Rightarrow> string \<Rightarrow> InFlight \<Rightarrow> unit result \<times> InFlight" where
  "RefreshCaps w t f =
     (case resolvedCaps w t of
        Inl e \<Rightarrow> (Inl e, f)
      | Inr caps \<Rightarrow> (Inr (), f\<lparr>shards := set_topic_caps caps t (shards f)\<rparr>))"

definition capsRetryAfter :: int where
  "capsRetryAfter = 1000000000"

text \<open>One topic of a pass: unchanged, refused (the pass failed), or refreshed and marked.\<close>

definition follow_one :: "wiring \<Rightarrow> (string \<Rightarrow> 64 word) \<Rightarrow> string \<Rightarrow> bool \<times> InFlight \<Rightarrow> bool \<times> InFlight" where
  "follow_one w v t st =
     (case st of (failed, f) \<Rightarrow>
        let cur = v t
        in if om_get (capsSeen f) t = Some cur then (failed, f)
           else case RefreshCaps w t f of
                  (Inl _, f') \<Rightarrow> (True, f')
                | (Inr _, f') \<Rightarrow> (failed, f'\<lparr>capsSeen := om_put t cur (capsSeen f')\<rparr>))"

definition followCaps :: "wiring \<Rightarrow> (string \<Rightarrow> 64 word) \<Rightarrow> 64 word \<Rightarrow> InFlight \<Rightarrow> InFlight" where
  "followCaps w v latest f =
     (if unixNano w < capsRetryAt f then f
      else if capsLocked w then f
      else case fold (follow_one w v) (om_keys (capsSeen f)) (False, f) of
             (True, f') \<Rightarrow> f'\<lparr>capsRetryAt := unixNano w + capsRetryAfter\<rparr>
           | (False, f') \<Rightarrow> f'\<lparr>capsChecked := latest\<rparr>)"

definition checkCapsVersioned :: "wiring \<Rightarrow> (string \<Rightarrow> 64 word) \<Rightarrow> InFlight \<Rightarrow> InFlight" where
  "checkCapsVersioned w v f =
     (let latest = metadataVersion w in if latest = capsChecked f then f else followCaps w v latest f)"

definition checkCaps :: "wiring \<Rightarrow> InFlight \<Rightarrow> InFlight" where
  "checkCaps w f = (case topicVersion w of None \<Rightarrow> f | Some v \<Rightarrow> checkCapsVersioned w v f)"

definition noteShardCaps :: "wiring \<Rightarrow> string \<Rightarrow> 64 word \<Rightarrow> InFlight \<Rightarrow> InFlight" where
  "noteShardCaps w t version f =
     (case topicVersion w of
        None \<Rightarrow> f
      | Some _ \<Rightarrow>
          (case om_get (capsSeen f) t of
             Some cur \<Rightarrow> if cur > version then snd (RefreshCaps w t f) else f
           | None \<Rightarrow> f\<lparr>capsSeen := om_put t version (capsSeen f)\<rparr>))"

definition forgetCaps :: "string \<Rightarrow> InFlight \<Rightarrow> InFlight" where
  "forgetCaps t f = f\<lparr>capsSeen := om_del t (capsSeen f)\<rparr>"

subsection \<open>Creating a shard\<close>

definition recovered_state :: "wiring \<Rightarrow> string \<Rightarrow> int \<Rightarrow> int \<times> int list" where
  "recovered_state w t p =
     (let c0 = (case recover w of
                  Some r \<Rightarrow> (case r t p of Some off \<Rightarrow> off | None \<Rightarrow> -1)
                | None \<Rightarrow> -1)
      in case recoverAhead w of
           Some r \<Rightarrow> (case r t p of Some (ac, offs) \<Rightarrow> (max c0 ac, offs) | None \<Rightarrow> (c0, []))
         | None \<Rightarrow> (c0, []))"

definition recoverShard ::
    "wiring \<Rightarrow> nonceSource \<Rightarrow> string \<Rightarrow> int \<Rightarrow> Caps \<Rightarrow> InFlight \<Rightarrow> partitionShard \<times> bool \<times> int \<times> int \<times> InFlight" where
  "recoverShard w src t p caps f =
     (let (c, ahead) = recovered_state w t p;
          (advanced, fresh) = seedAheadLocked ahead (newPartitionShard src c caps)
      in case shard f t p of
           Some existing \<Rightarrow> (existing, False, c, advanced, f)
         | None \<Rightarrow> (fresh, True, c, advanced, put_shard t p fresh f))"

definition shardOrCreate :: "wiring \<Rightarrow> nonceSource \<Rightarrow> string \<Rightarrow> int \<Rightarrow> InFlight \<Rightarrow> unit result \<times> InFlight \<times> call list" where
  "shardOrCreate w src t p f =
     (case shard f t p of
        Some _ \<Rightarrow> (Inr (), checkCaps w f, [])
      | None \<Rightarrow>
          (let version = (case topicVersion w of Some v \<Rightarrow> v t | None \<Rightarrow> 0)
           in case resolvedCaps w t of
                Inl e \<Rightarrow> (Inl e, f, [])
              | Inr caps \<Rightarrow>
                  (let (sh, stored, recovered, advanced, f1) = recoverShard w src t p caps f;
                       f2 = noteShardCaps w t version f1
                   in (Inr (), f2, if stored \<and> advanced > recovered \<and> onCommit w then [CommitCall t p advanced] else []))))"

subsection \<open>Serving consumers\<close>

text \<open>\<open>None\<close> is the case of a nonce source that never yields a positive value.\<close>

definition ReserveNext ::
    "wiring \<Rightarrow> nonceSource \<Rightarrow> int \<Rightarrow> string \<Rightarrow> int \<Rightarrow> int \<Rightarrow> int \<Rightarrow> InFlight \<Rightarrow>
     (ReserveResult result \<times> InFlight \<times> call list) option" where
  "ReserveNext w src now t p vis logTail f =
     (case shardOrCreate w src t p f of
        (Inl e, f1, cs) \<Rightarrow> Some (Inl e, f1, cs)
      | (Inr _, f1, cs) \<Rightarrow>
          (case shard f1 t p of
             None \<Rightarrow> None
           | Some sh \<Rightarrow>
               (case reserveNextLocked now vis logTail sh of
                  None \<Rightarrow> None
                | Some (res, sh') \<Rightarrow> Some (Inr res, put_shard t p sh' f1, cs))))"

text \<open>The frame the handle operations share: a partition without a shard has no live handle.\<close>

definition on_shard ::
    "wiring \<Rightarrow> string \<Rightarrow> int \<Rightarrow> (partitionShard \<Rightarrow> 'a result \<times> partitionShard \<times> effects) \<Rightarrow> InFlight \<Rightarrow>
     'a result \<times> InFlight \<times> call list" where
  "on_shard w t p op f =
     (case shard f t p of
        None \<Rightarrow> (Inl ErrHandleStale, f, [])
      | Some sh \<Rightarrow> (case op sh of (res, sh', eff) \<Rightarrow> (res, put_shard t p sh' f, calls_of w t p eff)))"

definition resolveReserved ::
    "wiring \<Rightarrow> int \<Rightarrow> string \<Rightarrow> int \<Rightarrow> int \<Rightarrow> int \<Rightarrow> aheadSel \<Rightarrow> InFlight \<Rightarrow> unit result \<times> InFlight \<times> call list" where
  "resolveReserved w now t p off nonce sel f = on_shard w t p (resolveReservedLocked sel now off nonce) f"

definition CommitHandle :: "wiring \<Rightarrow> int \<Rightarrow> string \<Rightarrow> int \<Rightarrow> int \<Rightarrow> int \<Rightarrow> InFlight \<Rightarrow> unit result \<times> InFlight \<times> call list" where
  "CommitHandle w now t p off nonce f = resolveReserved w now t p off nonce AckedAheadSet f"

definition SkipCorrupt :: "wiring \<Rightarrow> int \<Rightarrow> string \<Rightarrow> int \<Rightarrow> int \<Rightarrow> int \<Rightarrow> InFlight \<Rightarrow> unit result \<times> InFlight \<times> call list" where
  "SkipCorrupt w now t p off nonce f = resolveReserved w now t p off nonce CorruptSet f"

definition SkipMissingBelow ::
    "wiring \<Rightarrow> int \<Rightarrow> string \<Rightarrow> int \<Rightarrow> int \<Rightarrow> int \<Rightarrow> int \<Rightarrow> InFlight \<Rightarrow> int result \<times> InFlight \<times> call list" where
  "SkipMissingBelow w now t p off nonce oldest f =
     (if off \<ge> oldest then (Inl ErrInvalidSkip, f, [])
      else on_shard w t p (skipMissingBelowLocked now off nonce oldest) f)"

definition ExtendHandle ::
    "wiring \<Rightarrow> int \<Rightarrow> string \<Rightarrow> int \<Rightarrow> int \<Rightarrow> int \<Rightarrow> int \<Rightarrow> InFlight \<Rightarrow> int result \<times> InFlight \<times> call list" where
  "ExtendHandle w now t p off nonce vis f = on_shard w t p (extendHandleLocked now off nonce vis) f"

definition ReleaseHandle :: "wiring \<Rightarrow> int \<Rightarrow> string \<Rightarrow> int \<Rightarrow> int \<Rightarrow> int \<Rightarrow> InFlight \<Rightarrow> unit result \<times> InFlight \<times> call list" where
  "ReleaseHandle w now t p off nonce f = on_shard w t p (releaseHandleLocked now off nonce) f"

definition purgeAll :: "wiring \<Rightarrow> int \<Rightarrow> InFlight \<Rightarrow> InFlight \<times> call list" where
  "purgeAll w now f =
     (f\<lparr>shards := map (\<lambda>(k, sh). (k, fst (purgeExpiredLocked now sh))) (shards f)\<rparr>,
      concat (map (\<lambda>((t, p), sh). if snd (purgeExpiredLocked now sh) > 0 then notifyRelease w t p else []) (shards f)))"

subsection \<open>Reading\<close>

definition AheadSnapshot :: "InFlight \<Rightarrow> string \<Rightarrow> int \<Rightarrow> (int \<times> int list \<times> 64 word) option" where
  "AheadSnapshot f t p =
     (case shard f t p of
        None \<Rightarrow> None
      | Some sh \<Rightarrow> Some (committed sh, sort (om_keys (ackedAhead sh)), aheadVersion sh))"

definition Next :: "InFlight \<Rightarrow> string \<Rightarrow> int \<Rightarrow> int" where
  "Next f t p = (case shard f t p of None \<Rightarrow> 0 | Some sh \<Rightarrow> committed sh + 1)"

definition Reservable :: "InFlight \<Rightarrow> string \<Rightarrow> int \<Rightarrow> (int \<times> nat \<times> nat) option" where
  "Reservable f t p =
     (case shard f t p of
        None \<Rightarrow> None
      | Some sh \<Rightarrow> Some (committed sh + 1, length (entries sh), length (ackedAhead sh)))"

definition CommittedOffset :: "InFlight \<Rightarrow> string \<Rightarrow> int \<Rightarrow> int option" where
  "CommittedOffset f t p = (case shard f t p of None \<Rightarrow> None | Some sh \<Rightarrow> Some (committed sh))"

definition Snapshot :: "InFlight \<Rightarrow> string \<Rightarrow> int \<Rightarrow> nat \<times> nat" where
  "Snapshot f t p =
     (case shard f t p of None \<Rightarrow> (0, 0) | Some sh \<Rightarrow> (length (entries sh), length (ackedAhead sh)))"

subsection \<open>Seeding and dropping\<close>

definition Init :: "wiring \<Rightarrow> nonceSource \<Rightarrow> string \<Rightarrow> int \<Rightarrow> int \<Rightarrow> InFlight \<Rightarrow> unit result \<times> InFlight" where
  "Init w src t p c f =
     (case resolvedCaps w t of
        Inl e \<Rightarrow> (Inl e, f)
      | Inr caps \<Rightarrow> (Inr (), put_shard t p (newPartitionShard src c caps) f))"

definition DropTopic :: "wiring \<Rightarrow> string \<Rightarrow> InFlight \<Rightarrow> InFlight \<times> call list" where
  "DropTopic w t f =
     (let dropped = map snd (filter (\<lambda>k. fst k = t) (om_keys (shards f)));
          f1 = forgetCaps t (f\<lparr>shards := om_filter (\<lambda>k. fst k \<noteq> t) (shards f)\<rparr>)
      in (f1, if onDrop w then map (DropCall t) dropped else []))"

definition DropPartition :: "wiring \<Rightarrow> string \<Rightarrow> int \<Rightarrow> InFlight \<Rightarrow> InFlight \<times> call list" where
  "DropPartition w t p f =
     (f\<lparr>shards := om_del (t, p) (shards f)\<rparr>, if onDrop w then [DropCall t p] else [])"

end
