(* ===== verification/InFlight_Inv.thy ===== *)
theory InFlight_Inv
  imports InFlight
begin

text \<open>
  Properties of the in-flight table: the invariant every operation keeps, the isolation of
  partitions from each other, what a shard recovered after a crash may and may not forget, how
  limits follow the topic records, and what the purger announces.
\<close>

subsection \<open>The invariant\<close>

definition shard_ok :: "partitionShard \<Rightarrow> bool" where
  "shard_ok sh \<longleftrightarrow> shard_inv sh \<and> 0 < maxInFlight sh \<and> 0 < maxAckedAhead sh"

definition table_inv :: "InFlight \<Rightarrow> bool" where
  "table_inv f \<longleftrightarrow> om_wf (shards f) \<and> om_wf (capsSeen f) \<and> (\<forall>t p sh. shard f t p = Some sh \<longrightarrow> shard_ok sh)"

lemma table_invD:
  "table_inv f \<Longrightarrow> om_wf (shards f)" "table_inv f \<Longrightarrow> om_wf (capsSeen f)"
  "table_inv f \<Longrightarrow> shard f t p = Some sh \<Longrightarrow> shard_ok sh"
  by (auto simp: table_inv_def)

lemma shard_put [simp]:
  "shard (put_shard t p sh f) t' p' = (if (t', p') = (t, p) then Some sh else shard f t' p')"
  by (simp add: shard_def put_shard_def)

lemma capsSeen_put [simp]: "capsSeen (put_shard t p sh f) = capsSeen f"
  by (simp add: put_shard_def)

lemma table_inv_put: "table_inv f \<Longrightarrow> shard_ok sh \<Longrightarrow> table_inv (put_shard t p sh f)"
  unfolding table_inv_def shard_put capsSeen_put by (auto simp: put_shard_def)

subsection \<open>Steps of a shard inside the table\<close>

lemma advance_caps:
  "maxInFlight (snd (advanceCommittedLocked sh)) = maxInFlight sh"
  "maxAckedAhead (snd (advanceCommittedLocked sh)) = maxAckedAhead sh"
proof -
  have "maxInFlight (advance_loop sh) = maxInFlight sh \<and> maxAckedAhead (advance_loop sh) = maxAckedAhead sh"
    by (induction sh rule: advance_loop.induct) (subst (1 2) advance_loop.simps, simp add: Let_def)
  then show "maxInFlight (snd (advanceCommittedLocked sh)) = maxInFlight sh"
    "maxAckedAhead (snd (advanceCommittedLocked sh)) = maxAckedAhead sh"
    by (simp_all add: advanceCommittedLocked_def Let_def)
qed

lemma purge_caps:
  "maxInFlight (fst (purgeExpiredLocked now sh)) = maxInFlight sh"
  "maxAckedAhead (fst (purgeExpiredLocked now sh)) = maxAckedAhead sh"
proof -
  have "maxInFlight (fst (purge_loop now sh r)) = maxInFlight sh \<and>
      maxAckedAhead (fst (purge_loop now sh r)) = maxAckedAhead sh" for r
    by (induction now sh r rule: purge_loop.induct) (subst (1 2) purge_loop.simps, simp add: Let_def freedLocked_def)
  then show "maxInFlight (fst (purgeExpiredLocked now sh)) = maxInFlight sh"
    "maxAckedAhead (fst (purgeExpiredLocked now sh)) = maxAckedAhead sh"
    by (simp_all add: purgeExpiredLocked_def compactExpiryLocked_def split_beta)
qed

lemmas caps_const = advance_caps purge_caps

lemma reserve_caps:
  assumes "reserveNextLocked now vis logTail sh = Some (res, sh')"
  shows "maxInFlight sh' = maxInFlight sh" and "maxAckedAhead sh' = maxAckedAhead sh"
  using assms
  by (auto simp: reserveNextLocked_def reserveLocked_def nextNonceLocked_def Let_def purge_caps
      split: if_splits option.splits)

lemma resolve_caps:
  "maxInFlight (fst (snd (resolveReservedLocked sel now off nonce sh))) = maxInFlight sh"
  "maxAckedAhead (fst (snd (resolveReservedLocked sel now off nonce sh))) = maxAckedAhead sh"
  by (cases sel; simp add: resolveReservedLocked_def Let_def split_beta caps_const park_def)+

lemma step_caps_const:
  assumes "shard_step sh e sh'" and "\<And>c. e \<noteq> CapsEv c"
  shows "maxInFlight sh' = maxInFlight sh \<and> maxAckedAhead sh' = maxAckedAhead sh"
  using assms(1)
proof cases
  case step_reserve
  then show ?thesis using reserve_caps by blast
next
  case (step_resolve sel now off nonce res eff)
  then show ?thesis using resolve_caps [of sel now off nonce sh] by simp
next
  case (step_skip off oldest now nonce res eff)
  then have "sh' = fst (snd (skipMissingBelowLocked now off nonce oldest sh))" by simp
  then show ?thesis by (simp add: skipMissingBelowLocked_def Let_def split_beta caps_const)
next
  case (step_extend now off nonce vis res eff)
  then have "sh' = fst (snd (extendHandleLocked now off nonce vis sh))" by simp
  then show ?thesis by (simp add: extendHandleLocked_def Let_def split_beta caps_const)
next
  case (step_release now off nonce res eff)
  then have "sh' = fst (snd (releaseHandleLocked now off nonce sh))" by simp
  then show ?thesis by (simp add: releaseHandleLocked_def Let_def split_beta caps_const freedLocked_def)
next
  case (step_purge now r)
  then show ?thesis using purge_caps [of now sh] by simp
qed (use assms(2) in blast)

lemma shard_ok_step:
  assumes "shard_ok sh" and "shard_step sh e sh'" and "\<And>c. e \<noteq> CapsEv c"
  shows "shard_ok sh'"
  using assms(1) shard_step_refines [OF assms(2)] step_caps_const [OF assms(2,3)] by (simp add: shard_ok_def)

subsection \<open>Seeding a recovered shard\<close>

definition seedable :: "partitionShard \<Rightarrow> bool" where
  "seedable sh \<longleftrightarrow> shard_core sh \<and> entries sh = [] \<and> corrupt sh = []"

lemma seed_one_spec:
  assumes "seedable sh"
  shows "seedable (seed_one off sh)" and "committed (seed_one off sh) = committed sh"
    and "om_mem (ackedAhead (seed_one off sh)) x \<longleftrightarrow> om_mem (ackedAhead sh) x \<or> x = off \<and> committed sh < off"
    and "maxInFlight (seed_one off sh) = maxInFlight sh" "maxAckedAhead (seed_one off sh) = maxAckedAhead sh"
proof -
  note D = shard_coreD [of sh]
  have "shard_core (sh\<lparr>ackedAhead := om_put off () (ackedAhead sh), aheadVersion := v\<rparr>)" (is "shard_core ?s")
    if off: "committed sh < off" for v
  proof -
    have core: "shard_core sh" and e: "entries sh = []" "corrupt sh = []" using assms by (simp_all add: seedable_def)
    have ror: "resolvedOrReservedLocked ?s x \<longleftrightarrow> resolvedOrReservedLocked sh x \<or> x = off" for x
      by (auto simp: resolvedOrReservedLocked_def)
    show ?thesis
      by (rule shard_coreI; (unfold ror)?) (use D [OF core] e off in \<open>auto simp: heap_ok_def\<close>)
  qed
  with assms show "seedable (seed_one off sh)" by (simp add: seed_one_def seedable_def)
  show "committed (seed_one off sh) = committed sh"
    "om_mem (ackedAhead (seed_one off sh)) x \<longleftrightarrow> om_mem (ackedAhead sh) x \<or> x = off \<and> committed sh < off"
    "maxInFlight (seed_one off sh) = maxInFlight sh" "maxAckedAhead (seed_one off sh) = maxAckedAhead sh"
    by (auto simp: seed_one_def)
qed

lemma seed_fold_spec:
  assumes "seedable sh"
  shows "seedable (fold seed_one offs sh) \<and> committed (fold seed_one offs sh) = committed sh \<and>
    (\<forall>x. om_mem (ackedAhead (fold seed_one offs sh)) x \<longleftrightarrow> om_mem (ackedAhead sh) x \<or> x \<in> set offs \<and> committed sh < x) \<and>
    maxInFlight (fold seed_one offs sh) = maxInFlight sh \<and> maxAckedAhead (fold seed_one offs sh) = maxAckedAhead sh"
  using assms
proof (induction offs arbitrary: sh)
  case (Cons off offs)
  from Cons.IH [OF seed_one_spec(1) [OF Cons.prems, of off]] show ?case
    by (auto simp: seed_one_spec [OF Cons.prems])
qed simp

lemma seed_new_spec:
  assumes "seedAheadLocked offs (newPartitionShard src c caps) = (adv, sh)"
  shows "shard_inv sh" and "entries sh = []" and "corrupt sh = []" and "adv = committed sh"
    and "x \<in> resolved (q_of sh) \<longleftrightarrow> x \<le> c \<or> x \<in> set offs"
    and "maxInFlight sh = capInFlight caps" "maxAckedAhead sh = capAckedAhead caps"
proof -
  let ?new = "newPartitionShard src c caps"
  have "seedable ?new"
    using shard_inv_core [OF shard_inv_new] by (simp add: seedable_def newPartitionShard_def)
  note F = seed_fold_spec [OF this, of offs]
  define s where "s = fold seed_one offs ?new"
  have adv: "advanceCommittedLocked s = (adv, sh)" using assms by (simp add: seedAheadLocked_def s_def)
  have s: "shard_core s" "entries s = []" "corrupt s = []" "committed s = c"
    "om_mem (ackedAhead s) y \<longleftrightarrow> y \<in> set offs \<and> c < y"
    "maxInFlight s = capInFlight caps" "maxAckedAhead s = capAckedAhead caps" for y
    using F by (simp_all add: s_def seedable_def newPartitionShard_def)
  note A = advanceCommittedLocked_spec [OF s(1) adv]
  note P = advance_postD [OF A(2)]
  show "shard_inv sh" "adv = committed sh" by (fact A)+
  show "entries sh = []" "corrupt sh = []" using s(2,3) by (simp_all add: P(4,5) om_filter_def)
  show "maxInFlight sh = capInFlight caps" "maxAckedAhead sh = capAckedAhead caps" using s(6,7) P(8,9) by simp_all
  have "x \<in> resolved (q_of sh) \<longleftrightarrow> x \<in> resolved (q_of s)" using advance_refines [OF A(2)] by simp
  also have "\<dots> \<longleftrightarrow> x \<le> c \<or> x \<in> set offs" by (simp only: q_of_sel s(3-5)) auto
  finally show "x \<in> resolved (q_of sh) \<longleftrightarrow> x \<le> c \<or> x \<in> set offs" .
qed

subsection \<open>Limits\<close>

lemma resolvedCaps_pos: "resolvedCaps w t = Inr caps \<Longrightarrow> 0 < capInFlight caps \<and> 0 < capAckedAhead caps"
  by (auto simp: resolvedCaps_def split: sum.splits if_splits)

lemma get_set_topic_caps:
  "om_get (set_topic_caps caps t m) k =
     (if fst k = t then map_option (setCapsLocked caps) (om_get m k) else om_get m k)"
  by (induction m) (auto simp: set_topic_caps_def)

lemma keys_set_topic_caps: "om_keys (set_topic_caps caps t m) = om_keys m"
  by (induction m) (auto simp: set_topic_caps_def om_keys_def)

text \<open>What an operation on the limits leaves of a table: everything but the limits and their bookkeeping.\<close>

definition same_queues :: "InFlight \<Rightarrow> InFlight \<Rightarrow> bool" where
  "same_queues f f' \<longleftrightarrow> (\<forall>t p. map_option q_of (shard f' t p) = map_option q_of (shard f t p))"

lemma same_queues_refl [simp]: "same_queues f f"
  by (simp add: same_queues_def)

lemma same_queues_trans: "same_queues f g \<Longrightarrow> same_queues g h \<Longrightarrow> same_queues f h"
  by (simp add: same_queues_def)

lemma refresh_spec:
  assumes "RefreshCaps w t f = (r, f')" and "table_inv f"
  shows "table_inv f'" and "same_queues f f'" and "capsSeen f' = capsSeen f"
    and "t' \<noteq> t \<Longrightarrow> shard f' t' p = shard f t' p"
    and "r = Inr () \<Longrightarrow> \<exists>caps. resolvedCaps w t = Inr caps \<and>
          (\<forall>p sh. shard f' t p = Some sh \<longrightarrow> maxInFlight sh = capInFlight caps \<and> maxAckedAhead sh = capAckedAhead caps)"
proof -
  have "table_inv f' \<and> same_queues f f' \<and> capsSeen f' = capsSeen f \<and>
    (\<forall>t' p. t' \<noteq> t \<longrightarrow> shard f' t' p = shard f t' p) \<and>
    (r = Inr () \<longrightarrow> (\<exists>caps. resolvedCaps w t = Inr caps \<and>
      (\<forall>p sh. shard f' t p = Some sh \<longrightarrow> maxInFlight sh = capInFlight caps \<and> maxAckedAhead sh = capAckedAhead caps)))"
  proof (cases "resolvedCaps w t")
    case (Inl e)
    with assms show ?thesis by (auto simp: RefreshCaps_def)
  next
    case (Inr caps)
    then have f': "f' = f\<lparr>shards := set_topic_caps caps t (shards f)\<rparr>" using assms(1) by (simp add: RefreshCaps_def)
    have sh: "shard f' t' p = (if t' = t then map_option (setCapsLocked caps) (shard f t' p) else shard f t' p)" for t' p
      by (simp add: f' shard_def get_set_topic_caps)
    have "table_inv f'"
      using assms(2) resolvedCaps_pos [OF Inr] shard_inv_caps
      unfolding table_inv_def sh shard_ok_def
      by (auto simp: f' om_wf_def keys_set_topic_caps setCapsLocked_def split: if_splits)
    moreover have "capsSeen f' = capsSeen f" by (simp add: f')
    moreover have "same_queues f f'" by (simp add: same_queues_def sh option.map_comp comp_def)
    ultimately show ?thesis using Inr unfolding sh by (auto simp: setCapsLocked_def)
  qed
  then show "table_inv f'" and "same_queues f f'" and "capsSeen f' = capsSeen f"
    and "t' \<noteq> t \<Longrightarrow> shard f' t' p = shard f t' p"
    and "r = Inr () \<Longrightarrow> \<exists>caps. resolvedCaps w t = Inr caps \<and>
          (\<forall>p sh. shard f' t p = Some sh \<longrightarrow> maxInFlight sh = capInFlight caps \<and> maxAckedAhead sh = capAckedAhead caps)"
    by blast+
qed

text \<open>
  One topic of a pass. A topic is \<open>settled\<close> when its recorded version is the current one and, if the pass had to
  refresh it, its shards have the limits the resolver gives.
\<close>

definition settled :: "wiring \<Rightarrow> (string \<Rightarrow> 64 word) \<Rightarrow> InFlight \<Rightarrow> InFlight \<Rightarrow> string \<Rightarrow> bool" where
  "settled w v f f' t \<longleftrightarrow> om_get (capsSeen f') t = Some (v t) \<and>
     (om_get (capsSeen f) t \<noteq> Some (v t) \<longrightarrow>
        (\<exists>caps. resolvedCaps w t = Inr caps \<and>
          (\<forall>p sh. shard f' t p = Some sh \<longrightarrow> maxInFlight sh = capInFlight caps \<and> maxAckedAhead sh = capAckedAhead caps)))"

lemma follow_one_spec:
  assumes "follow_one w v t (b, f) = (b', f')" and "table_inv f"
  shows "table_inv f'" "same_queues f f'" "b \<Longrightarrow> b'" "\<not> b' \<Longrightarrow> settled w v f f' t"
    and "t' \<noteq> t \<Longrightarrow> shard f' t' p = shard f t' p \<and> om_get (capsSeen f') t' = om_get (capsSeen f) t'"
proof -
  obtain r g where R: "RefreshCaps w t f = (r, g)" by fastforce
  note S = refresh_spec [OF R assms(2)]
  have up: "table_inv (g\<lparr>capsSeen := om_put t x (capsSeen g)\<rparr>)" "same_queues f (g\<lparr>capsSeen := om_put t x (capsSeen g)\<rparr>)" for x
    using S(1,2) by (simp_all add: table_inv_def same_queues_def shard_def)
  have "table_inv f' \<and> same_queues f f' \<and> (b \<longrightarrow> b') \<and> (\<not> b' \<longrightarrow> settled w v f f' t) \<and>
    (\<forall>t' p. t' \<noteq> t \<longrightarrow> shard f' t' p = shard f t' p \<and> om_get (capsSeen f') t' = om_get (capsSeen f) t')"
  proof (cases "om_get (capsSeen f) t = Some (v t)")
    case True
    then show ?thesis using assms by (auto simp: follow_one_def settled_def)
  next
    case False
    show ?thesis
    proof (cases r)
      case (Inl e)
      then show ?thesis using assms(1) False R S by (auto simp: follow_one_def)
    next
      case (Inr u)
      then have f': "f' = g\<lparr>capsSeen := om_put t (v t) (capsSeen g)\<rparr>" "b' = b"
        using assms(1) False R by (simp_all add: follow_one_def)
      have sh: "shard f' t' p = shard g t' p" for t' p by (simp add: f' shard_def)
      have "settled w v f f' t" using S(5) Inr by (simp add: settled_def sh) (simp add: f')
      then show ?thesis using up S(3,4) unfolding sh by (simp add: f')
    qed
  qed
  then show "table_inv f'" "same_queues f f'" "b \<Longrightarrow> b'" "\<not> b' \<Longrightarrow> settled w v f f' t"
    and "t' \<noteq> t \<Longrightarrow> shard f' t' p = shard f t' p \<and> om_get (capsSeen f') t' = om_get (capsSeen f) t'"
    by blast+
qed

lemma follow_fold_spec:
  assumes "fold (follow_one w v) ts (b, f) = (b', f')" and "table_inv f" and "distinct ts"
  shows "table_inv f' \<and> same_queues f f' \<and> (b \<longrightarrow> b') \<and> (\<not> b' \<longrightarrow> (\<forall>t \<in> set ts. settled w v f f' t)) \<and>
    (\<forall>t p. t \<notin> set ts \<longrightarrow> shard f' t p = shard f t p \<and> om_get (capsSeen f') t = om_get (capsSeen f) t)"
  using assms
proof (induction ts arbitrary: b f)
  case (Cons t ts)
  obtain b1 f1 where one: "follow_one w v t (b, f) = (b1, f1)" by fastforce
  note O = follow_one_spec [OF one Cons.prems(2)]
  have I: "table_inv f' \<and> same_queues f1 f' \<and> (b1 \<longrightarrow> b') \<and> (\<not> b' \<longrightarrow> (\<forall>t \<in> set ts. settled w v f1 f' t)) \<and>
    (\<forall>t p. t \<notin> set ts \<longrightarrow> shard f' t p = shard f1 t p \<and> om_get (capsSeen f') t = om_get (capsSeen f1) t)"
    using Cons.prems(1,3) one by (intro Cons.IH [OF _ O(1)]) simp_all
  have "settled w v f f' t" if "\<not> b'"
    using O(4) I that Cons.prems(3) by (auto simp: settled_def)
  moreover have "settled w v f f' t'" if "t' \<in> set ts" "\<not> b'" for t'
  proof -
    have "t' \<noteq> t" using that(1) Cons.prems(3) by auto
    then have "om_get (capsSeen f1) t' = om_get (capsSeen f) t'" using O(5) by blast
    with I that show ?thesis by (simp add: settled_def)
  qed
  ultimately show ?case
    using I O same_queues_trans [OF O(2)] by auto
qed simp

lemma followCaps_spec:
  assumes "table_inv f"
  shows "table_inv (followCaps w v latest f)" and "same_queues f (followCaps w v latest f)"
    and "capsChecked (followCaps w v latest f) = latest \<Longrightarrow> capsChecked f \<noteq> latest \<Longrightarrow> om_mem (capsSeen f) t \<Longrightarrow>
         settled w v f (followCaps w v latest f) t"
proof -
  obtain b g where F: "fold (follow_one w v) (om_keys (capsSeen f)) (False, f) = (b, g)" by fastforce
  note S = follow_fold_spec [OF F assms om_wf_distinct [OF table_invD(2) [OF assms]]]
  have cc: "capsChecked (snd (follow_one w v x st)) = capsChecked (snd st)" for x st
    by (cases st) (simp add: follow_one_def RefreshCaps_def Let_def split: sum.splits)
  have "capsChecked (snd (fold (follow_one w v) ts st)) = capsChecked (snd st)" for ts st
    by (induction ts arbitrary: st) (simp_all add: cc)
  then have C: "capsChecked g = capsChecked f" using F by (metis snd_conv)
  have up: "table_inv (g\<lparr>capsChecked := c\<rparr>)" "same_queues f (g\<lparr>capsChecked := c\<rparr>)"
    "settled w v f (g\<lparr>capsChecked := c\<rparr>) = settled w v f g"
    "table_inv (g\<lparr>capsRetryAt := d\<rparr>)" "same_queues f (g\<lparr>capsRetryAt := d\<rparr>)" for c d
    using S by (simp_all add: table_inv_def same_queues_def shard_def settled_def fun_eq_iff)
  have "followCaps w v latest f = f \<or> \<not> b \<and> followCaps w v latest f = g\<lparr>capsChecked := latest\<rparr> \<or>
      followCaps w v latest f = g\<lparr>capsRetryAt := unixNano w + capsRetryAfter\<rparr>"
    using F by (cases b) (simp_all add: followCaps_def)
  then show "table_inv (followCaps w v latest f)" and "same_queues f (followCaps w v latest f)"
    and "capsChecked (followCaps w v latest f) = latest \<Longrightarrow> capsChecked f \<noteq> latest \<Longrightarrow> om_mem (capsSeen f) t \<Longrightarrow>
         settled w v f (followCaps w v latest f) t"
    using assms up S C by (auto simp: mem_om_keys)
qed

lemma checkCaps_spec:
  assumes "table_inv f"
  shows "table_inv (checkCaps w f)" and "same_queues f (checkCaps w f)"
  using followCaps_spec(1,2) [OF assms] assms
  by (simp_all add: checkCaps_def checkCapsVersioned_def Let_def split: option.splits)

lemma noteShardCaps_spec:
  assumes "table_inv f"
  shows "table_inv (noteShardCaps w t v f)" and "same_queues f (noteShardCaps w t v f)"
proof -
  have up: "table_inv (f\<lparr>capsSeen := om_put t v (capsSeen f)\<rparr>)" "same_queues f (f\<lparr>capsSeen := om_put t v (capsSeen f)\<rparr>)"
    using assms by (simp_all add: table_inv_def same_queues_def shard_def)
  note R = refresh_spec [OF prod.collapse [symmetric] assms]
  show "table_inv (noteShardCaps w t v f)" "same_queues f (noteShardCaps w t v f)"
    using assms up R(1,2) by (simp_all add: noteShardCaps_def split: option.splits)
qed

subsection \<open>Creating and using a shard\<close>

lemma recoverShard_new:
  assumes "shard f t p = None" and "recoverShard w src t p caps f = (sh, stored, c, adv, f')"
  shows "seedAheadLocked (snd (recovered_state w t p)) (newPartitionShard src (fst (recovered_state w t p)) caps) = (adv, sh)"
    and "f' = put_shard t p sh f" and "stored" and "c = fst (recovered_state w t p)"
  using assms by (auto simp: recoverShard_def split_beta prod_eq_iff)

lemma create_spec:
  assumes "table_inv f" and "shard f t p = None" and "shardOrCreate w src t p f = (Inr u, f', cs)"
  shows "table_inv f'" and "\<exists>sh. shard f' t p = Some sh \<and> shard_inv sh \<and> entries sh = [] \<and>
      q_of sh = \<lparr>resolved = {..fst (recovered_state w t p)} \<union> set (snd (recovered_state w t p)), leases = Map.empty\<rparr>"
    and "(t', p') \<noteq> (t, p) \<Longrightarrow> map_option q_of (shard f' t' p') = map_option q_of (shard f t' p')"
proof -
  obtain caps where caps: "resolvedCaps w t = Inr caps"
    using assms(2,3) by (auto simp: shardOrCreate_def split: sum.splits)
  obtain sh stored c adv f1 where r: "recoverShard w src t p caps f = (sh, stored, c, adv, f1)" by (metis prod_cases5)
  note N = recoverShard_new [OF assms(2) r]
  note S = seed_new_spec [OF N(1)]
  have f': "f' = noteShardCaps w t (case topicVersion w of Some v \<Rightarrow> v t | None \<Rightarrow> 0) f1"
    using assms(2,3) caps r by (simp add: shardOrCreate_def Let_def)
  have "shard_ok sh" using S resolvedCaps_pos [OF caps] by (simp add: shard_ok_def)
  then have t1: "table_inv f1" using table_inv_put [OF assms(1)] by (simp add: N(2))
  show t2: "table_inv f'" unfolding f' by (rule noteShardCaps_spec [OF t1])
  have q: "map_option q_of (shard f' t' p') = map_option q_of (shard f1 t' p')" for t' p'
    using noteShardCaps_spec(2) [OF t1] unfolding f' same_queues_def by blast
  from q [of t p] obtain sh' where sh': "shard f' t p = Some sh'" "q_of sh' = q_of sh" by (auto simp: N(2))
  have "q_of sh = \<lparr>resolved = {..fst (recovered_state w t p)} \<union> set (snd (recovered_state w t p)), leases = Map.empty\<rparr>"
    by (rule queue_eqI) (simp_all only: S(5) q_of_sel(2) S(2), auto)
  moreover have "shard_inv sh'" using table_invD(3) [OF t2 sh'(1)] by (simp add: shard_ok_def)
  moreover have "entries sh' = []" using arg_cong [OF sh'(2), of leases] S(2) by simp
  ultimately show "\<exists>sh. shard f' t p = Some sh \<and> shard_inv sh \<and> entries sh = [] \<and>
      q_of sh = \<lparr>resolved = {..fst (recovered_state w t p)} \<union> set (snd (recovered_state w t p)), leases = Map.empty\<rparr>"
    using sh' by auto
  show "(t', p') \<noteq> (t, p) \<Longrightarrow> map_option q_of (shard f' t' p') = map_option q_of (shard f t' p')"
    by (auto simp: q N(2))
qed

text \<open>A step of one partition: the invariant holds after it and every other shard is untouched.\<close>

definition touches_only :: "string \<Rightarrow> int \<Rightarrow> InFlight \<Rightarrow> InFlight \<Rightarrow> bool" where
  "touches_only t p f f' \<longleftrightarrow> table_inv f' \<and> (\<forall>t' p'. (t', p') \<noteq> (t, p) \<longrightarrow> shard f' t' p' = shard f t' p')"

lemma on_shard_spec:
  assumes "on_shard w t p op f = (res, f', cs)" and "table_inv f"
    and step: "\<And>sh r sh' eff. op sh = (r, sh', eff) \<Longrightarrow> \<exists>e. shard_step sh e sh' \<and> (\<forall>c. e \<noteq> CapsEv c)"
  shows "touches_only t p f f'"
proof (cases "shard f t p")
  case None
  then show ?thesis using assms(1,2) by (simp add: on_shard_def touches_only_def)
next
  case (Some sh)
  obtain r sh' eff where o: "op sh = (r, sh', eff)" by (metis prod_cases3)
  from step [OF o] obtain e where "shard_step sh e sh'" "\<And>c. e \<noteq> CapsEv c" by blast
  from shard_ok_step [OF table_invD(3) [OF assms(2) Some] this] have "shard_ok sh'" .
  moreover have "f' = put_shard t p sh' f" using assms(1) Some o by (simp add: on_shard_def)
  ultimately show ?thesis using table_inv_put [OF assms(2)] by (auto simp: touches_only_def)
qed

lemma handle_ops_step:
  "resolveReservedLocked sel now off nonce sh = (r, sh', eff) \<Longrightarrow> \<exists>e. shard_step sh e sh' \<and> (\<forall>c. e \<noteq> CapsEv c)"
  "off < oldest \<Longrightarrow> skipMissingBelowLocked now off nonce oldest sh = (r2, sh', eff) \<Longrightarrow>
     \<exists>e. shard_step sh e sh' \<and> (\<forall>c. e \<noteq> CapsEv c)"
  "extendHandleLocked now off nonce vis sh = (r2, sh', eff) \<Longrightarrow> \<exists>e. shard_step sh e sh' \<and> (\<forall>c. e \<noteq> CapsEv c)"
  "releaseHandleLocked now off nonce sh = (r, sh', eff) \<Longrightarrow> \<exists>e. shard_step sh e sh' \<and> (\<forall>c. e \<noteq> CapsEv c)"
  by (blast dest: step_resolve step_skip step_extend step_release)+

lemma touches_onlyD:
  "touches_only t p f f' \<Longrightarrow> table_inv f'"
  "touches_only t p f f' \<Longrightarrow> (t', p') \<noteq> (t, p) \<Longrightarrow> shard f' t' p' = shard f t' p'"
  by (auto simp: touches_only_def)

lemma handle_ops_frame:
  assumes "table_inv f"
  shows "CommitHandle w now t p off nonce f = (r, f', cs) \<Longrightarrow> touches_only t p f f'"
    and "SkipCorrupt w now t p off nonce f = (r, f', cs) \<Longrightarrow> touches_only t p f f'"
    and "SkipMissingBelow w now t p off nonce oldest f = (r2, f', cs) \<Longrightarrow> touches_only t p f f'"
    and "ExtendHandle w now t p off nonce vis f = (r2, f', cs) \<Longrightarrow> touches_only t p f f'"
    and "ReleaseHandle w now t p off nonce f = (r, f', cs) \<Longrightarrow> touches_only t p f f'"
proof -
  show "CommitHandle w now t p off nonce f = (r, f', cs) \<Longrightarrow> touches_only t p f f'"
    "SkipCorrupt w now t p off nonce f = (r, f', cs) \<Longrightarrow> touches_only t p f f'"
    "ExtendHandle w now t p off nonce vis f = (r2, f', cs) \<Longrightarrow> touches_only t p f f'"
    "ReleaseHandle w now t p off nonce f = (r, f', cs) \<Longrightarrow> touches_only t p f f'"
    unfolding CommitHandle_def SkipCorrupt_def resolveReserved_def ExtendHandle_def ReleaseHandle_def
    by (rule on_shard_spec [OF _ assms], assumption, rule handle_ops_step, assumption)+
  assume m: "SkipMissingBelow w now t p off nonce oldest f = (r2, f', cs)"
  show "touches_only t p f f'"
  proof (cases "off < oldest")
    case True
    with m have "on_shard w t p (skipMissingBelowLocked now off nonce oldest) f = (r2, f', cs)"
      by (simp add: SkipMissingBelow_def)
    then show ?thesis by (rule on_shard_spec [OF _ assms]) (rule handle_ops_step(2) [OF True])
  qed (use m assms in \<open>simp add: SkipMissingBelow_def touches_only_def\<close>)
qed

lemma purgeAll_shard: "shard (fst (purgeAll w now f)) t p = map_option (\<lambda>sh. fst (purgeExpiredLocked now sh)) (shard f t p)"
proof -
  have "map_of (map (\<lambda>(k, sh). (k, fst (purgeExpiredLocked now sh))) m) (t, p) =
        map_option (\<lambda>sh. fst (purgeExpiredLocked now sh)) (om_get m (t, p))" for m
    by (induction m) auto
  then show ?thesis by (simp add: purgeAll_def shard_def)
qed

lemma table_inv_purgeAll:
  assumes "table_inv f"
  shows "table_inv (fst (purgeAll w now f))"
proof -
  have "om_keys (map (\<lambda>(k, sh). (k, fst (purgeExpiredLocked now sh))) m) = om_keys m" for m :: "(shardKey, partitionShard) omap"
    by (induction m) (auto simp: om_keys_def)
  then have "om_wf (shards (fst (purgeAll w now f)))" using assms by (simp add: purgeAll_def table_inv_def om_wf_def)
  moreover have "shard_ok (fst (purgeExpiredLocked now sh))" if "shard_ok sh" for sh
    by (rule shard_ok_step [OF that step_purge [OF prod.collapse [symmetric]]]) simp
  moreover have "om_wf (capsSeen (fst (purgeAll w now f)))" using assms by (simp add: purgeAll_def table_inv_def)
  ultimately show ?thesis using assms unfolding table_inv_def purgeAll_shard by auto
qed

lemma reserve_table_spec:
  assumes "table_inv f" and "ReserveNext w src now t p vis logTail f = Some (res, f', cs)"
  shows "table_inv f'" and "(t', p') \<noteq> (t, p) \<Longrightarrow> map_option q_of (shard f' t' p') = map_option q_of (shard f t' p')"
proof -
  obtain r f1 c1 where s: "shardOrCreate w src t p f = (r, f1, c1)" by (metis prod_cases3)
  have f1: "table_inv f1 \<and> ((t', p') \<noteq> (t, p) \<longrightarrow> map_option q_of (shard f1 t' p') = map_option q_of (shard f t' p'))"
  proof (cases "shard f t p")
    case None
    then show ?thesis
    proof (cases r)
      case (Inl e)
      with None s have "f1 = f" by (auto simp: shardOrCreate_def Let_def split: sum.splits prod.splits)
      then show ?thesis using assms(1) by simp
    next
      case (Inr u)
      then show ?thesis using create_spec(1,3) [OF assms(1) None, of w src u f1 c1] s by blast
    qed
  next
    case (Some sh)
    then have "f1 = checkCaps w f" using s by (simp add: shardOrCreate_def)
    then show ?thesis using checkCaps_spec [OF assms(1)] by (simp add: same_queues_def)
  qed
  have "f' = f1 \<or> (\<exists>sh sh' x. shard f1 t p = Some sh \<and> reserveNextLocked now vis logTail sh = Some (x, sh') \<and> f' = put_shard t p sh' f1)"
    using assms(2) s by (auto simp: ReserveNext_def split: sum.splits option.splits)
  then have "table_inv f' \<and> ((t', p') \<noteq> (t, p) \<longrightarrow> map_option q_of (shard f' t' p') = map_option q_of (shard f t' p'))"
  proof
    assume "\<exists>sh sh' x. shard f1 t p = Some sh \<and> reserveNextLocked now vis logTail sh = Some (x, sh') \<and> f' = put_shard t p sh' f1"
    then obtain sh sh' x where o: "shard f1 t p = Some sh" "reserveNextLocked now vis logTail sh = Some (x, sh')"
      "f' = put_shard t p sh' f1" by blast
    have "shard_ok sh'"
      by (rule shard_ok_step [OF table_invD(3) [OF conjunct1 [OF f1] o(1)] step_reserve [OF o(2)]]) simp
    then show ?thesis using table_inv_put f1 o(3) by auto
  qed (use f1 in blast)
  then show "table_inv f'" and "(t', p') \<noteq> (t, p) \<Longrightarrow> map_option q_of (shard f' t' p') = map_option q_of (shard f t' p')"
    by blast+
qed

subsection \<open>Reachable tables\<close>

inductive table_step :: "InFlight \<Rightarrow> InFlight \<Rightarrow> bool" where
  t_reserve: "ReserveNext w src now t p vis logTail f = Some (r, f', cs) \<Longrightarrow> table_step f f'"
| t_commit: "CommitHandle w now t p off nonce f = (r1, f', cs) \<Longrightarrow> table_step f f'"
| t_corrupt: "SkipCorrupt w now t p off nonce f = (r1, f', cs) \<Longrightarrow> table_step f f'"
| t_missing: "SkipMissingBelow w now t p off nonce oldest f = (r2, f', cs) \<Longrightarrow> table_step f f'"
| t_extend: "ExtendHandle w now t p off nonce vis f = (r2, f', cs) \<Longrightarrow> table_step f f'"
| t_release: "ReleaseHandle w now t p off nonce f = (r1, f', cs) \<Longrightarrow> table_step f f'"
| t_purge: "purgeAll w now f = (f', cs) \<Longrightarrow> table_step f f'"
| t_refresh: "RefreshCaps w t f = (r1, f') \<Longrightarrow> table_step f f'"
| t_init: "Init w src t p c f = (r1, f') \<Longrightarrow> table_step f f'"
| t_drop_topic: "DropTopic w t f = (f', cs) \<Longrightarrow> table_step f f'"
| t_drop: "DropPartition w t p f = (f', cs) \<Longrightarrow> table_step f f'"

lemma shard_drop:
  "shard (fst (DropTopic w t f)) t' p' = (if t' = t then None else shard f t' p')"
  "shard (fst (DropPartition w t p f)) t' p' = (if (t', p') = (t, p) then None else shard f t' p')"
  by (auto simp: DropTopic_def DropPartition_def forgetCaps_def shard_def Let_def)

lemma table_inv_drop:
  assumes "table_inv f"
  shows "table_inv (fst (DropTopic w t f))" and "table_inv (fst (DropPartition w t p f))"
  using assms unfolding table_inv_def shard_drop
  by (auto simp: DropTopic_def DropPartition_def forgetCaps_def Let_def)

lemma table_inv_init:
  assumes "table_inv f" and "Init w src t p c f = (r, f')"
  shows "table_inv f'"
proof (cases "resolvedCaps w t")
  case (Inl e)
  then show ?thesis using assms by (simp add: Init_def)
next
  case (Inr caps)
  have "shard_ok (newPartitionShard src c caps)"
    using shard_inv_new resolvedCaps_pos [OF Inr] by (simp add: shard_ok_def) (simp add: newPartitionShard_def)
  then show ?thesis using table_inv_put [OF assms(1)] assms(2) Inr by (auto simp: Init_def)
qed

lemma table_step_inv:
  assumes "table_step f f'" and "table_inv f"
  shows "table_inv f'"
  using assms(1)
proof cases
  case t_purge
  then show ?thesis using table_inv_purgeAll [OF assms(2)] by (metis fst_conv)
next
  case t_drop_topic
  then show ?thesis using table_inv_drop(1) [OF assms(2)] by (metis fst_conv)
next
  case t_drop
  then show ?thesis using table_inv_drop(2) [OF assms(2)] by (metis fst_conv)
next
  case t_reserve
  then show ?thesis by (rule reserve_table_spec(1) [OF assms(2)])
next
  case t_commit
  then show ?thesis by (rule touches_onlyD(1) [OF handle_ops_frame(1) [OF assms(2)]])
next
  case t_corrupt
  then show ?thesis by (rule touches_onlyD(1) [OF handle_ops_frame(2) [OF assms(2)]])
next
  case t_missing
  then show ?thesis by (rule touches_onlyD(1) [OF handle_ops_frame(3) [OF assms(2)]])
next
  case t_extend
  then show ?thesis by (rule touches_onlyD(1) [OF handle_ops_frame(4) [OF assms(2)]])
next
  case t_release
  then show ?thesis by (rule touches_onlyD(1) [OF handle_ops_frame(5) [OF assms(2)]])
next
  case t_refresh
  then show ?thesis by (rule refresh_spec(1) [OF _ assms(2)])
next
  case t_init
  then show ?thesis by (rule table_inv_init [OF assms(2)])
qed

text \<open>
  C9. Every table a node can reach is sound: starting empty, after any sequence of reserves, acks, skips,
  extensions, releases, purges, limit refreshes, seeds and drops, each partition's shard satisfies its
  invariant and has positive limits.
\<close>

theorem reachable_table_sound:
  assumes "table_step\<^sup>*\<^sup>* NewInFlight f"
  shows "table_inv f"
  using assms
proof (induction rule: rtranclp_induct)
  case base
  show ?case by (simp add: table_inv_def NewInFlight_def shard_def)
qed (rule table_step_inv)

definition ex_wiring :: wiring where
  "ex_wiring = \<lparr>resolve = (\<lambda>_. Inr ex_caps), recover = None, recoverAhead = None, topicVersion = None,
     metadataVersion = 0, capsLocked = False, unixNano = 0, onCommit = True, onRelease = True, onDrop = True\<rparr>"

definition ex_table :: InFlight where
  "ex_table = NewInFlight\<lparr>shards := [((''orders'', 0), ex0)]\<rparr>"

lemma ex_init: "Init ex_wiring ex_src ''orders'' 0 (-1) NewInFlight = (Inr (), ex_table)"
  by (simp add: Init_def resolvedCaps_def ex_wiring_def ex_caps_def put_shard_def NewInFlight_def ex_table_def ex0_def)

theorem reachable_table_sound_witness: "table_step\<^sup>*\<^sup>* NewInFlight ex_table \<and> table_inv ex_table"
proof -
  have "table_step\<^sup>*\<^sup>* NewInFlight ex_table" using t_init [OF ex_init] by (rule r_into_rtranclp)
  with reachable_table_sound [OF this] show ?thesis by simp
qed

text \<open>
  C19. Partitions do not interfere: serving a reserve, ack, skip, extension or release of one partition leaves
  the resolved offsets and the leases of every other partition as they were.
\<close>

theorem partitions_isolated:
  assumes "table_inv f" and "(t', p') \<noteq> (t, p)"
    and "ReserveNext w src now t p vis logTail f = Some (r, f', cs) \<or>
         CommitHandle w now t p off nonce f = (r1, f', cs) \<or> SkipCorrupt w now t p off nonce f = (r1, f', cs) \<or>
         SkipMissingBelow w now t p off nonce oldest f = (r2, f', cs) \<or>
         ExtendHandle w now t p off nonce vis f = (r2, f', cs) \<or> ReleaseHandle w now t p off nonce f = (r1, f', cs)"
  shows "map_option q_of (shard f' t' p') = map_option q_of (shard f t' p')"
  using assms(3)
proof (elim disjE)
  assume "ReserveNext w src now t p vis logTail f = Some (r, f', cs)"
  then show ?thesis by (rule reserve_table_spec(2) [OF assms(1) _ assms(2)])
qed (drule handle_ops_frame [OF assms(1)], simp add: touches_onlyD(2) [OF _ assms(2)])+

lemma ex_shards_ok: "shard_ok ex1" "shard_ok ex2" "shard_ok ex3"
proof -
  have 0: "shard_inv ex0" unfolding ex0_def by (rule shard_inv_new)
  note 1 = conjunct1 [OF shard_step_refines [OF step_reserve [OF ex_step1] 0]]
  note 2 = conjunct1 [OF shard_step_refines [OF step_reserve [OF ex_step2] 1]]
  note 3 = conjunct1 [OF shard_step_refines [OF step_resolve [OF ex_step3] 2]]
  show "shard_ok ex1" "shard_ok ex2" "shard_ok ex3"
    using 1 2 3 by (simp_all add: shard_ok_def) (simp_all add: ex_defs)
qed

definition ex_table2 :: InFlight where
  "ex_table2 = put_shard ''orders'' 0 ex2 (put_shard ''orders'' 1 ex1 NewInFlight)"

lemma ex_table2_inv: "table_inv ex_table2"
  unfolding ex_table2_def
  by (intro table_inv_put ex_shards_ok) (simp add: table_inv_def NewInFlight_def shard_def)

theorem partitions_isolated_witness:
  "table_inv ex_table2 \<and> fst (CommitHandle ex_wiring 1 ''orders'' 0 1 1 ex_table2) = Inr () \<and>
   map_option q_of (shard (fst (snd (CommitHandle ex_wiring 1 ''orders'' 0 1 1 ex_table2))) ''orders'' 1) = Some (q_of ex1)"
proof -
  let ?c = "CommitHandle ex_wiring 1 ''orders'' 0 1 1 ex_table2"
  have "fst ?c = Inr ()"
    by (simp add: CommitHandle_def resolveReserved_def on_shard_def ex_table2_def ex_step3)
  moreover have c: "?c = (fst ?c, fst (snd ?c), snd (snd ?c))" by simp
  have "map_option q_of (shard (fst (snd ?c)) ''orders'' 1) = map_option q_of (shard ex_table2 ''orders'' 1)"
    by (rule partitions_isolated [OF ex_table2_inv _ disjI2 [OF disjI1 [OF c]]]) simp
  ultimately show ?thesis using ex_table2_inv by (simp add: ex_table2_def)
qed

subsection \<open>Recovery\<close>

text \<open>
  C8. A crash loses no message and forgets no persisted ack. Let the persister have read a partition's frontier
  and acked-ahead set at some moment, let the shard run on until the crash, and let the frontier file hold a
  value the shard had reached. The shard created from the two files after the restart has no lease, treats as
  resolved only what was resolved at the crash, and treats as resolved everything at or below either frontier and
  everything acked ahead when the set was read.
\<close>

theorem recovery_safe:
  assumes "table_inv f" and "shard f t p = Some sh0" and "AheadSnapshot f t p = Some (c, offs, v)"
    and "runs shard_step sh0 es sh1" and "c0 \<le> committed sh1"
    and "recover w = Some rf" "rf t p = Some c0" "recoverAhead w = Some ra" "ra t p = Some (c, offs)"
    and "table_inv g" "shard g t p = None" "shardOrCreate w src t p g = (Inr u, g', cs)"
  shows "\<exists>sh. shard g' t p = Some sh \<and> shard_inv sh \<and> entries sh = [] \<and>
    resolved (q_of sh) \<subseteq> resolved (q_of sh1) \<and>
    {..c0} \<union> {..committed sh0} \<union> {x. om_mem (ackedAhead sh0) x} \<subseteq> resolved (q_of sh)"
proof -
  have inv0: "shard_inv sh0" using table_invD(3) [OF assms(1,2)] by (simp add: shard_ok_def)
  have snap: "c = committed sh0" "set offs = {x. om_mem (ackedAhead sh0) x}"
    using assms(2,3) by (auto simp: AheadSnapshot_def mem_om_keys)
  have "recovered_state w t p = (max c0 c, offs)"
    using assms(6-9) by (simp add: recovered_state_def)
  with create_spec(2) [OF assms(10-12)] obtain sh where sh: "shard g' t p = Some sh" "shard_inv sh" "entries sh = []"
    and r: "resolved (q_of sh) = {..max c0 c} \<union> set offs" by auto
  have up: "x \<in> resolved (q_of sh0) \<Longrightarrow> x \<in> resolved (q_of sh1)" for x
    using shq.runs_resolved [OF assms(4) inv0] by blast
  have "resolved (q_of sh) \<subseteq> resolved (q_of sh1)"
  proof
    fix x assume "x \<in> resolved (q_of sh)"
    then have "x \<le> c0 \<or> x \<in> resolved (q_of sh0)" unfolding r snap by auto
    then show "x \<in> resolved (q_of sh1)"
      using up frontier_resolved [of x sh1] assms(5) by fastforce
  qed
  with sh show ?thesis using r snap by (intro exI [of _ sh]) auto
qed

definition ex_recovery :: wiring where
  "ex_recovery = ex_wiring\<lparr>recover := Some (\<lambda>_ _. Some (-1)), recoverAhead := Some (\<lambda>_ _. Some (-1, [1]))\<rparr>"

theorem recovery_safe_witness:
  "\<exists>sh. shard (fst (snd (shardOrCreate ex_recovery ex_src ''orders'' 0 NewInFlight))) ''orders'' 0 = Some sh \<and>
     resolved (q_of sh) \<subseteq> resolved (q_of ex4) \<and> 1 \<in> resolved (q_of sh)"
proof -
  let ?f = "put_shard ''orders'' 0 ex3 NewInFlight" and ?g = "shardOrCreate ex_recovery ex_src ''orders'' 0 NewInFlight"
  have new: "table_inv NewInFlight" by (simp add: table_inv_def NewInFlight_def shard_def)
  have f: "table_inv ?f" "shard ?f ''orders'' 0 = Some ex3" by (simp_all add: table_inv_put [OF new] ex_shards_ok)
  have snap: "AheadSnapshot ?f ''orders'' 0 = Some (-1, [1], 1)"
    by (simp add: AheadSnapshot_def ex_defs om_keys_def)
  have run: "runs shard_step ex3 [ResolveEv AckedAheadSet 1 0 1 (Inr ())] ex4"
    using step_resolve [OF ex_step4] by simp
  have g: "?g = (Inr (), fst (snd ?g), snd (snd ?g))"
    by (simp add: shardOrCreate_def resolvedCaps_def ex_recovery_def ex_wiring_def ex_caps_def NewInFlight_def
        shard_def Let_def split_beta)
  from recovery_safe [OF f snap run, of "-1" ex_recovery "\<lambda>_ _. Some (-1)" "\<lambda>_ _. Some (-1, [1])", OF _ _ _ _ _ new _ g]
  obtain sh where "shard (fst (snd ?g)) ''orders'' 0 = Some sh" "resolved (q_of sh) \<subseteq> resolved (q_of ex4)"
    "{..-1} \<union> {..committed ex3} \<union> {x. om_mem (ackedAhead ex3) x} \<subseteq> resolved (q_of sh)"
    by (auto simp: ex4_def ex_recovery_def shard_def NewInFlight_def)
  moreover have "om_mem (ackedAhead ex3) 1" by (simp add: ex3_def)
  ultimately show ?thesis by blast
qed

subsection \<open>Limits follow the topic records\<close>

text \<open>
  C18. Alters of a topic's limits reach live shards. When a pass over the topics completes (the version it covers is
  recorded), every topic with shards is recorded at its current version, and the shards of each topic whose
  version had moved have exactly the limits its record resolves to; no pass changes a resolved offset or a lease.
\<close>

theorem caps_followed:
  assumes "table_inv f" and "capsChecked f \<noteq> latest" and "capsChecked (followCaps w v latest f) = latest"
    and "om_mem (capsSeen f) t"
  shows "same_queues f (followCaps w v latest f) \<and> om_get (capsSeen (followCaps w v latest f)) t = Some (v t) \<and>
    (om_get (capsSeen f) t \<noteq> Some (v t) \<longrightarrow>
      (\<exists>caps. resolvedCaps w t = Inr caps \<and>
        (\<forall>p sh. shard (followCaps w v latest f) t p = Some sh \<longrightarrow>
           maxInFlight sh = capInFlight caps \<and> maxAckedAhead sh = capAckedAhead caps)))"
  using followCaps_spec(2) [OF assms(1)] followCaps_spec(3) [OF assms(1,3,2,4)] by (simp add: settled_def)

definition ex_old_caps :: InFlight where
  "ex_old_caps = ex_table2\<lparr>capsSeen := [(''orders'', 1)]\<rparr>"

definition ex_new_caps :: wiring where
  "ex_new_caps = ex_wiring\<lparr>resolve := (\<lambda>_. Inr \<lparr>capInFlight = 9, capAckedAhead = 5\<rparr>)\<rparr>"

theorem caps_followed_witness:
  "\<exists>caps sh. resolvedCaps ex_new_caps ''orders'' = Inr caps \<and>
     shard (followCaps ex_new_caps (\<lambda>_. 2) 7 ex_old_caps) ''orders'' 0 = Some sh \<and>
     maxInFlight sh = capInFlight caps \<and> maxAckedAhead sh = capAckedAhead caps"
proof -
  have inv: "table_inv ex_old_caps"
    using ex_table2_inv by (simp add: table_inv_def ex_old_caps_def shard_def om_wf_def om_keys_def)
  have old: "capsChecked ex_old_caps = 0" "capsSeen ex_old_caps = [(''orders'', 1)]" "capsRetryAt ex_old_caps = 0"
    by (simp_all add: ex_old_caps_def ex_table2_def put_shard_def NewInFlight_def)
  have "capsChecked (followCaps ex_new_caps (\<lambda>_. 2) 7 ex_old_caps) = 7"
    by (simp add: followCaps_def old om_keys_def follow_one_def RefreshCaps_def resolvedCaps_def ex_new_caps_def ex_wiring_def)
  note C = caps_followed [OF inv _ this, of "''orders''"]
  have "map_option q_of (shard (followCaps ex_new_caps (\<lambda>_. 2) 7 ex_old_caps) ''orders'' 0) = Some (q_of ex2)"
    using C by (simp add: old same_queues_def) (simp add: ex_old_caps_def ex_table2_def shard_def put_shard_def)
  then obtain sh where "shard (followCaps ex_new_caps (\<lambda>_. 2) 7 ex_old_caps) ''orders'' 0 = Some sh" by auto
  with C show ?thesis by (auto simp: old)
qed

subsection \<open>The purger\<close>

text \<open>
  C24. The purger's sweep drops exactly the leases whose expiry has passed, in every partition, and announces a
  partition exactly when it dropped a lease there.
\<close>

theorem purge_sweep:
  assumes "table_inv f" and "onRelease w" and "purgeAll w now f = (f', cs)"
  shows "(\<forall>t p. map_option q_of (shard f' t p) = map_option (q_expire now \<circ> q_of) (shard f t p)) \<and>
    (\<forall>t p. ReleaseCall t p \<in> set cs \<longleftrightarrow>
       (\<exists>sh off r. shard f t p = Some sh \<and> om_get (entries sh) off = Some r \<and> rExpires r \<le> now))"
proof -
  have inv: "shard_inv sh" if "shard f t p = Some sh" for t p sh
    using table_invD(3) [OF assms(1) that] by (simp add: shard_ok_def)
  have f': "f' = fst (purgeAll w now f)" "cs = snd (purgeAll w now f)" using assms(3) by simp_all
  have drop: "snd (purgeExpiredLocked now sh) > 0 \<longleftrightarrow> (\<exists>off r. om_get (entries sh) off = Some r \<and> rExpires r \<le> now)"
    if "shard_inv sh" for sh
  proof -
    obtain s r where p: "purgeExpiredLocked now sh = (s, r)" by fastforce
    note P = purge_spec [OF that p] and wf = shard_coreD(1) [OF shard_inv_core [OF that]]
    let ?live = "\<lambda>x. now < rExpires (snd x)"
    have "r > 0 \<longleftrightarrow> length (filter ?live (entries sh)) < length (entries sh)"
      using P(3,4) by (simp add: live_at_def) linarith
    also have "\<dots> \<longleftrightarrow> (\<exists>x \<in> set (entries sh). \<not> ?live x)"
      by (metis filter_True length_filter_less less_irrefl)
    also have "\<dots> \<longleftrightarrow> (\<exists>off r. om_get (entries sh) off = Some r \<and> rExpires r \<le> now)"
      using om_wf_get [OF wf] by force
    finally show ?thesis by (simp add: p)
  qed
  have "ReleaseCall t p \<in> set cs \<longleftrightarrow> (\<exists>sh. shard f t p = Some sh \<and> snd (purgeExpiredLocked now sh) > 0)" for t p
    using om_wf_get [OF table_invD(1) [OF assms(1)], of "(t, p)"] assms(2)
    by (auto simp: f'(2) purgeAll_def shard_def notifyRelease_def split: if_splits)
  moreover have "map_option q_of (shard f' t p) = map_option (q_expire now \<circ> q_of) (shard f t p)" for t p
    unfolding f' purgeAll_shard using purge_refines [OF inv prod.collapse [symmetric]]
    by (cases "shard f t p") simp_all
  ultimately show ?thesis using drop inv by blast
qed

theorem purge_sweep_witness:
  "table_inv ex_table2 \<and> ReleaseCall ''orders'' 0 \<in> set (snd (purgeAll ex_wiring 5 ex_table2))"
proof -
  have "onRelease ex_wiring" by (simp add: ex_wiring_def)
  moreover have "shard ex_table2 ''orders'' 0 = Some ex2" "om_get (entries ex2) 0 = Some \<lparr>rExpires = 2, rNonce = 1\<rparr>"
    by (simp_all add: ex_table2_def ex2_def)
  ultimately show ?thesis
    using purge_sweep [OF ex_table2_inv _ prod.collapse [symmetric], of ex_wiring 5] ex_table2_inv by force
qed

end
