(* ===== verification/Topic_Model.thy ===== *)
theory Topic_Model
  imports Errs
begin

text \<open>
  The topic record and its fan-out links: \<^verbatim>\<open>src/internal/domain/topic/topic.go\<close>, \<^verbatim>\<open>remote_link.go\<close> and
  \<^verbatim>\<open>name.go\<close>. A Go string is a \<^typ>\<open>string\<close> of bytes; \<^verbatim>\<open>int\<close> and \<^verbatim>\<open>int64\<close> fields are unbounded integers,
  since nothing here adds to one. A nil pointer is \<^term>\<open>None\<close>; a nil and an empty slice encode alike
  and are both the empty list. The second half is about \<open>WithSkip\<close>, the bounded ascending set of
  offsets an admin accepted to lose.
\<close>

section \<open>Names\<close>

definition nameChar :: "char \<Rightarrow> bool" where
  "nameChar c \<longleftrightarrow>
     (CHR ''A'' \<le> c \<and> c \<le> CHR ''Z'') \<or> (CHR ''a'' \<le> c \<and> c \<le> CHR ''z'') \<or>
     (CHR ''0'' \<le> c \<and> c \<le> CHR ''9'') \<or> c = CHR ''.'' \<or> c = CHR ''_'' \<or> c = CHR ''-''"

definition namePattern :: "string \<Rightarrow> bool" where
  "namePattern s \<longleftrightarrow> 1 \<le> length s \<and> length s \<le> 255 \<and> list_all nameChar s"

definition ValidateName :: "string \<Rightarrow> unit result" where
  "ValidateName name =
     (if name = '''' then Inl ErrInvalidArgument
      else if name = ''.'' \<or> name = ''..'' then Inl ErrInvalidArgument
      else if \<not> namePattern name then Inl ErrInvalidArgument
      else Inr ())"

section \<open>Remote links\<close>

type_synonym skips = "(int, int list) omap"

record RemoteLink =
  rlName :: string
  rlTopic :: string
  rlTargetID :: string
  rlFrom :: string
  rlLanes :: int
  rlPaused :: bool
  rlPauseReason :: string
  rlPausedBy :: string
  rlPausedAtMs :: int
  rlSkip :: skips
  rlCreatedBy :: string

definition MinRemoteLanes :: int where "MinRemoteLanes = 1"
definition MaxRemoteLanes :: int where "MaxRemoteLanes = 8"
definition MaxRemoteChildrenPerParent :: nat where "MaxRemoteChildrenPerParent = 16"
definition MinRemoteSourceRetentionMs :: int where "MinRemoteSourceRetentionMs = 24 * 60 * 60 * 1000"
definition MaxRemotePauseReasonBytes :: nat where "MaxRemotePauseReasonBytes = 256"
definition MaxRemoteSkipsPerPartition :: nat where
  "MaxRemoteSkipsPerPartition = nat MaxRemoteLanes * 500"

text \<open>
  \<^verbatim>\<open>slices.BinarySearch\<close>: the loop keeps \<open>i \<le> j\<close>, halves the interval, and returns the first index
  whose element is not below the target, with whether the target sits there.
\<close>

function bsearch_loop :: "int list \<Rightarrow> int \<Rightarrow> nat \<Rightarrow> nat \<Rightarrow> nat" where
  "bsearch_loop xs target i j =
     (if i < j then
        let h = (i + j) div 2
        in if xs ! h < target then bsearch_loop xs target (h + 1) j
           else bsearch_loop xs target i h
      else i)"
  by pat_completeness auto
termination
  by (relation "measure (\<lambda>(xs, target, i, j). j - i)") auto

declare bsearch_loop.simps [simp del]

definition BinarySearch :: "int list \<Rightarrow> int \<Rightarrow> nat \<times> bool" where
  "BinarySearch xs target =
     (let i = bsearch_loop xs target 0 (length xs)
      in (i, i < length xs \<and> xs ! i = target))"

definition skip_of :: "skips \<Rightarrow> int \<Rightarrow> int list" where
  "skip_of skip p = (case om_get skip p of None \<Rightarrow> [] | Some offs \<Rightarrow> offs)"

definition Skipped :: "RemoteLink \<Rightarrow> int \<Rightarrow> int \<Rightarrow> bool" where
  "Skipped l part offset = snd (BinarySearch (skip_of (rlSkip l) part) offset)"

definition slice_insert :: "'a list \<Rightarrow> nat \<Rightarrow> 'a \<Rightarrow> 'a list" where
  "slice_insert xs i x = take i xs @ x # drop i xs"

definition slice_delete :: "'a list \<Rightarrow> nat \<Rightarrow> 'a list" where
  "slice_delete xs i = take i xs @ drop (Suc i) xs"

function trim_skips :: "int \<Rightarrow> int list \<Rightarrow> int list" where
  "trim_skips offset offs =
     (if length offs > MaxRemoteSkipsPerPartition
      then trim_skips offset (slice_delete offs (if offs ! 0 = offset then 1 else 0))
      else offs)"
  by pat_completeness auto
termination
  by (relation "measure (\<lambda>(offset, offs). length offs)")
    (auto simp: slice_delete_def MaxRemoteSkipsPerPartition_def MaxRemoteLanes_def)

declare trim_skips.simps [simp del]

definition WithSkip :: "skips \<Rightarrow> int \<Rightarrow> int \<Rightarrow> skips" where
  "WithSkip skip part offset =
     (let offs = skip_of skip part;
          (i, found) = BinarySearch offs offset;
          offs' = (if found then offs else slice_insert offs i offset)
      in om_put part (trim_skips offset offs') skip)"

definition EffectiveLanes :: "RemoteLink \<Rightarrow> int" where
  "EffectiveLanes l = (if rlLanes l < MinRemoteLanes then MinRemoteLanes else min (rlLanes l) MaxRemoteLanes)"

definition RemoteFromAttach :: string where "RemoteFromAttach = ''attach''"

definition ValidRemoteFrom :: "string \<Rightarrow> bool" where
  "ValidRemoteFrom from \<longleftrightarrow> from \<in> set ['''', ''attach'', ''unconsumed'', ''earliest'']"

section \<open>Link states\<close>

definition RemoteStateSeverity :: "string list" where
  "RemoteStateSeverity =
     [''remote_missing'', ''credential_unreadable'', ''node_insecure'', ''destination_refused'',
      ''target_has_remote_children'', ''target_replaced'', ''auth_failed'', ''forbidden'',
      ''target_missing'', ''no_batch_produce'', ''redirect_refused'', ''tls_failed'',
      ''rejected_record'', ''record_too_large'', ''unavailable'', ''throttled'', ''unknown'',
      ''paused'', ''running'']"

fun rank_in :: "string list \<Rightarrow> string \<Rightarrow> nat \<Rightarrow> nat option" where
  "rank_in [] state i = None"
| "rank_in (s # ss) state i = (if s = state then Some i else rank_in ss state (Suc i))"

text \<open>
  The source calls itself on \<^verbatim>\<open>RemoteStateUnknown\<close> for a state that is not listed; that state is
  listed, so the call returns at once and is written out here.
\<close>

definition RemoteStateRank :: "string \<Rightarrow> nat" where
  "RemoteStateRank state =
     (case rank_in RemoteStateSeverity state 0 of
        Some i \<Rightarrow> i
      | None \<Rightarrow> (case rank_in RemoteStateSeverity ''unknown'' 0 of Some i \<Rightarrow> i | None \<Rightarrow> 0))"

definition WorseRemoteState :: "string \<Rightarrow> string \<Rightarrow> string" where
  "WorseRemoteState a b =
     (if a = '''' then b
      else if b = '''' then a
      else if RemoteStateRank b < RemoteStateRank a then b
      else a)"

section \<open>Topics\<close>

record Topic =
  tName :: string
  tID :: string
  tPartitions :: int
  tRetentionMs :: int
  tVisibilityTimeoutMs :: int
  tMaxInFlightPerPartition :: int
  tMaxAckedAheadPerPartition :: int
  tCreatedAt :: int
  tOwner :: string
  tRole :: string
  tChildren :: "string list"
  tParent :: string
  tAttachEpoch :: string
  tFanoutDelayMs :: int
  tAttachOffsets :: "int list"
  tRemote :: "RemoteLink option"

definition RoleStandalone :: string where "RoleStandalone = ''standalone''"
definition RoleParent :: string where "RoleParent = ''parent''"
definition RoleChild :: string where "RoleChild = ''child''"

lemma roles_distinct [simp]:
  "RoleParent \<noteq> RoleChild" "RoleChild \<noteq> RoleParent"
  "RoleStandalone \<noteq> RoleChild" "RoleStandalone \<noteq> RoleParent"
  "RoleChild \<noteq> RoleStandalone" "RoleParent \<noteq> RoleStandalone"
  "RoleParent \<noteq> ''''" "RoleChild \<noteq> ''''" "RoleStandalone \<noteq> ''''"
  "'''' \<noteq> RoleParent" "'''' \<noteq> RoleChild"
  by (simp_all add: RoleParent_def RoleChild_def RoleStandalone_def)

definition MaxChildrenPerParent :: nat where "MaxChildrenPerParent = 108"
definition MaxFanoutDelayMs :: int where "MaxFanoutDelayMs = 365 * 24 * 60 * 60 * 1000"
definition MinRetentionMs :: int where "MinRetentionMs = 60 * 60 * 1000"

definition EffectiveRole :: "Topic \<Rightarrow> string" where
  "EffectiveRole t = (if tRole t = '''' then RoleStandalone else tRole t)"

definition IsParent :: "Topic \<Rightarrow> bool" where
  "IsParent t \<longleftrightarrow> EffectiveRole t = RoleParent"

definition IsChild :: "Topic \<Rightarrow> bool" where
  "IsChild t \<longleftrightarrow> EffectiveRole t = RoleChild"

definition IsRemoteChild :: "Topic \<Rightarrow> bool" where
  "IsRemoteChild t \<longleftrightarrow> tRemote t \<noteq> None \<and> IsChild t"

lemma IsParent_role: "IsParent t \<longleftrightarrow> tRole t = RoleParent"
  by (simp add: IsParent_def EffectiveRole_def)

lemma IsChild_role: "IsChild t \<longleftrightarrow> tRole t = RoleChild"
  by (simp add: IsChild_def EffectiveRole_def)

lemmas role_defs = IsParent_role IsChild_role IsRemoteChild_def

end
