(* ===== verification/Remote_Skips.thy ===== *)
theory Remote_Skips
  imports Topic_Model
begin

text \<open>
  The skip set of a remote link (\<^verbatim>\<open>WithSkip\<close>, \<^verbatim>\<open>Skipped\<close>): the binary search is correct on an ascending
  list, the set stays ascending and bounded, the offset an admin just skipped is always kept, and
  what the bound pushes out lies below everything else that stays.
\<close>

section \<open>Binary search\<close>

lemma bsearch_loop_bounds: "i \<le> j \<Longrightarrow> i \<le> bsearch_loop xs t i j \<and> bsearch_loop xs t i j \<le> j"
proof (induction xs t i j rule: bsearch_loop.induct)
  case (1 xs t i j)
  show ?case
  proof (cases "i < j")
    case False
    then have "bsearch_loop xs t i j = i" by (subst bsearch_loop.simps) simp
    with 1 show ?thesis by simp
  next
    case True
    define h where "h = (i + j) div 2"
    have h: "i \<le> h" "h < j" using True by (auto simp: h_def)
    have step: "bsearch_loop xs t i j = (if xs ! h < t then bsearch_loop xs t (h + 1) j else bsearch_loop xs t i h)"
      using True by (subst bsearch_loop.simps) (simp add: h_def)
    show ?thesis
      using 1(1) [OF True h_def] 1(2) [OF True h_def] h unfolding step by (cases "xs ! h < t") simp_all
  qed
qed

lemma bsearch_loop_correct:
  assumes "sorted xs" and "i \<le> j" and "j \<le> length xs"
    and "\<forall>k<i. xs ! k < t" and "\<forall>k<length xs. j \<le> k \<longrightarrow> t \<le> xs ! k"
  shows "(\<forall>k < bsearch_loop xs t i j. xs ! k < t) \<and>
    (\<forall>k < length xs. bsearch_loop xs t i j \<le> k \<longrightarrow> t \<le> xs ! k)"
  using assms
proof (induction xs t i j rule: bsearch_loop.induct)
  case (1 xs t i j)
  show ?case
  proof (cases "i < j")
    case False
    then have eq: "bsearch_loop xs t i j = i" by (subst bsearch_loop.simps) simp
    have "i = j" using False 1(4) by simp
    with 1(6,7) show ?thesis unfolding eq by blast
  next
    case True
    define h where "h = (i + j) div 2"
    have h: "i \<le> h" "h < j" using True by (auto simp: h_def)
    have hl: "h < length xs" using h 1(5) by simp
    show ?thesis
    proof (cases "xs ! h < t")
      case lt: True
      have step: "bsearch_loop xs t i j = bsearch_loop xs t (h + 1) j"
        using True lt by (subst bsearch_loop.simps) (simp add: h_def)
      have "\<forall>k<h + 1. xs ! k < t"
      proof (intro allI impI)
        fix k assume "k < h + 1"
        then have "xs ! k \<le> xs ! h" using sorted_nth_mono [OF 1(3)] hl by simp
        with lt show "xs ! k < t" by (rule order.strict_trans1 [rotated])
      qed
      moreover have "h + 1 \<le> j" using h by simp
      ultimately show ?thesis
        unfolding step using 1(1) [OF True h_def lt 1(3)] 1(5,7) by blast
    next
      case ge: False
      have step: "bsearch_loop xs t i j = bsearch_loop xs t i h"
        using True ge by (subst bsearch_loop.simps) (simp add: h_def)
      have "\<forall>k<length xs. h \<le> k \<longrightarrow> t \<le> xs ! k"
      proof (intro allI impI)
        fix k assume "k < length xs" "h \<le> k"
        then have "xs ! h \<le> xs ! k" using sorted_nth_mono [OF 1(3)] by simp
        with ge show "t \<le> xs ! k" by simp
      qed
      moreover have "h \<le> length xs" using hl by simp
      ultimately show ?thesis
        unfolding step using 1(2) [OF True h_def ge 1(3) h(1)] 1(6) by blast
    qed
  qed
qed

lemma BinarySearch_correct:
  assumes "sorted_wrt (<) xs" and "BinarySearch xs t = (i, found)"
  shows "i \<le> length xs" and "\<forall>x\<in>set (take i xs). x < t"
    and "\<forall>x\<in>set (drop i xs). t \<le> x" and "found \<longleftrightarrow> t \<in> set xs"
proof -
  have i: "i = bsearch_loop xs t 0 (length xs)" and f: "found \<longleftrightarrow> i < length xs \<and> xs ! i = t"
    using assms(2) by (auto simp: BinarySearch_def Let_def)
  have s: "sorted xs" using assms(1) by (simp add: strict_sorted_iff)
  show le: "i \<le> length xs"
    using bsearch_loop_bounds [of 0 "length xs" xs t] by (simp add: i)
  have lo: "k < i \<Longrightarrow> xs ! k < t" and hi: "i \<le> k \<Longrightarrow> k < length xs \<Longrightarrow> t \<le> xs ! k" for k
    using bsearch_loop_correct [OF s, of 0 "length xs" t] by (simp_all add: i)
  show "\<forall>x\<in>set (take i xs). x < t"
    using le lo by (auto simp: in_set_conv_nth)
  show "\<forall>x\<in>set (drop i xs). t \<le> x"
    using hi by (auto simp: in_set_conv_nth)
  show "found \<longleftrightarrow> t \<in> set xs"
  proof
    assume "t \<in> set xs"
    then obtain k where k: "k < length xs" "xs ! k = t" by (auto simp: in_set_conv_nth)
    have "i \<le> k" using lo [of k] k by (meson less_irrefl not_le)
    moreover have "xs ! i \<le> xs ! k" using sorted_nth_mono [OF s \<open>i \<le> k\<close>] k by simp
    ultimately show found using hi [of i] k f by auto
  qed (auto simp: f)
qed

section \<open>Trimming\<close>

text \<open>
  \<open>keeps_top A o B\<close>: of the offsets \<open>A\<close>, \<open>B\<close> keeps \<open>o\<close>, and whatever it drops lies below everything
  else it keeps.
\<close>

definition keeps_top :: "int set \<Rightarrow> int \<Rightarrow> int set \<Rightarrow> bool" where
  "keeps_top A off B \<longleftrightarrow> B \<subseteq> A \<and> off \<in> B \<and> (\<forall>x \<in> A - B. \<forall>y \<in> B - {off}. x < y)"

lemma keeps_top_refl: "off \<in> A \<Longrightarrow> keeps_top A off A"
  by (simp add: keeps_top_def)

lemma keeps_top_step:
  assumes "keeps_top (A - {z}) off B" and "z \<noteq> off" and "\<forall>y \<in> A - {off, z}. z < y"
  shows "keeps_top A off B"
  using assms unfolding keeps_top_def by blast

lemma slice_delete_first_other:
  fixes off :: int
  assumes "sorted_wrt (<) offs" and "length offs \<ge> 2" and "off \<in> set offs"
  obtains z where "z \<in> set offs" and "z \<noteq> off" and "\<forall>y \<in> set offs - {off, z}. z < y"
    and "sorted_wrt (<) (slice_delete offs (if offs ! 0 = off then 1 else 0))"
    and "set (slice_delete offs (if offs ! 0 = off then 1 else 0)) = set offs - {z}"
    and "length (slice_delete offs (if offs ! 0 = off then 1 else 0)) = length offs - 1"
proof -
  obtain a b r where offs: "offs = a # b # r"
    using assms(2) by (cases offs rule: remdups_adj.cases) simp_all
  have ab: "a < b" and ar: "\<forall>x\<in>set r. a < x" and br: "\<forall>x\<in>set r. b < x" and sr: "sorted_wrt (<) r"
    using assms(1) unfolding offs by simp_all
  have nr: "a \<notin> set r" "b \<notin> set r" using ar br by auto
  define z where "z = (if a = off then b else a)"
  have d: "slice_delete offs (if offs ! 0 = off then 1 else 0) = (if a = off then a else b) # r"
    by (simp add: offs slice_delete_def)
  show ?thesis
  proof (rule that [of z])
    show "z \<in> set offs" "z \<noteq> off" using ab by (auto simp: z_def offs)
    show "\<forall>y \<in> set offs - {off, z}. z < y" using ar br ab by (auto simp: z_def offs)
    show "sorted_wrt (<) (slice_delete offs (if offs ! 0 = off then 1 else 0))"
      unfolding d using ar br sr by auto
    show "set (slice_delete offs (if offs ! 0 = off then 1 else 0)) = set offs - {z}"
      unfolding d using ab nr by (auto simp: z_def offs)
    show "length (slice_delete offs (if offs ! 0 = off then 1 else 0)) = length offs - 1"
      unfolding d by (simp add: offs)
  qed
qed

lemma Max_skips: "2 \<le> MaxRemoteSkipsPerPartition"
  by (simp add: MaxRemoteSkipsPerPartition_def MaxRemoteLanes_def)

lemma trim_skips_correct:
  assumes "sorted_wrt (<) offs" and "off \<in> set offs"
  shows "sorted_wrt (<) (trim_skips off offs) \<and>
    length (trim_skips off offs) = min (length offs) MaxRemoteSkipsPerPartition \<and>
    keeps_top (set offs) off (set (trim_skips off offs))"
  using assms
proof (induction off offs rule: trim_skips.induct)
  case (1 off offs)
  show ?case
  proof (cases "length offs > MaxRemoteSkipsPerPartition")
    case False
    then have "trim_skips off offs = offs" by (subst trim_skips.simps) simp
    then show ?thesis using 1 False by (simp add: keeps_top_refl)
  next
    case True
    let ?o = "slice_delete offs (if offs ! 0 = off then 1 else 0)"
    have two: "2 \<le> length offs" using True Max_skips by linarith
    obtain z where z: "z \<in> set offs" "z \<noteq> off" "\<forall>y \<in> set offs - {off, z}. z < y"
      "sorted_wrt (<) ?o" "set ?o = set offs - {z}" "length ?o = length offs - 1"
      by (rule slice_delete_first_other [OF 1(2) two 1(3)])
    have step: "trim_skips off offs = trim_skips off ?o"
      using True by (subst trim_skips.simps) simp
    have IH: "sorted_wrt (<) (trim_skips off ?o) \<and>
      length (trim_skips off ?o) = min (length ?o) MaxRemoteSkipsPerPartition \<and>
      keeps_top (set ?o) off (set (trim_skips off ?o))"
      using 1(1) [OF True z(4)] 1(3) z(2,5) by simp
    have "keeps_top (set offs) off (set (trim_skips off ?o))"
      using IH keeps_top_step [OF _ z(2,3)] unfolding z(5) by blast
    then show ?thesis
      using IH z(6) True unfolding step by simp
  qed
qed

lemma slice_insert_correct:
  assumes "sorted_wrt (<) xs" and "BinarySearch xs t = (i, False)"
  shows "sorted_wrt (<) (slice_insert xs i t)" and "set (slice_insert xs i t) = insert t (set xs)"
    and "length (slice_insert xs i t) = Suc (length xs)"
proof -
  note bs = BinarySearch_correct [OF assms]
  have hi: "\<forall>x\<in>set (drop i xs). t < x"
    using bs(3,4) by (metis in_set_dropD order_le_less)
  have lo_hi: "x < y" if "x \<in> set (take i xs)" "y \<in> set (drop i xs)" for x y
    using bs(2) hi that by force
  show "sorted_wrt (<) (slice_insert xs i t)"
    using assms(1) bs(2) hi lo_hi
    by (auto simp: slice_insert_def sorted_wrt_append sorted_wrt_take sorted_wrt_drop)
  show "set (slice_insert xs i t) = insert t (set xs)"
    using set_append [of "take i xs" "drop i xs"] by (auto simp: slice_insert_def)
  show "length (slice_insert xs i t) = Suc (length xs)"
    using bs(1) by (simp add: slice_insert_def)
qed

section \<open>The skip set\<close>

definition skips_ok :: "skips \<Rightarrow> bool" where
  "skips_ok s \<longleftrightarrow> (\<forall>p. sorted_wrt (<) (skip_of s p) \<and> length (skip_of s p) \<le> MaxRemoteSkipsPerPartition)"

lemma skips_ok_Nil [simp]: "skips_ok []"
  by (simp add: skips_ok_def skip_of_def)

lemma WithSkip_part:
  assumes "sorted_wrt (<) (skip_of s p)"
  shows "skip_of (WithSkip s p off) q =
    (if q = p then trim_skips off (if off \<in> set (skip_of s p) then skip_of s p
       else slice_insert (skip_of s p) (fst (BinarySearch (skip_of s p) off)) off)
     else skip_of s q)"
  using BinarySearch_correct(4) [OF assms, of off]
  by (cases "BinarySearch (skip_of s p) off") (auto simp: WithSkip_def Let_def skip_of_def)

lemma WithSkip_correct:
  assumes "sorted_wrt (<) (skip_of s p)"
  shows "sorted_wrt (<) (skip_of (WithSkip s p off) p)"
    and "length (skip_of (WithSkip s p off) p) =
      min (card (insert off (set (skip_of s p)))) MaxRemoteSkipsPerPartition"
    and "keeps_top (insert off (set (skip_of s p))) off (set (skip_of (WithSkip s p off) p))"
proof -
  define offs where "offs = (if off \<in> set (skip_of s p) then skip_of s p
       else slice_insert (skip_of s p) (fst (BinarySearch (skip_of s p) off)) off)"
  have offs: "sorted_wrt (<) offs \<and> set offs = insert off (set (skip_of s p))"
  proof (cases "off \<in> set (skip_of s p)")
    case True
    then show ?thesis using assms by (auto simp: offs_def)
  next
    case False
    then have "BinarySearch (skip_of s p) off = (fst (BinarySearch (skip_of s p) off), False)"
      using BinarySearch_correct(4) [OF assms] by (cases "BinarySearch (skip_of s p) off") auto
    then show ?thesis
      using slice_insert_correct(1,2) [OF assms] False by (simp add: offs_def)
  qed
  then have len: "length offs = card (insert off (set (skip_of s p)))"
    using distinct_card [of offs] by (simp add: strict_sorted_iff)
  have eq: "skip_of (WithSkip s p off) p = trim_skips off offs"
    by (simp add: WithSkip_part [OF assms] offs_def)
  have off: "off \<in> set offs" using offs by simp
  show "sorted_wrt (<) (skip_of (WithSkip s p off) p)"
    and "length (skip_of (WithSkip s p off) p) =
      min (card (insert off (set (skip_of s p)))) MaxRemoteSkipsPerPartition"
    and "keeps_top (insert off (set (skip_of s p))) off (set (skip_of (WithSkip s p off) p))"
    using trim_skips_correct [OF conjunct1 [OF offs] off] offs len by (simp_all add: eq)
qed

lemma WithSkip_ok: "skips_ok s \<Longrightarrow> skips_ok (WithSkip s p off)"
  using WithSkip_correct(1,2) [of s p off] WithSkip_part [of s p off]
  unfolding skips_ok_def by (metis min.cobounded2)

lemma Skipped_mem:
  assumes "sorted_wrt (<) (skip_of (rlSkip l) q)"
  shows "Skipped l q x \<longleftrightarrow> x \<in> set (skip_of (rlSkip l) q)"
  using BinarySearch_correct(4) [OF assms, of x]
  by (cases "BinarySearch (skip_of (rlSkip l) q) x") (auto simp: Skipped_def)

text \<open>
  C27. An admin's skip is never lost: after \<^verbatim>\<open>WithSkip\<close> adds an offset to a partition of a link whose skip
  sets are ascending and bounded, the sets still are, \<^verbatim>\<open>Skipped\<close> answers true for that offset, every
  other partition answers as before, and of the partition's earlier offsets the bound drops only ones
  below everything else that is kept (and none at all while the set is below its bound).
\<close>

theorem skip_recorded:
  assumes "skips_ok (rlSkip l)"
    and "l' = l\<lparr>rlSkip := WithSkip (rlSkip l) p off\<rparr>"
  shows "skips_ok (rlSkip l') \<and> Skipped l' p off \<and>
    (\<forall>q x. q \<noteq> p \<longrightarrow> Skipped l' q x = Skipped l q x) \<and>
    (\<forall>x. Skipped l' p x \<longrightarrow> x = off \<or> Skipped l p x) \<and>
    (\<forall>x. Skipped l p x \<and> \<not> Skipped l' p x \<longrightarrow>
       length (skip_of (rlSkip l') p) = MaxRemoteSkipsPerPartition \<and>
       (\<forall>y. y \<noteq> off \<and> Skipped l' p y \<longrightarrow> x < y))"
proof -
  let ?s = "rlSkip l" and ?s' = "WithSkip (rlSkip l) p off"
  have srt: "sorted_wrt (<) (skip_of ?s q)" for q using assms(1) by (simp add: skips_ok_def)
  have ok: "skips_ok ?s'" by (rule WithSkip_ok [OF assms(1)])
  then have srt': "sorted_wrt (<) (skip_of ?s' q)" for q by (simp add: skips_ok_def)
  have mem: "Skipped l q x \<longleftrightarrow> x \<in> set (skip_of ?s q)" for q x
    by (rule Skipped_mem [OF srt])
  have mem': "Skipped l' q x \<longleftrightarrow> x \<in> set (skip_of ?s' q)" for q x
    using Skipped_mem [of l' q x] srt' [of q] by (simp add: assms(2))
  note kt = WithSkip_correct(3) [OF srt, where p = p and off = off, unfolded keeps_top_def]
  have full: "length (skip_of ?s' p) = MaxRemoteSkipsPerPartition"
    if "x \<in> set (skip_of ?s p)" "x \<notin> set (skip_of ?s' p)" for x
  proof -
    have "card (set (skip_of ?s' p)) < card (insert off (set (skip_of ?s p)))"
      using kt that by (intro psubset_card_mono) auto
    then show ?thesis
      using WithSkip_correct(2) [OF srt, where p = p and off = off] distinct_card [of "skip_of ?s' p"] srt' [of p]
      by (simp add: strict_sorted_iff)
  qed
  have others: "skip_of ?s' q = skip_of ?s q" if "q \<noteq> p" for q
    using that by (simp add: WithSkip_part [OF srt])
  show ?thesis
    unfolding mem mem' using ok kt full others by (auto simp: assms(2))
qed

lemma skips_ok_ex: "skips_ok [(0, [3, 7])]"
  by (auto simp: skips_ok_def skip_of_def MaxRemoteSkipsPerPartition_def MaxRemoteLanes_def)

theorem skip_recorded_witness:
  "Skipped (\<lparr>rlName = ''r'', rlTopic = ''t'', rlTargetID = '''', rlFrom = '''', rlLanes = 1,
     rlPaused = False, rlPauseReason = '''', rlPausedBy = '''', rlPausedAtMs = 0,
     rlSkip = WithSkip [(0, [3, 7])] 0 5, rlCreatedBy = ''''\<rparr>) 0 5"
  using skip_recorded [of "\<lparr>rlName = ''r'', rlTopic = ''t'', rlTargetID = '''', rlFrom = '''',
     rlLanes = 1, rlPaused = False, rlPauseReason = '''', rlPausedBy = '''', rlPausedAtMs = 0,
     rlSkip = [(0, [3, 7])], rlCreatedBy = ''''\<rparr>" _ 0 5, OF _ refl] skips_ok_ex by simp

end
