(* ===== verification/User_Model.thy ===== *)
theory User_Model
  imports Topic_Model
begin

text \<open>
  Users, grants and the pattern matching that decides them: \<^verbatim>\<open>src/internal/domain/user/user.go\<close>. The
  lemmas show that a pattern covers another exactly when it matches every name the other matches, and
  that the delegation check never lets a principal hand out a permission it does not hold.
\<close>

record Grant =
  gAction :: string
  gPatterns :: "string list"

record User =
  uUsername :: string
  uPasswordHash :: string
  uGrants :: "Grant list"
  uRoot :: bool
  uCreatedAtMs :: int
  uUpdatedAtMs :: int

definition ActionProduce :: string where "ActionProduce = ''produce''"
definition ActionConsume :: string where "ActionConsume = ''consume''"
definition ActionCreate :: string where "ActionCreate = ''create''"
definition ActionAdmin :: string where "ActionAdmin = ''admin''"

definition IsAdmin :: "User \<Rightarrow> bool" where
  "IsAdmin u \<longleftrightarrow> (if uRoot u then True else list_ex (\<lambda>g. gAction g = ActionAdmin) (uGrants u))"

text \<open>\<^verbatim>\<open>strings.HasPrefix\<close> and \<^verbatim>\<open>strings.CutSuffix(s, "*")\<close>.\<close>

fun HasPrefix :: "string \<Rightarrow> string \<Rightarrow> bool" where
  "HasPrefix s [] = True"
| "HasPrefix [] (p # ps) = False"
| "HasPrefix (c # cs) (p # ps) = (c = p \<and> HasPrefix cs ps)"

definition CutStar :: "string \<Rightarrow> string \<times> bool" where
  "CutStar s = (if s \<noteq> [] \<and> last s = CHR ''*'' then (butlast s, True) else (s, False))"

definition MatchPattern :: "string \<Rightarrow> string \<Rightarrow> bool" where
  "MatchPattern pattern name =
     (let (prefix, ok) = CutStar pattern in if ok then HasPrefix name prefix else pattern = name)"

definition Allowed :: "User \<Rightarrow> string \<Rightarrow> string \<Rightarrow> bool" where
  "Allowed u action topicName =
     (if IsAdmin u then True
      else list_ex (\<lambda>g. gAction g = action \<and> list_ex (\<lambda>p. MatchPattern p topicName) (gPatterns g)) (uGrants u))"

definition AllowedAny :: "User \<Rightarrow> string \<Rightarrow> bool" where
  "AllowedAny u topicName =
     (if IsAdmin u then True
      else list_ex (\<lambda>g. list_ex (\<lambda>p. MatchPattern p topicName) (gPatterns g)) (uGrants u))"

definition patternCovers :: "string \<Rightarrow> string \<Rightarrow> bool" where
  "patternCovers have want =
     (let (havePrefix, ok) = CutStar have
      in if ok then HasPrefix (fst (CutStar want)) havePrefix else have = want)"

definition patternCovered :: "Grant list \<Rightarrow> string \<Rightarrow> string \<Rightarrow> bool" where
  "patternCovered granted action requested =
     list_ex (\<lambda>g. gAction g = action \<and> list_ex (\<lambda>p. patternCovers p requested) (gPatterns g)) granted"

definition emptyUser :: User where
  "emptyUser = \<lparr>uUsername = '''', uPasswordHash = '''', uGrants = [], uRoot = False,
     uCreatedAtMs = 0, uUpdatedAtMs = 0\<rparr>"

definition Covers :: "Grant list \<Rightarrow> Grant list \<Rightarrow> bool" where
  "Covers granted requested =
     (if IsAdmin (emptyUser\<lparr>uGrants := granted\<rparr>) then True
      else list_all (\<lambda>want. gAction want \<noteq> ActionAdmin \<and>
             list_all (patternCovered granted (gAction want)) (gPatterns want)) requested)"

definition CanDelegate :: "User \<Rightarrow> Grant list \<Rightarrow> bool" where
  "CanDelegate u requested =
     (if list_ex (\<lambda>g. gAction g = ActionAdmin \<and> \<not> uRoot u) requested then False
      else if IsAdmin u then True
      else Covers (uGrants u) requested)"

definition usernamePattern :: "string \<Rightarrow> bool" where
  "usernamePattern s \<longleftrightarrow> 1 \<le> length s \<and> length s \<le> 64 \<and> list_all nameChar s"

definition patternPattern :: "string \<Rightarrow> bool" where
  "patternPattern s \<longleftrightarrow> (let (p, star) = CutStar s in length p \<le> 255 \<and> list_all nameChar p)"

definition ValidateUsername :: "string \<Rightarrow> unit result" where
  "ValidateUsername name =
     (if name = ''.'' \<or> name = ''..'' then Inl ErrInvalidArgument
      else if \<not> usernamePattern name then Inl ErrInvalidArgument
      else Inr ())"

definition MaxPasswordBytes :: nat where "MaxPasswordBytes = 72"

definition ValidatePassword :: "string \<Rightarrow> unit result" where
  "ValidatePassword password =
     (if password = '''' then Inl ErrInvalidArgument
      else if length password > MaxPasswordBytes then Inl ErrInvalidArgument
      else Inr ())"

definition validGrant :: "Grant \<Rightarrow> bool" where
  "validGrant g =
     (if gAction g \<in> set [ActionProduce, ActionConsume, ActionCreate]
      then gPatterns g \<noteq> [] \<and> list_all (\<lambda>p. p \<noteq> '''' \<and> patternPattern p) (gPatterns g)
      else if gAction g = ActionAdmin then gPatterns g = []
      else False)"

definition ValidateGrants :: "Grant list \<Rightarrow> unit result" where
  "ValidateGrants grants = (if list_all validGrant grants then Inr () else Inl ErrInvalidArgument)"

section \<open>Patterns\<close>

lemma HasPrefix_iff: "HasPrefix s p \<longleftrightarrow> (\<exists>r. s = p @ r)"
  by (induction s p rule: HasPrefix.induct) auto

lemma HasPrefix_trans: "HasPrefix s p \<Longrightarrow> HasPrefix p q \<Longrightarrow> HasPrefix s q"
  by (auto simp: HasPrefix_iff)

lemma MatchPattern_fst_CutStar: "MatchPattern want (fst (CutStar want))"
  by (auto simp: MatchPattern_def CutStar_def HasPrefix_iff)

lemma MatchPattern_longer: "snd (CutStar want) \<Longrightarrow> MatchPattern want (fst (CutStar want) @ r)"
  by (auto simp: MatchPattern_def HasPrefix_iff split: prod.split)

lemma CutStar_cases:
  obtains (star) p where "s = p @ ''*''" and "CutStar s = (p, True)" | (plain) "CutStar s = (s, False)"
proof (cases "s \<noteq> [] \<and> last s = CHR ''*''")
  case True
  then have "s = butlast s @ ''*''" by (metis append_butlast_last_id)
  moreover have "CutStar s = (butlast s, True)" using True by (simp add: CutStar_def)
  ultimately show thesis by (rule star)
next
  case False
  then have "CutStar s = (s, False)" by (simp add: CutStar_def)
  then show thesis by (rule plain)
qed

lemma patternCovers_match:
  assumes "patternCovers have want" and "MatchPattern want name"
  shows "MatchPattern have name"
proof (cases "have" rule: CutStar_cases)
  case h: (star p)
  have p: "HasPrefix (fst (CutStar want)) p"
    using assms(1) h(2) by (simp add: patternCovers_def)
  have "HasPrefix name (fst (CutStar want))"
    using assms(2) by (cases want rule: CutStar_cases) (simp_all add: MatchPattern_def HasPrefix_iff)
  then show ?thesis
    using HasPrefix_trans [OF _ p] h(2) by (simp add: MatchPattern_def)
next
  case plain
  then show ?thesis using assms by (simp add: patternCovers_def)
qed

text \<open>
  C25. Pattern coverage is exact: \<^verbatim>\<open>patternCovers(have, want)\<close> holds if and only if every topic name that
  \<^verbatim>\<open>want\<close> matches is matched by \<^verbatim>\<open>have\<close>.
\<close>

theorem patternCovers_exact:
  "patternCovers have want \<longleftrightarrow> (\<forall>name. MatchPattern want name \<longrightarrow> MatchPattern have name)"
proof
  show "patternCovers have want \<Longrightarrow> \<forall>name. MatchPattern want name \<longrightarrow> MatchPattern have name"
    by (blast intro: patternCovers_match)
next
  assume all: "\<forall>name. MatchPattern want name \<longrightarrow> MatchPattern have name"
  have fst: "MatchPattern have (fst (CutStar want))"
    using all MatchPattern_fst_CutStar by blast
  show "patternCovers have want"
  proof (cases "have" rule: CutStar_cases)
    case (star p)
    then show ?thesis using fst by (simp add: patternCovers_def MatchPattern_def)
  next
    case plain
    then have lit: "MatchPattern have n \<longleftrightarrow> have = n" for n
      by (simp add: MatchPattern_def)
    have "have = want"
    proof (cases want rule: CutStar_cases)
      case (star p)
      have "have = p @ ''x''"
        using all MatchPattern_longer [of want "''x''"] star(2) unfolding lit by simp
      moreover have "have = p" using fst star(2) unfolding lit by simp
      ultimately show ?thesis by simp
    next
      case plain
      then show ?thesis using fst unfolding lit by simp
    qed
    then show ?thesis using plain by (simp add: patternCovers_def)
  qed
qed

theorem patternCovers_exact_witness:
  "patternCovers ''orders-*'' ''orders-eu-*'' \<and> MatchPattern ''orders-eu-*'' ''orders-eu-1''
   \<and> MatchPattern ''orders-*'' ''orders-eu-1''"
proof -
  have c: "patternCovers ''orders-*'' ''orders-eu-*''"
    by (simp add: patternCovers_def CutStar_def)
  have m: "MatchPattern ''orders-eu-*'' ''orders-eu-1''"
    by (simp add: MatchPattern_def CutStar_def)
  show ?thesis using patternCovers_exact [of "''orders-*''" "''orders-eu-*''"] c m by blast
qed

section \<open>Delegation\<close>

lemma Covers_Allowed:
  assumes "Covers granted requested" and "\<not> IsAdmin (emptyUser\<lparr>uGrants := granted\<rparr>)"
    and "g \<in> set requested" and "p \<in> set (gPatterns g)" and "MatchPattern p name"
  shows "\<exists>h \<in> set granted. gAction h = gAction g \<and> (\<exists>q \<in> set (gPatterns h). MatchPattern q name)"
proof -
  have "patternCovered granted (gAction g) p"
    using assms(1-4) by (auto simp: Covers_def list_all_iff)
  then show ?thesis
    unfolding patternCovered_def list_ex_iff using patternCovers_match [OF _ assms(5)] by blast
qed

lemma IsAdmin_grants: "IsAdmin (emptyUser\<lparr>uGrants := gs\<rparr>) \<longleftrightarrow> (\<exists>g \<in> set gs. gAction g = ActionAdmin)"
  by (simp add: IsAdmin_def emptyUser_def list_ex_iff)

text \<open>
  C11. Delegation never escalates: when \<^verbatim>\<open>CanDelegate\<close> lets a user confer a set of grants, every action on
  every topic those grants allow (and every topic they make visible) is one the user is allowed
  already; and unless the user is root, the new principal is not an admin.
\<close>

theorem no_escalation:
  assumes "CanDelegate u requested" and "v = emptyUser\<lparr>uUsername := name, uGrants := requested\<rparr>"
  shows "(\<forall>action topic. Allowed v action topic \<longrightarrow> Allowed u action topic) \<and>
    (\<forall>topic. AllowedAny v topic \<longrightarrow> AllowedAny u topic) \<and> (IsAdmin v \<longrightarrow> uRoot u)"
proof (cases "IsAdmin u")
  case True
  have "IsAdmin v \<longrightarrow> uRoot u"
    using assms by (auto simp: CanDelegate_def IsAdmin_def emptyUser_def list_ex_iff split: if_splits)
  with True show ?thesis by (simp add: Allowed_def AllowedAny_def)
next
  case False
  then have cov: "Covers (uGrants u) requested" and nr: "\<not> uRoot u"
    and na: "\<forall>g \<in> set requested. gAction g \<noteq> ActionAdmin"
    using assms(1) by (auto simp: CanDelegate_def IsAdmin_def list_ex_iff split: if_splits)
  have nadm: "\<not> IsAdmin (emptyUser\<lparr>uGrants := uGrants u\<rparr>)"
    using False by (auto simp: IsAdmin_def emptyUser_def split: if_splits)
  have vn: "\<not> IsAdmin v" and vg: "uGrants v = requested"
    using na by (auto simp: assms(2) IsAdmin_def emptyUser_def list_ex_iff)
  note cover = Covers_Allowed [OF cov nadm]
  have v: "Allowed v a n \<longleftrightarrow> (\<exists>g\<in>set requested. gAction g = a \<and> (\<exists>p\<in>set (gPatterns g). MatchPattern p n))"
    "AllowedAny v n \<longleftrightarrow> (\<exists>g\<in>set requested. \<exists>p\<in>set (gPatterns g). MatchPattern p n)" for a n
    using vn vg by (simp_all add: Allowed_def AllowedAny_def list_ex_iff)
  have u: "Allowed u a n \<longleftrightarrow> (\<exists>g\<in>set (uGrants u). gAction g = a \<and> (\<exists>p\<in>set (gPatterns g). MatchPattern p n))"
    "AllowedAny u n \<longleftrightarrow> (\<exists>g\<in>set (uGrants u). \<exists>p\<in>set (gPatterns g). MatchPattern p n)" for a n
    using False by (simp_all add: Allowed_def AllowedAny_def list_ex_iff)
  show ?thesis
    unfolding v u using cover vn by blast
qed

theorem no_escalation_witness:
  "\<not> Allowed (emptyUser\<lparr>uUsername := ''bob'', uGrants := [\<lparr>gAction = ''consume'', gPatterns = [''a1*'']\<rparr>]\<rparr>)
      ''produce'' ''a12''"
proof -
  let ?u = "emptyUser\<lparr>uUsername := ''ann'', uGrants := [\<lparr>gAction = ''consume'', gPatterns = [''a*'']\<rparr>]\<rparr>"
  let ?r = "[\<lparr>gAction = ''consume'', gPatterns = [''a1*'']\<rparr>]"
  have can: "CanDelegate ?u ?r"
    by (simp add: CanDelegate_def Covers_def IsAdmin_def emptyUser_def patternCovered_def patternCovers_def
        CutStar_def ActionAdmin_def)
  have "\<not> Allowed ?u ''produce'' ''a12''"
    by (simp add: Allowed_def IsAdmin_def emptyUser_def ActionAdmin_def)
  then show ?thesis
    using no_escalation [OF can refl, of "''bob''"] by blast
qed

section \<open>Names never hold a separator\<close>

lemma nameChar_separators: "nameChar c \<Longrightarrow> c \<noteq> CHR '':'' \<and> c \<noteq> CHR ''/'' \<and> c \<noteq> CHR ''*''"
  by (auto simp: nameChar_def less_eq_char_def)

lemma ValidateName_chars:
  "ValidateName n = Inr () \<Longrightarrow> n \<noteq> [] \<and> length n \<le> 255 \<and> list_all nameChar n"
  by (auto simp: ValidateName_def namePattern_def split: if_splits)

lemma ValidateName_no_colon: "ValidateName n = Inr () \<Longrightarrow> CHR '':'' \<notin> set n"
  using ValidateName_chars [of n] nameChar_separators by (auto simp: list_all_iff)

end
