(* ===== verification/Domain_Versions.thy ===== *)
theory Domain_Versions
  imports Errs
begin

text \<open>
  The metastore's cache-invalidation versions: \<^verbatim>\<open>src/internal/persistence/metastore/domain_versions.go\<close>.
  A domain publishes a table with a cell per key and a floor for the keys without one; deleted names
  leave tombstones that are pruned in batches. Writers hold one mutex, so each call is one step; a
  reader uses one published table, so a read is a function of the state. The counter is a natural
  number: the \<^verbatim>\<open>uint64\<close> of the source wraps only after \<open>2\<^sup>6\<^sup>4\<close> writes.

  The lemmas show that a key's version never goes back and moves whenever the key is touched, so a
  cached value that still carries its key's version is current, and that the tables stay bounded by
  the live names.
\<close>

record versionTable =
  vtCells :: "(string, nat) omap"
  vtFloor :: nat

record keyedVersions =
  kvTable :: "versionTable option"
  kvRetired :: "string oset"

record metadataDomainVersions =
  dvNext :: nat
  dvTopics :: keyedVersions
  dvAssignments :: keyedVersions
  dvSchemas :: keyedVersions
  dvRoutingMembers :: nat
  dvUsers :: nat
  dvRemotes :: nat

definition maxRetiredKeys :: nat where "maxRetiredKeys = 1024"

definition newKeyedVersions :: keyedVersions where
  "newKeyedVersions = \<lparr>kvTable = None, kvRetired = []\<rparr>"

definition newMetadataDomainVersions :: metadataDomainVersions where
  "newMetadataDomainVersions =
     \<lparr>dvNext = 0, dvTopics = newKeyedVersions, dvAssignments = newKeyedVersions, dvSchemas = newKeyedVersions,
      dvRoutingMembers = 0, dvUsers = 0, dvRemotes = 0\<rparr>"

definition kv_version :: "keyedVersions \<Rightarrow> string \<Rightarrow> nat" where
  "kv_version k key =
     (case kvTable k of
        None \<Rightarrow> 0
      | Some t \<Rightarrow> (case om_get (vtCells t) key of Some cell \<Rightarrow> cell | None \<Rightarrow> vtFloor t))"

definition kv_set :: "string \<Rightarrow> nat \<Rightarrow> keyedVersions \<Rightarrow> keyedVersions" where
  "kv_set key version k =
     (case kvTable k of
        None \<Rightarrow> k\<lparr>kvTable := Some \<lparr>vtCells = om_put key version [], vtFloor = 0\<rparr>\<rparr>
      | Some old \<Rightarrow>
          if om_mem (vtCells old) key
          then k\<lparr>kvTable := Some (old\<lparr>vtCells := om_put key version (vtCells old)\<rparr>),
                 kvRetired := om_del key (kvRetired k)\<rparr>
          else k\<lparr>kvTable := Some \<lparr>vtCells = om_put key version (vtCells old), vtFloor = vtFloor old\<rparr>\<rparr>)"

definition kv_retire :: "string \<Rightarrow> nat \<Rightarrow> nat \<Rightarrow> keyedVersions \<Rightarrow> keyedVersions \<times> nat" where
  "kv_retire key version next k0 =
     (let k1 = kv_set key version k0;
          k = k1\<lparr>kvRetired := om_put key () (kvRetired k1)\<rparr>
      in if length (kvRetired k) < maxRetiredKeys then (k, next)
         else (case kvTable k of
                 None \<Rightarrow> (k, next)
               | Some old \<Rightarrow>
                   (k\<lparr>kvTable := Some \<lparr>vtCells = om_filter (\<lambda>name. \<not> om_mem (kvRetired k) name) (vtCells old),
                                       vtFloor = Suc next\<rparr>,
                      kvRetired := []\<rparr>, Suc next)))"

definition kv_reset :: "nat \<Rightarrow> keyedVersions \<Rightarrow> keyedVersions" where
  "kv_reset version k = k\<lparr>kvTable := Some \<lparr>vtCells = [], vtFloor = version\<rparr>, kvRetired := []\<rparr>"

definition bumpTopic :: "string \<Rightarrow> metadataDomainVersions \<Rightarrow> metadataDomainVersions" where
  "bumpTopic name v = v\<lparr>dvNext := Suc (dvNext v), dvTopics := kv_set name (Suc (dvNext v)) (dvTopics v)\<rparr>"

definition bumpAssignment :: "string \<Rightarrow> metadataDomainVersions \<Rightarrow> metadataDomainVersions" where
  "bumpAssignment name v = v\<lparr>dvNext := Suc (dvNext v), dvAssignments := kv_set name (Suc (dvNext v)) (dvAssignments v)\<rparr>"

definition bumpSchema :: "string \<Rightarrow> metadataDomainVersions \<Rightarrow> metadataDomainVersions" where
  "bumpSchema name v = v\<lparr>dvNext := Suc (dvNext v), dvSchemas := kv_set name (Suc (dvNext v)) (dvSchemas v)\<rparr>"

definition bumpRoutingMembers :: "metadataDomainVersions \<Rightarrow> metadataDomainVersions" where
  "bumpRoutingMembers v = v\<lparr>dvNext := Suc (dvNext v), dvRoutingMembers := Suc (dvNext v)\<rparr>"

definition bumpUsers :: "metadataDomainVersions \<Rightarrow> metadataDomainVersions" where
  "bumpUsers v = v\<lparr>dvNext := Suc (dvNext v), dvUsers := Suc (dvNext v)\<rparr>"

definition bumpRemotes :: "metadataDomainVersions \<Rightarrow> metadataDomainVersions" where
  "bumpRemotes v = v\<lparr>dvNext := Suc (dvNext v), dvRemotes := Suc (dvNext v)\<rparr>"

definition bumpAll :: "metadataDomainVersions \<Rightarrow> metadataDomainVersions" where
  "bumpAll v =
     (let version = Suc (dvNext v)
      in v\<lparr>dvNext := version, dvTopics := kv_reset version (dvTopics v),
           dvAssignments := kv_reset version (dvAssignments v), dvSchemas := kv_reset version (dvSchemas v),
           dvRoutingMembers := version, dvUsers := version, dvRemotes := version\<rparr>)"

definition retireAssignments :: "string \<Rightarrow> metadataDomainVersions \<Rightarrow> metadataDomainVersions" where
  "retireAssignments name v =
     (let (a, n) = kv_retire name (Suc (dvNext v)) (Suc (dvNext v)) (dvAssignments v)
      in v\<lparr>dvAssignments := a, dvNext := n\<rparr>)"

definition retireTopic :: "string \<Rightarrow> metadataDomainVersions \<Rightarrow> metadataDomainVersions" where
  "retireTopic name v =
     (let (t, n1) = kv_retire name (Suc (dvNext v)) (Suc (dvNext v)) (dvTopics v);
          (a, n2) = kv_retire name (Suc n1) (Suc n1) (dvAssignments v);
          (s, n3) = kv_retire name (Suc n2) (Suc n2) (dvSchemas v)
      in v\<lparr>dvTopics := t, dvAssignments := a, dvSchemas := s, dvNext := n3\<rparr>)"

definition topicVersion :: "metadataDomainVersions \<Rightarrow> string \<Rightarrow> nat" where
  "topicVersion v name = kv_version (dvTopics v) name"

definition assignmentVersion :: "metadataDomainVersions \<Rightarrow> string \<Rightarrow> nat" where
  "assignmentVersion v name = kv_version (dvAssignments v) name"

definition schemaVersion :: "metadataDomainVersions \<Rightarrow> string \<Rightarrow> nat" where
  "schemaVersion v name = kv_version (dvSchemas v) name"

section \<open>One domain\<close>

text \<open>
  The invariant of a domain below a counter value: nothing handed out exceeds the counter, tombstones
  have cells, and fewer than a batch of them wait.
\<close>

definition kv_inv :: "nat \<Rightarrow> keyedVersions \<Rightarrow> bool" where
  "kv_inv n k \<longleftrightarrow>
     (case kvTable k of
        None \<Rightarrow> kvRetired k = []
      | Some t \<Rightarrow> om_wf (vtCells t) \<and> vtFloor t \<le> n \<and> (\<forall>key c. om_get (vtCells t) key = Some c \<longrightarrow> c \<le> n) \<and>
          (\<forall>key. om_mem (kvRetired k) key \<longrightarrow> om_mem (vtCells t) key)) \<and>
     om_wf (kvRetired k) \<and> length (kvRetired k) < maxRetiredKeys"

lemma kv_inv_new [simp]: "kv_inv n newKeyedVersions"
  by (simp add: kv_inv_def newKeyedVersions_def maxRetiredKeys_def)

lemma kv_inv_mono: "kv_inv n k \<Longrightarrow> n \<le> m \<Longrightarrow> kv_inv m k"
  by (auto simp: kv_inv_def split: option.splits intro: order_trans)

lemma kv_version_le: "kv_inv n k \<Longrightarrow> kv_version k key \<le> n"
  by (auto simp: kv_inv_def kv_version_def split: option.splits)

lemma kv_version_set: "kv_version (kv_set key w k) key' = (if key' = key then w else kv_version k key')"
  by (auto simp: kv_version_def kv_set_def split: option.splits)

lemma kv_inv_set:
  assumes "kv_inv n k" and "n \<le> w"
  shows "kv_inv w (kv_set key w k)"
proof (cases "kvTable k")
  case None
  then show ?thesis using assms by (auto simp: kv_inv_def kv_set_def maxRetiredKeys_def om_wf_Cons)
next
  case (Some t)
  have le: "length (om_del key (kvRetired k)) < maxRetiredKeys"
    using assms(1) length_om_filter [of "\<lambda>k'. k' \<noteq> key" "kvRetired k"] by (simp add: kv_inv_def om_del_def)
  show ?thesis
    using assms Some le by (auto simp: kv_inv_def kv_set_def intro: order_trans)
qed

lemma kv_set_cell: "\<exists>t. kvTable (kv_set key w k) = Some t \<and> om_mem (vtCells t) key"
  by (auto simp: kv_set_def split: option.split)

text \<open>What retiring a key does to its domain: the key's version is fresh, no version falls.\<close>

lemma kv_retire_cases:
  assumes "kv_inv n k" and "n < w" and "kv_retire key w w k = (k', n')"
  shows "kv_inv n' k' \<and> w \<le> n' \<and> w \<le> kv_version k' key \<and>
    (\<forall>key'. kv_version k key' \<le> kv_version k' key')"
proof -
  define k1 where "k1 = kv_set key w k"
  define r where "r = om_put key () (kvRetired k1)"
  have k1: "kv_inv w k1" using kv_inv_set [OF assms(1)] assms(2) by (simp add: k1_def)
  have ver: "kv_version k1 key' = (if key' = key then w else kv_version k key')" for key'
    by (simp add: k1_def kv_version_set)
  have mono: "kv_version k key' \<le> kv_version k1 key'" for key'
    using kv_version_le [OF assms(1), of key'] assms(2) by (auto simp: ver)
  obtain t where t: "kvTable k1 = Some t" and cell: "om_mem (vtCells t) key"
    using kv_set_cell [of key w k] by (auto simp: k1_def)
  have same: "kv_version (k1\<lparr>kvRetired := r\<rparr>) key' = kv_version k1 key'" for key'
    by (simp add: kv_version_def)
  show ?thesis
  proof (cases "length r < maxRetiredKeys")
    case True
    have out: "k' = k1\<lparr>kvRetired := r\<rparr>" "n' = w"
      using assms(3) True by (auto simp: kv_retire_def Let_def k1_def [symmetric] r_def [symmetric])
    have "kv_inv w (k1\<lparr>kvRetired := r\<rparr>)"
      using k1 t cell True by (auto simp: kv_inv_def r_def)
    then show ?thesis using mono by (simp add: out same ver)
  next
    case False
    have out: "k' = k1\<lparr>kvTable := Some \<lparr>vtCells = om_filter (\<lambda>name. \<not> om_mem r name) (vtCells t), vtFloor = Suc w\<rparr>,
        kvRetired := []\<rparr>" "n' = Suc w"
      using assms(3) False t by (auto simp: kv_retire_def Let_def k1_def [symmetric] r_def [symmetric])
    have v': "kv_version k' key' = (if om_mem r key' \<or> \<not> om_mem (vtCells t) key' then Suc w else kv_version k1 key')" for key'
      by (auto simp: out kv_version_def t om_mem_def split: option.splits)
    have "kv_inv (Suc w) k'"
      using k1 t by (auto simp: out kv_inv_def maxRetiredKeys_def intro: le_SucI)
    moreover have "kv_version k1 key' \<le> w" for key' by (rule kv_version_le [OF k1])
    ultimately show ?thesis
      using mono by (auto simp: v' out(2) r_def intro: order_trans le_SucI)
  qed
qed

lemma kv_version_reset [simp]: "kv_version (kv_reset w k) key = w"
  by (simp add: kv_version_def kv_reset_def)

lemma kv_inv_reset: "kv_inv w (kv_reset w k)"
  by (simp add: kv_inv_def kv_reset_def maxRetiredKeys_def)

section \<open>The domains together\<close>

datatype dv_op =
    BumpTopic string | BumpAssignment string | BumpSchema string
  | BumpRoutingMembers | BumpUsers | BumpRemotes | BumpAll
  | RetireTopic string | RetireAssignments string

fun dv_step :: "dv_op \<Rightarrow> metadataDomainVersions \<Rightarrow> metadataDomainVersions" where
  "dv_step (BumpTopic n) v = bumpTopic n v"
| "dv_step (BumpAssignment n) v = bumpAssignment n v"
| "dv_step (BumpSchema n) v = bumpSchema n v"
| "dv_step BumpRoutingMembers v = bumpRoutingMembers v"
| "dv_step BumpUsers v = bumpUsers v"
| "dv_step BumpRemotes v = bumpRemotes v"
| "dv_step BumpAll v = bumpAll v"
| "dv_step (RetireTopic n) v = retireTopic n v"
| "dv_step (RetireAssignments n) v = retireAssignments n v"

datatype dv_key = KTopic string | KAssignment string | KSchema string | KRouting | KUsers | KRemotes

fun version_of :: "metadataDomainVersions \<Rightarrow> dv_key \<Rightarrow> nat" where
  "version_of v (KTopic n) = topicVersion v n"
| "version_of v (KAssignment n) = assignmentVersion v n"
| "version_of v (KSchema n) = schemaVersion v n"
| "version_of v KRouting = dvRoutingMembers v"
| "version_of v KUsers = dvUsers v"
| "version_of v KRemotes = dvRemotes v"

fun touches :: "dv_op \<Rightarrow> dv_key set" where
  "touches (BumpTopic n) = {KTopic n}"
| "touches (BumpAssignment n) = {KAssignment n}"
| "touches (BumpSchema n) = {KSchema n}"
| "touches BumpRoutingMembers = {KRouting}"
| "touches BumpUsers = {KUsers}"
| "touches BumpRemotes = {KRemotes}"
| "touches BumpAll = UNIV"
| "touches (RetireTopic n) = {KTopic n, KAssignment n, KSchema n}"
| "touches (RetireAssignments n) = {KAssignment n}"

definition dv_inv :: "metadataDomainVersions \<Rightarrow> bool" where
  "dv_inv v \<longleftrightarrow> kv_inv (dvNext v) (dvTopics v) \<and> kv_inv (dvNext v) (dvAssignments v) \<and>
     kv_inv (dvNext v) (dvSchemas v) \<and> dvRoutingMembers v \<le> dvNext v \<and> dvUsers v \<le> dvNext v \<and>
     dvRemotes v \<le> dvNext v"

lemma dv_inv_new [simp]: "dv_inv newMetadataDomainVersions"
  by (simp add: dv_inv_def newMetadataDomainVersions_def)

lemmas version_defs = topicVersion_def assignmentVersion_def schemaVersion_def

lemma version_of_le: "dv_inv v \<Longrightarrow> version_of v k \<le> dvNext v"
  by (cases k) (auto simp: dv_inv_def version_defs intro: kv_version_le)

text \<open>\<open>moved v v' K\<close>: \<open>v'\<close> is a later state in which the keys of \<open>K\<close> read a version never read before.\<close>

definition moved :: "metadataDomainVersions \<Rightarrow> metadataDomainVersions \<Rightarrow> dv_key set \<Rightarrow> bool" where
  "moved v v' K \<longleftrightarrow> dv_inv v' \<and> dvNext v \<le> dvNext v' \<and> (\<forall>k. version_of v k \<le> version_of v' k) \<and>
     (\<forall>k \<in> K. dvNext v < version_of v' k)"

lemma movedI:
  assumes "dvNext v \<le> dvNext v'"
    and "kv_inv (dvNext v') (dvTopics v')" "kv_inv (dvNext v') (dvAssignments v')" "kv_inv (dvNext v') (dvSchemas v')"
    and "dvRoutingMembers v' \<le> dvNext v'" "dvUsers v' \<le> dvNext v'" "dvRemotes v' \<le> dvNext v'"
    and "\<And>x. kv_version (dvTopics v) x \<le> kv_version (dvTopics v') x"
    and "\<And>x. kv_version (dvAssignments v) x \<le> kv_version (dvAssignments v') x"
    and "\<And>x. kv_version (dvSchemas v) x \<le> kv_version (dvSchemas v') x"
    and "dvRoutingMembers v \<le> dvRoutingMembers v'" "dvUsers v \<le> dvUsers v'" "dvRemotes v \<le> dvRemotes v'"
    and "\<And>k. k \<in> K \<Longrightarrow> dvNext v < version_of v' k"
  shows "moved v v' K"
proof -
  have "version_of v k \<le> version_of v' k" for k
    using assms by (cases k) (simp_all add: version_defs)
  then show ?thesis using assms by (simp add: moved_def dv_inv_def)
qed

lemma moved_trans: "moved v v' K \<Longrightarrow> moved v' v'' K' \<Longrightarrow> moved v v'' (K \<union> K')"
  by (auto simp: moved_def intro: order_trans less_le_trans le_less_trans)

lemma dv_invD:
  assumes "dv_inv v"
  shows "kv_inv (dvNext v) (dvTopics v)" "kv_inv (dvNext v) (dvAssignments v)" "kv_inv (dvNext v) (dvSchemas v)"
    "dvRoutingMembers v \<le> dvNext v" "dvUsers v \<le> dvNext v" "dvRemotes v \<le> dvNext v"
  using assms by (simp_all add: dv_inv_def)

lemma kv_inv_Suc: "kv_inv n k \<Longrightarrow> kv_inv (Suc n) k"
  using kv_inv_mono by simp

lemma kv_inv_set_Suc: "kv_inv n k \<Longrightarrow> kv_inv (Suc n) (kv_set key (Suc n) k)"
  using kv_inv_set [of n k "Suc n"] by simp

lemma kv_version_set_Suc: "kv_inv n k \<Longrightarrow> kv_version k x \<le> kv_version (kv_set key (Suc n) k) x"
  using kv_version_le [of n k x] by (auto simp: kv_version_set)

lemma kv_version_Suc: "kv_inv n k \<Longrightarrow> kv_version k x \<le> Suc n"
  using kv_version_le [of n k x] by simp

lemmas bump_facts = dv_invD kv_version_Suc kv_inv_Suc kv_inv_set_Suc kv_version_set_Suc le_SucI version_defs kv_version_set

lemma moved_bumpTopic: "dv_inv v \<Longrightarrow> moved v (bumpTopic n v) {KTopic n}"
  by (rule movedI) (simp_all add: bumpTopic_def bump_facts)

lemma moved_bumpAssignment: "dv_inv v \<Longrightarrow> moved v (bumpAssignment n v) {KAssignment n}"
  by (rule movedI) (simp_all add: bumpAssignment_def bump_facts)

lemma moved_bumpSchema: "dv_inv v \<Longrightarrow> moved v (bumpSchema n v) {KSchema n}"
  by (rule movedI) (simp_all add: bumpSchema_def bump_facts)

lemma moved_bumpRoutingMembers: "dv_inv v \<Longrightarrow> moved v (bumpRoutingMembers v) {KRouting}"
  by (rule movedI) (simp_all add: bumpRoutingMembers_def bump_facts)

lemma moved_bumpUsers: "dv_inv v \<Longrightarrow> moved v (bumpUsers v) {KUsers}"
  by (rule movedI) (simp_all add: bumpUsers_def bump_facts)

lemma moved_bumpRemotes: "dv_inv v \<Longrightarrow> moved v (bumpRemotes v) {KRemotes}"
  by (rule movedI) (simp_all add: bumpRemotes_def bump_facts)

lemma moved_bumpAll:
  assumes "dv_inv v"
  shows "moved v (bumpAll v) UNIV"
proof (rule movedI)
  fix k :: dv_key
  show "dvNext v < version_of (bumpAll v) k"
    by (cases k) (simp_all add: bumpAll_def version_defs)
qed (use dv_invD [OF assms] in \<open>simp_all add: bumpAll_def kv_inv_reset kv_version_le le_SucI\<close>)

lemma moved_retireAssignments:
  assumes "dv_inv v"
  shows "moved v (retireAssignments n v) {KAssignment n}"
proof -
  obtain a n1 where r: "kv_retire n (Suc (dvNext v)) (Suc (dvNext v)) (dvAssignments v) = (a, n1)" by fastforce
  note c = kv_retire_cases [OF dv_invD(2) [OF assms] lessI r]
  have up: "kv_inv n1 k" if "kv_inv (dvNext v) k" for k using kv_inv_mono [OF that] c by simp
  have sc: "dvNext v \<le> n1" using c by simp
  have v': "retireAssignments n v = v\<lparr>dvAssignments := a, dvNext := n1\<rparr>"
    by (simp add: retireAssignments_def r)
  show ?thesis
    by (rule movedI) (use c up sc dv_invD [OF assms] in \<open>auto simp: v' version_defs\<close>)
qed

lemma moved_retireTopic:
  assumes "dv_inv v"
  shows "moved v (retireTopic n v) {KTopic n, KAssignment n, KSchema n}"
proof -
  obtain t n1 where r1: "kv_retire n (Suc (dvNext v)) (Suc (dvNext v)) (dvTopics v) = (t, n1)" by fastforce
  obtain a n2 where r2: "kv_retire n (Suc n1) (Suc n1) (dvAssignments v) = (a, n2)" by fastforce
  obtain s n3 where r3: "kv_retire n (Suc n2) (Suc n2) (dvSchemas v) = (s, n3)" by fastforce
  note c1 = kv_retire_cases [OF dv_invD(1) [OF assms] lessI r1]
  have i2: "kv_inv n1 (dvAssignments v)" using kv_inv_mono [OF dv_invD(2) [OF assms]] c1 by simp
  note c2 = kv_retire_cases [OF i2 lessI r2]
  have i3: "kv_inv n2 (dvSchemas v)" using kv_inv_mono [OF dv_invD(3) [OF assms]] c1 c2 by simp
  note c3 = kv_retire_cases [OF i3 lessI r3]
  have le: "dvNext v < n1" "n1 < n2" "n2 < n3" using c1 c2 c3 by simp_all
  have inv: "kv_inv n3 t" "kv_inv n3 a" "kv_inv n3 s"
    using c1 c2 c3 le kv_inv_mono [of n1 t n3] kv_inv_mono [of n2 a n3] by simp_all
  have v': "retireTopic n v = v\<lparr>dvTopics := t, dvAssignments := a, dvSchemas := s, dvNext := n3\<rparr>"
    by (simp add: retireTopic_def r1 r2 r3)
  have fresh: "dvNext v < kv_version t n" "dvNext v < kv_version a n" "dvNext v < kv_version s n"
    using c1 c2 c3 le by linarith+
  have sc: "dvRoutingMembers v \<le> n3" "dvUsers v \<le> n3" "dvRemotes v \<le> n3"
    using dv_invD(4-6) [OF assms] le by linarith+
  show ?thesis
    by (rule movedI) (use c1 c2 c3 le inv fresh sc in \<open>auto simp: v' version_defs\<close>)
qed

lemma moved_step: "dv_inv v \<Longrightarrow> moved v (dv_step op v) (touches op)"
  by (cases op) (simp_all add: moved_bumpTopic moved_bumpAssignment moved_bumpSchema moved_bumpRoutingMembers
      moved_bumpUsers moved_bumpRemotes moved_bumpAll moved_retireTopic moved_retireAssignments)

lemma moved_refl: "dv_inv v \<Longrightarrow> moved v v {}"
  by (simp add: moved_def)

lemma moved_fold: "dv_inv v \<Longrightarrow> moved v (fold dv_step ops v) (\<Union> (touches ` set ops))"
proof (induction ops arbitrary: v)
  case Nil
  then show ?case by (simp add: moved_refl)
next
  case (Cons op ops)
  have m: "moved v (dv_step op v) (touches op)" by (rule moved_step [OF Cons.prems])
  then have "dv_inv (dv_step op v)" by (simp add: moved_def)
  from moved_trans [OF m Cons.IH [OF this]] show ?case by simp
qed

text \<open>
  C14. A cached read is current while its version is: whatever sequence of bumps, retirements, prunes and
  restores a node performs, a key's version never goes back, and if a key reads the same version at two
  moments then no operation between them touched the key.
\<close>

theorem cached_version_current:
  assumes "v = fold dv_step earlier newMetadataDomainVersions" and "v' = fold dv_step later v"
  shows "version_of v k \<le> version_of v' k \<and>
    (version_of v' k = version_of v k \<longrightarrow> (\<forall>op \<in> set later. k \<notin> touches op))"
proof -
  have inv: "dv_inv v" using moved_fold [OF dv_inv_new, of earlier] by (simp add: assms(1) moved_def)
  note m = moved_fold [OF inv, of later, folded assms(2), unfolded moved_def]
  have "version_of v k \<le> dvNext v" by (rule version_of_le [OF inv])
  then show ?thesis using m by fastforce
qed

theorem cached_version_current_witness:
  "version_of (fold dv_step [BumpTopic ''b'', RetireTopic ''a''] (fold dv_step [BumpTopic ''a''] newMetadataDomainVersions)) (KTopic ''a'') \<noteq> 1"
proof -
  have v1: "version_of (fold dv_step [BumpTopic ''a''] newMetadataDomainVersions) (KTopic ''a'') = 1"
    by (simp add: version_defs bumpTopic_def kv_version_set newMetadataDomainVersions_def)
  show ?thesis
    using cached_version_current [OF refl refl, of "[BumpTopic ''a'']" "KTopic ''a''" "[BumpTopic ''b'', RetireTopic ''a'']"] v1
    by simp
qed

section \<open>The tables stay bounded\<close>

text \<open>The names of a domain whose last operation was a bump, over a sequence of operations on it.\<close>

datatype kv_op = KSet string | KRetire string | KReset

fun kv_step :: "kv_op \<Rightarrow> keyedVersions \<times> nat \<Rightarrow> keyedVersions \<times> nat" where
  "kv_step (KSet key) (k, n) = (kv_set key (Suc n) k, Suc n)"
| "kv_step (KRetire key) (k, n) = kv_retire key (Suc n) (Suc n) k"
| "kv_step KReset (k, n) = (kv_reset (Suc n) k, Suc n)"

fun live_step :: "kv_op \<Rightarrow> string set \<Rightarrow> string set" where
  "live_step (KSet key) L = insert key L"
| "live_step (KRetire key) L = L - {key}"
| "live_step KReset L = {}"

definition cells_of :: "keyedVersions \<Rightarrow> (string, nat) omap" where
  "cells_of k = (case kvTable k of None \<Rightarrow> [] | Some t \<Rightarrow> vtCells t)"

definition bounded_by :: "string set \<Rightarrow> keyedVersions \<Rightarrow> bool" where
  "bounded_by L k \<longleftrightarrow> (\<forall>key. om_mem (cells_of k) key \<longrightarrow> key \<in> L \<or> om_mem (kvRetired k) key)"

lemma cells_of_set: "om_mem (cells_of (kv_set key w k)) x \<longleftrightarrow> x = key \<or> om_mem (cells_of k) x"
  by (simp add: cells_of_def kv_set_def split: option.splits)

lemma retired_set: "om_mem (kvRetired (kv_set key w k)) x \<Longrightarrow> om_mem (kvRetired k) x"
  "x \<noteq> key \<Longrightarrow> om_mem (kvRetired k) x \<Longrightarrow> om_mem (kvRetired (kv_set key w k)) x"
  by (auto simp: kv_set_def split: option.splits if_splits)

lemma bounded_step:
  assumes "kv_inv n k" and "bounded_by L k" and "kv_step op (k, n) = (k', n')"
  shows "bounded_by (live_step op L) k' \<and> kv_inv n' k'"
proof (cases op)
  case (KSet key)
  then have out: "k' = kv_set key (Suc n) k" "n' = Suc n" using assms(3) by auto
  show ?thesis
    using assms(2) kv_inv_set_Suc [OF assms(1)] retired_set(2) [of _ key k "Suc n"]
    unfolding out KSet bounded_by_def cells_of_set live_step.simps by blast
next
  case KReset
  then show ?thesis using assms kv_inv_reset [of "Suc n" k] by (auto simp: bounded_by_def cells_of_def kv_reset_def)
next
  case (KRetire key)
  define k1 where "k1 = kv_set key (Suc n) k"
  have b1: "\<forall>x. om_mem (cells_of k1) x \<and> x \<noteq> key \<longrightarrow> x \<in> L \<or> om_mem (kvRetired k1) x"
    using assms(2) retired_set(2) [of _ key k "Suc n"]
    unfolding bounded_by_def k1_def cells_of_set by blast
  have r: "kv_retire key (Suc n) (Suc n) k = (k', n')" using assms(3) KRetire by simp
  have "bounded_by (L - {key}) k'"
    using r b1 by (auto simp: bounded_by_def kv_retire_def Let_def k1_def [symmetric] cells_of_def
        split: if_splits option.splits) blast
  then show ?thesis using kv_retire_cases [OF assms(1) lessI r] KRetire by simp
qed

lemma bounded_run:
  assumes "kv_inv n k" and "bounded_by L k" and "fold kv_step ops (k, n) = (k', n')"
  shows "bounded_by (fold live_step ops L) k' \<and> kv_inv n' k'"
  using assms
proof (induction ops arbitrary: k n L)
  case Nil
  then show ?case by simp
next
  case (Cons op ops)
  obtain k1 n1 where s: "kv_step op (k, n) = (k1, n1)" by fastforce
  show ?case
    using Cons.IH [of n1 k1 "live_step op L"] bounded_step [OF Cons.prems(1,2) s] Cons.prems(3) s by simp
qed

lemma finite_live: "finite L \<Longrightarrow> finite (fold live_step ops L)"
proof (induction ops arbitrary: L)
  case (Cons op ops)
  then show ?case by (cases op) simp_all
qed simp

text \<open>
  C26. A churn of uniquely named topics leaves no cell per name ever used: after any operations on a
  domain, its table has fewer cells than the names in use plus one batch of tombstones.
\<close>

theorem version_cells_bounded:
  assumes "fold kv_step ops (newKeyedVersions, 0) = (k, n)"
  shows "length (cells_of k) < card (fold live_step ops {}) + maxRetiredKeys"
proof -
  let ?L = "fold live_step ops {}"
  have b: "bounded_by ?L k" and i: "kv_inv n k"
    using bounded_run [OF kv_inv_new _ assms, of "{}"]
    by (simp_all add: bounded_by_def cells_of_def newKeyedVersions_def)
  have wf: "om_wf (cells_of k)" "om_wf (kvRetired k)" and r: "length (kvRetired k) < maxRetiredKeys"
    using i by (auto simp: kv_inv_def cells_of_def split: option.splits)
  have fin: "finite {x. om_mem (kvRetired k) x}" by (simp add: mem_om_keys)
  have "length (cells_of k) = card {x. om_mem (cells_of k) x}" by (rule length_om_card [OF wf(1)])
  also have "\<dots> \<le> card (?L \<union> {x. om_mem (kvRetired k) x})"
    using b fin finite_live [of "{}" ops] by (intro card_mono) (auto simp: bounded_by_def)
  also have "\<dots> \<le> card ?L + length (kvRetired k)"
    using card_Un_le [of ?L "{x. om_mem (kvRetired k) x}"] length_om_card [OF wf(2)] by simp
  finally show ?thesis using r by simp
qed

theorem version_cells_bounded_witness:
  "length (cells_of (fst (fold kv_step [KSet ''a'', KRetire ''a''] (newKeyedVersions, 0)))) < 0 + maxRetiredKeys"
  using version_cells_bounded [of "[KSet ''a'', KRetire ''a'']"
      "fst (fold kv_step [KSet ''a'', KRetire ''a''] (newKeyedVersions, 0))"
      "snd (fold kv_step [KSet ''a'', KRetire ''a''] (newKeyedVersions, 0))"]
  by simp

end
