(* ===== verification/Json_Value.thy ===== *)
theory Json_Value
  imports Complex_Main Decimal
begin

text \<open>
  JSON value equality of schema histories: \<^verbatim>\<open>src/internal/persistence/metastore/json_value.go\<close>. The Go values
  an untyped decode produces are the datatype \<open>json\<close> (an object is a Go map, a number keeps its literal).
  The decoder itself (\<^verbatim>\<open>json.Decoder\<close> with \<^verbatim>\<open>UseNumber\<close>) is the argument \<open>dec\<close> of the functions that call it: a
  document decodes to at most one value.

  The lemmas show that number literals compare by exact decimal value and that the comparison of
  values and of documents is an equivalence.
\<close>

section \<open>Numbers\<close>

definition to_lower :: "char \<Rightarrow> char" where
  "to_lower c = (if CHR ''A'' \<le> c \<and> c \<le> CHR ''Z'' then char_of ((of_char c :: nat) + 32) else c)"

text \<open>\<^verbatim>\<open>strings.Cut(s, sep)\<close> for a one-byte separator.\<close>

definition Cut :: "char \<Rightarrow> string \<Rightarrow> string \<times> string \<times> bool" where
  "Cut sep s = (takeWhile (\<lambda>c. c \<noteq> sep) s, drop 1 (dropWhile (\<lambda>c. c \<noteq> sep) s), sep \<in> set s)"

definition ParseInt32 :: "string \<Rightarrow> int option" where
  "ParseInt32 s = (case ParseInt64 s of
      None \<Rightarrow> None
    | Some e \<Rightarrow> (if - (2 ^ 31) \<le> e \<and> e < 2 ^ 31 then Some e else None))"

definition TrimLeft0 :: "string \<Rightarrow> string" where
  "TrimLeft0 s = dropWhile (\<lambda>c. c = CHR ''0'') s"

definition TrimRight0 :: "string \<Rightarrow> string" where
  "TrimRight0 s = rev (dropWhile (\<lambda>c. c = CHR ''0'') (rev s))"

definition canonicalJSONNumber :: "string \<Rightarrow> string option" where
  "canonicalJSONNumber lit0 =
     (let neg = (lit0 \<noteq> [] \<and> hd lit0 = CHR ''-'');
          lit = (if neg then tl lit0 else lit0);
          (mantissa, expPart, hasExp) = Cut CHR ''e'' (map to_lower lit)
      in case (if hasExp then ParseInt32 expPart else Some 0) of
           None \<Rightarrow> None
         | Some e0 \<Rightarrow>
             (let (intPart, fracPart, _) = Cut CHR ''.'' mantissa;
                  digits = TrimLeft0 (intPart @ fracPart);
                  e1 = e0 - int (length fracPart)
              in if digits = '''' then Some ''0''
                 else let trimmed = TrimRight0 digits;
                          e2 = e1 + int (length digits - length trimmed)
                      in Some ((if neg then ''-'' else '''') @ trimmed @ ''e'' @ AppendInt e2)))"

definition jsonNumbersEqual :: "string \<Rightarrow> string \<Rightarrow> bool" where
  "jsonNumbersEqual a b =
     (if a = b then True
      else case canonicalJSONNumber a of
             None \<Rightarrow> False
           | Some na \<Rightarrow> (case canonicalJSONNumber b of None \<Rightarrow> False | Some nb \<Rightarrow> na = nb))"

section \<open>Values\<close>

datatype json =
    JNull
  | JBool bool
  | JNumber string
  | JString string
  | JArray "json list"
  | JObject "(string \<times> json) list"

lemma size_list_mem: "x \<in> set xs \<Longrightarrow> f x < Suc (size_list f xs)"
  by (induction xs) auto

function (sequential) jsonValuesEqual :: "json \<Rightarrow> json \<Rightarrow> bool" where
  "jsonValuesEqual (JObject av) b =
     (case b of
        JObject bv \<Rightarrow> length av = length bv \<and>
          list_all (\<lambda>(k, x). case om_get bv k of None \<Rightarrow> False | Some y \<Rightarrow> jsonValuesEqual x y) av
      | _ \<Rightarrow> False)"
| "jsonValuesEqual (JArray av) b =
     (case b of
        JArray bv \<Rightarrow> length av = length bv \<and> list_all (\<lambda>(x, y). jsonValuesEqual x y) (zip av bv)
      | _ \<Rightarrow> False)"
| "jsonValuesEqual (JNumber av) b = (case b of JNumber bv \<Rightarrow> jsonNumbersEqual av bv | _ \<Rightarrow> False)"
| "jsonValuesEqual (JString av) b = (case b of JString bv \<Rightarrow> av = bv | _ \<Rightarrow> False)"
| "jsonValuesEqual (JBool av) b = (case b of JBool bv \<Rightarrow> av = bv | _ \<Rightarrow> False)"
| "jsonValuesEqual JNull b = (b = JNull)"
  by pat_completeness auto
termination
  by (relation "measure (\<lambda>(a, b). size a)")
    (auto dest!: set_zip_leftD size_list_mem [of _ _ "size :: json \<Rightarrow> nat"]
       size_list_mem [of _ _ "size_prod (\<lambda>_ :: string. 0) (size :: json \<Rightarrow> nat)"])

definition jsonValueEqual :: "(string \<Rightarrow> json option) \<Rightarrow> string \<Rightarrow> string \<Rightarrow> bool" where
  "jsonValueEqual dec a b =
     (if a = b then True
      else case dec a of
             None \<Rightarrow> False
           | Some va \<Rightarrow> (case dec b of None \<Rightarrow> False | Some vb \<Rightarrow> jsonValuesEqual va vb))"

type_synonym schema_history = "(int, string) omap"

definition schemaHistoriesEqual :: "schema_history \<Rightarrow> schema_history \<Rightarrow> bool" where
  "schemaHistoriesEqual a b \<longleftrightarrow> length a = length b \<and>
     list_all (\<lambda>(version, schema). case om_get b version of None \<Rightarrow> False | Some other \<Rightarrow> schema = other) a"

definition schemaHistoriesValueEqual ::
    "(string \<Rightarrow> json option) \<Rightarrow> schema_history \<Rightarrow> schema_history \<Rightarrow> bool" where
  "schemaHistoriesValueEqual dec a b \<longleftrightarrow> length a = length b \<and>
     list_all (\<lambda>(version, schema).
        case om_get b version of None \<Rightarrow> False | Some other \<Rightarrow> jsonValueEqual dec schema other) a"

section \<open>Literals and their values\<close>

text \<open>A JSON number literal by its grammar, its text, and the rational number it denotes.\<close>

record numlit =
  nlNeg :: bool
  nlInt :: string
  nlFrac :: "string option"
  nlExp :: "(char \<times> string \<times> string) option"

definition frac_of :: "numlit \<Rightarrow> string" where
  "frac_of l = (case nlFrac l of None \<Rightarrow> '''' | Some f \<Rightarrow> f)"

definition wf_numlit :: "numlit \<Rightarrow> bool" where
  "wf_numlit l \<longleftrightarrow> nlInt l \<noteq> [] \<and> asciiDigits (nlInt l) \<and> asciiDigits (frac_of l) \<and>
     (case nlExp l of None \<Rightarrow> True
      | Some (e, sg, ds) \<Rightarrow> e \<in> {CHR ''e'', CHR ''E''} \<and> sg \<in> {'''', ''+'', ''-''} \<and> ds \<noteq> [] \<and> asciiDigits ds)"

definition render :: "numlit \<Rightarrow> string" where
  "render l = (if nlNeg l then ''-'' else '''') @ nlInt l @
     (case nlFrac l of None \<Rightarrow> '''' | Some f \<Rightarrow> CHR ''.'' # f) @
     (case nlExp l of None \<Rightarrow> '''' | Some (e, sg, ds) \<Rightarrow> e # sg @ ds)"

definition exp_of :: "numlit \<Rightarrow> int" where
  "exp_of l = (case nlExp l of None \<Rightarrow> 0
     | Some (e, sg, ds) \<Rightarrow> (if sg = ''-'' then - int (dec_value ds) else int (dec_value ds)))"

definition small_exp :: "numlit \<Rightarrow> bool" where
  "small_exp l \<longleftrightarrow> - (2 ^ 31) \<le> exp_of l \<and> exp_of l < 2 ^ 31"

definition num_value :: "numlit \<Rightarrow> rat" where
  "num_value l = (if nlNeg l then - 1 else 1) * of_nat (dec_value (nlInt l @ frac_of l)) *
     10 powi (exp_of l - int (length (frac_of l)))"

section \<open>The canonical text of a literal\<close>

lemma to_lower_digit: "is_digit c \<Longrightarrow> to_lower c = c"
  by (auto simp: to_lower_def is_digit_def less_eq_char_def)

lemma map_to_lower_digits: "asciiDigits s \<Longrightarrow> map to_lower s = s"
  by (induction s) (auto simp: asciiDigits_def to_lower_digit)

lemma to_lower_consts [simp]:
  "to_lower CHR ''.'' = CHR ''.''" "to_lower CHR ''e'' = CHR ''e''" "to_lower CHR ''E'' = CHR ''e''"
  "to_lower CHR ''+'' = CHR ''+''" "to_lower CHR ''-'' = CHR ''-''"
  by code_simp+

lemma digit_not_special: "is_digit c \<Longrightarrow> c \<noteq> CHR ''e'' \<and> c \<noteq> CHR ''.''"
  by (auto simp: is_digit_def)

lemma asciiDigits_no_special: "asciiDigits s \<Longrightarrow> CHR ''e'' \<notin> set s \<and> CHR ''.'' \<notin> set s \<and> CHR ''-'' \<notin> set s"
  using digit_not_special digit_not_sign by (auto simp: asciiDigits_def list_all_iff)

lemma Cut_found: "sep \<notin> set a \<Longrightarrow> Cut sep (a @ sep # b) = (a, b, True)"
  by (simp add: Cut_def takeWhile_append dropWhile_append)

lemma Cut_absent: "sep \<notin> set a \<Longrightarrow> Cut sep a = (a, '''', False)"
proof -
  assume "sep \<notin> set a"
  then have "\<forall>c \<in> set a. c \<noteq> sep" by blast
  then have t: "takeWhile (\<lambda>c. c \<noteq> sep) a = a" and d: "dropWhile (\<lambda>c. c \<noteq> sep) a = []"
    by (simp_all only: takeWhile_eq_all_conv dropWhile_eq_Nil_conv)
  show ?thesis using \<open>sep \<notin> set a\<close> unfolding Cut_def t d by simp
qed

definition canon_text :: "numlit \<Rightarrow> string" where
  "canon_text l =
     (let digits = TrimLeft0 (nlInt l @ frac_of l); trimmed = TrimRight0 digits
      in if digits = '''' then ''0''
         else (if nlNeg l then ''-'' else '''') @ trimmed @ ''e'' @
           AppendInt (exp_of l - int (length (frac_of l)) + int (length digits - length trimmed)))"

definition mantissa_text :: "numlit \<Rightarrow> string" where
  "mantissa_text l = nlInt l @ (case nlFrac l of None \<Rightarrow> '''' | Some f \<Rightarrow> CHR ''.'' # f)"

lemma mantissa_cut:
  assumes "wf_numlit l"
  shows "\<exists>b. Cut CHR ''.'' (mantissa_text l) = (nlInt l, frac_of l, b)"
  using assms asciiDigits_no_special [of "nlInt l"]
  by (cases "nlFrac l") (auto simp: mantissa_text_def frac_of_def wf_numlit_def Cut_found Cut_absent)

lemma mantissa_chars:
  assumes "wf_numlit l"
  shows "map to_lower (mantissa_text l) = mantissa_text l" and "CHR ''e'' \<notin> set (mantissa_text l)"
  using assms asciiDigits_no_special map_to_lower_digits
  by (cases "nlFrac l"; force simp: mantissa_text_def frac_of_def wf_numlit_def)+

lemma ParseInt32_exp:
  assumes "wf_numlit l" and "nlExp l = Some (e, sg, ds)"
  shows "ParseInt32 (sg @ ds) = (if small_exp l then Some (exp_of l) else None)"
proof -
  have ds: "ds \<noteq> []" "asciiDigits ds" and sg: "sg \<in> {'''', ''+'', ''-''}"
    using assms by (auto simp: wf_numlit_def)
  have hd: "hd ds \<noteq> CHR ''-''" "hd ds \<noteq> CHR ''+''"
    using ds digit_not_sign [of "hd ds"] by (cases ds; simp add: asciiDigits_def)+
  have pd: "parse_digits ds = Some (dec_value ds)" using ds by (simp add: parse_digits_def)
  have e: "exp_of l = (if sg = ''-'' then - int (dec_value ds) else int (dec_value ds))"
    using assms(2) by (simp add: exp_of_def)
  have p: "ParseInt64 (sg @ ds) =
      (if sg = ''-'' then if dec_value ds \<le> 2 ^ 63 then Some (- int (dec_value ds)) else None
       else if dec_value ds < 2 ^ 63 then Some (int (dec_value ds)) else None)"
    using sg ds hd pd by (auto simp: ParseInt64_def Let_def)
  show ?thesis unfolding ParseInt32_def p small_exp_def e by auto
qed

lemma canonical_render:
  assumes "wf_numlit l"
  shows "canonicalJSONNumber (render l) = (if small_exp l then Some (canon_text l) else None)"
proof -
  define tail where "tail = (case nlExp l of None \<Rightarrow> '''' | Some (e, sg, ds) \<Rightarrow> e # sg @ ds)"
  have r: "render l = (if nlNeg l then ''-'' else '''') @ mantissa_text l @ tail"
    by (simp add: render_def mantissa_text_def tail_def)
  have ne: "nlInt l \<noteq> []" and "asciiDigits (nlInt l)" using assms by (auto simp: wf_numlit_def)
  then have hd: "mantissa_text l \<noteq> []" "hd (mantissa_text l) \<noteq> CHR ''-''"
    using digit_not_sign [of "hd (nlInt l)"] by (cases "nlInt l"; simp add: mantissa_text_def asciiDigits_def)+
  have neg: "(render l \<noteq> [] \<and> hd (render l) = CHR ''-'') = nlNeg l"
    using hd by (cases "mantissa_text l") (auto simp: r)
  have body: "(if nlNeg l then tl (render l) else render l) = mantissa_text l @ tail" by (simp add: r)
  obtain b where cut2: "Cut CHR ''.'' (mantissa_text l) = (nlInt l, frac_of l, b)"
    using mantissa_cut [OF assms] by blast
  note mc = mantissa_chars [OF assms]
  have cut1: "\<exists>x h. Cut CHR ''e'' (map to_lower (mantissa_text l @ tail)) = (mantissa_text l, x, h) \<and>
      (if h then ParseInt32 x else Some 0) = (if small_exp l then Some (exp_of l) else None)"
  proof (cases "nlExp l")
    case None
    then show ?thesis using mc by (auto simp: tail_def Cut_absent exp_of_def small_exp_def)
  next
    case (Some p)
    obtain e sg ds where p: "p = (e, sg, ds)" by (cases p)
    have w: "to_lower e = CHR ''e''" "map to_lower sg = sg" "map to_lower ds = ds"
      using assms Some p map_to_lower_digits by (auto simp: wf_numlit_def)
    show ?thesis
      using ParseInt32_exp [OF assms, of e sg ds] Some p mc w by (auto simp: tail_def Cut_found)
  qed
  then obtain x h where cut1: "Cut CHR ''e'' (map to_lower (mantissa_text l @ tail)) = (mantissa_text l, x, h)"
    and e: "(if h then ParseInt32 x else Some 0) = (if small_exp l then Some (exp_of l) else None)" by blast
  show ?thesis
    unfolding canonicalJSONNumber_def Let_def neg body cut1 prod.case e cut2 canon_text_def by simp
qed

section \<open>Decimal values\<close>

lemma digit_value_0 [simp]: "digit_value CHR ''0'' = 0"
  by (simp add: digit_value_def)

lemma is_digit_0 [simp]: "is_digit CHR ''0''"
  by (simp add: is_digit_def)

lemma digit_char_value: "is_digit c \<Longrightarrow> digit_char (digit_value c) = c"
  by (simp add: is_digit_def digit_value_def digit_char_def)

lemma digit_value_pos: "is_digit c \<Longrightarrow> c \<noteq> CHR ''0'' \<Longrightarrow> 0 < digit_value c"
  by (metis digit_char_value digit_value_0 gr0I is_digit_0)

lemma digit_value_less: "is_digit c \<Longrightarrow> digit_value c < 10"
  by (auto simp: is_digit_def digit_value_def)

lemma dec_value_zeros: "dec_value (s @ replicate k CHR ''0'') = dec_value s * 10 ^ k"
proof (induction k)
  case (Suc k)
  have "replicate (Suc k) CHR ''0'' = replicate k CHR ''0'' @ ''0''"
    by (simp add: replicate_append_same)
  then show ?case using Suc dec_value_snoc [of "s @ replicate k CHR ''0''" "CHR ''0''"] by simp
qed simp

lemma dec_value_TrimLeft0: "dec_value (TrimLeft0 s) = dec_value s"
  by (induction s) (simp_all add: TrimLeft0_def dec_value_def)

lemma TrimRight0_zeros: "s = TrimRight0 s @ replicate (length s - length (TrimRight0 s)) CHR ''0''"
proof (induction s rule: rev_induct)
  case (snoc c s)
  show ?case
  proof (cases "c = CHR ''0''")
    case True
    have le: "length (TrimRight0 s) \<le> length s"
      using snoc.IH by (metis le_add1 length_append)
    have "TrimRight0 (s @ [c]) = TrimRight0 s" using True by (simp add: TrimRight0_def)
    moreover have "replicate (Suc (length s - length (TrimRight0 s))) CHR ''0'' =
        replicate (length s - length (TrimRight0 s)) CHR ''0'' @ ''0''"
      by (simp add: replicate_append_same)
    ultimately show ?thesis using True le snoc.IH by (simp add: Suc_diff_le)
  next
    case False
    then show ?thesis by (simp add: TrimRight0_def)
  qed
qed (simp add: TrimRight0_def)

lemma TrimRight0_last: "TrimRight0 s \<noteq> [] \<Longrightarrow> last (TrimRight0 s) \<noteq> CHR ''0''"
  using hd_dropWhile [of "\<lambda>c. c = CHR ''0''" "rev s"] by (auto simp: TrimRight0_def last_rev)

lemma TrimLeft0_hd: "TrimLeft0 s \<noteq> [] \<Longrightarrow> hd (TrimLeft0 s) \<noteq> CHR ''0''"
  using hd_dropWhile [of "\<lambda>c. c = CHR ''0''" s] by (auto simp: TrimLeft0_def)

lemma asciiDigits_TrimLeft0: "asciiDigits s \<Longrightarrow> asciiDigits (TrimLeft0 s)"
  using set_dropWhileD unfolding asciiDigits_def TrimLeft0_def list_all_iff by fastforce

lemma asciiDigits_TrimRight0: "asciiDigits s \<Longrightarrow> asciiDigits (TrimRight0 s)"
  using set_dropWhileD unfolding asciiDigits_def TrimRight0_def list_all_iff by fastforce

lemma dec_value_ge: "asciiDigits s \<Longrightarrow> s \<noteq> [] \<Longrightarrow> hd s \<noteq> CHR ''0'' \<Longrightarrow> 0 < dec_value s"
proof (induction s rule: rev_induct)
  case (snoc c s)
  then show ?case
    by (cases "s = []") (auto simp: dec_value_snoc asciiDigits_def dec_value_def digit_value_pos)
qed simp

lemma nat_dec_dec_value: "asciiDigits s \<Longrightarrow> s \<noteq> [] \<Longrightarrow> hd s \<noteq> CHR ''0'' \<Longrightarrow> nat_dec (dec_value s) = s"
proof (induction s rule: rev_induct)
  case (snoc c s)
  have c: "is_digit c" "digit_value c < 10" using snoc.prems(1) by (auto simp: asciiDigits_def digit_value_less)
  show ?case
  proof (cases "s = []")
    case True
    then show ?thesis using c by (simp add: dec_value_def nat_dec.simps digit_char_value)
  next
    case False
    then have s: "asciiDigits s" "hd s \<noteq> CHR ''0''" using snoc.prems by (auto simp: asciiDigits_def)
    then have "0 < dec_value s" using False dec_value_ge by blast
    then have "nat_dec (dec_value (s @ [c])) = nat_dec (dec_value s) @ [digit_char (digit_value c)]"
      using c by (subst nat_dec.simps) (simp add: dec_value_snoc)
    then show ?thesis using snoc.IH False s c by (simp add: digit_char_value)
  qed
qed simp

lemma powi_eq:
  assumes "\<not> 10 dvd m" and "\<not> 10 dvd n" and "(of_nat m :: rat) * 10 powi d = of_nat n * 10 powi e" and "d \<le> e"
  shows "d = e \<and> m = n"
proof -
  obtain k where k: "e = d + int k" using assms(4) zle_iff_zadd by blast
  have "(of_nat m :: rat) * 10 powi d = of_nat (n * 10 ^ k) * 10 powi d"
    using assms(3) by (simp add: k power_int_add)
  then have "m = n * 10 ^ k" by (metis mult_right_cancel of_nat_eq_iff power_int_eq_0_iff zero_neq_numeral)
  moreover have "k = 0" using calculation assms(1) by (cases k) auto
  ultimately show ?thesis using k by simp
qed

lemma powi_eq_iff:
  assumes "\<not> 10 dvd m" and "\<not> 10 dvd n"
  shows "(of_nat m :: rat) * 10 powi d = of_nat n * 10 powi e \<longleftrightarrow> d = e \<and> m = n"
  using powi_eq [OF assms, of d e] powi_eq [OF assms(2,1), of e d] by (metis linorder_le_cases)

section \<open>Numbers compare by value\<close>

text \<open>The normal form of a literal: its significant digits and its exponent.\<close>

definition sig :: "numlit \<Rightarrow> string" where
  "sig l = TrimRight0 (TrimLeft0 (nlInt l @ frac_of l))"

definition sig_exp :: "numlit \<Rightarrow> int" where
  "sig_exp l = exp_of l - int (length (frac_of l)) + int (length (TrimLeft0 (nlInt l @ frac_of l)) - length (sig l))"

lemma sig_digits:
  assumes "wf_numlit l"
  shows "asciiDigits (sig l)"
proof -
  have "asciiDigits (nlInt l @ frac_of l)" using assms by (simp add: wf_numlit_def asciiDigits_def)
  then show ?thesis by (simp add: sig_def asciiDigits_TrimLeft0 asciiDigits_TrimRight0)
qed

lemma sig_ends:
  assumes "TrimLeft0 (nlInt l @ frac_of l) \<noteq> []"
  shows "sig l \<noteq> []" and "hd (sig l) \<noteq> CHR ''0''" and "last (sig l) \<noteq> CHR ''0''"
proof -
  let ?d = "TrimLeft0 (nlInt l @ frac_of l)"
  note z = TrimRight0_zeros [of ?d, folded sig_def]
  show ne: "sig l \<noteq> []"
  proof
    assume "sig l = []"
    then have r: "?d = replicate (length ?d) CHR ''0''" using z by simp
    have "hd (replicate (length ?d) CHR ''0'') = CHR ''0''"
      by (rule hd_replicate) (simp add: assms)
    then show False using TrimLeft0_hd [OF assms] by (subst (asm) r [symmetric]) simp
  qed
  have "hd ?d = hd (sig l)" by (subst z) (simp add: ne)
  then show "hd (sig l) \<noteq> CHR ''0''" using TrimLeft0_hd [OF assms] by simp
  show "last (sig l) \<noteq> CHR ''0''" using TrimRight0_last ne by (simp add: sig_def)
qed

lemma sig_value:
  "dec_value (nlInt l @ frac_of l) =
   dec_value (sig l) * 10 ^ (length (TrimLeft0 (nlInt l @ frac_of l)) - length (sig l))"
  using TrimRight0_zeros [of "TrimLeft0 (nlInt l @ frac_of l)", folded sig_def] dec_value_zeros dec_value_TrimLeft0
  by metis

lemma num_value_sig:
  "num_value l = (if nlNeg l then - 1 else 1) * (of_nat (dec_value (sig l)) * 10 powi sig_exp l)"
proof -
  have "(10 :: rat) powi sig_exp l = 10 powi (exp_of l - int (length (frac_of l))) *
      10 ^ (length (TrimLeft0 (nlInt l @ frac_of l)) - length (sig l))"
    unfolding sig_exp_def by (subst power_int_add) simp_all
  then show ?thesis by (simp add: num_value_def sig_value)
qed

lemma sig_not_dvd:
  assumes "wf_numlit l" and "TrimLeft0 (nlInt l @ frac_of l) \<noteq> []"
  shows "\<not> 10 dvd dec_value (sig l)"
proof -
  obtain s c where s: "sig l = s @ [c]" using sig_ends(1) [OF assms(2)] by (metis rev_exhaust)
  have c: "is_digit c" "c \<noteq> CHR ''0''"
    using sig_digits [OF assms(1)] sig_ends(3) [OF assms(2)] by (auto simp: s asciiDigits_def)
  have "dec_value (sig l) mod 10 = digit_value c"
    using digit_value_less [OF c(1)] by (simp add: s dec_value_snoc)
  then show ?thesis using digit_value_pos [OF c] by (simp add: dvd_eq_mod_eq_0)
qed

lemma num_value_zero:
  assumes "wf_numlit l"
  shows "num_value l = 0 \<longleftrightarrow> TrimLeft0 (nlInt l @ frac_of l) = []"
proof
  assume "TrimLeft0 (nlInt l @ frac_of l) = []"
  then have "dec_value (nlInt l @ frac_of l) = 0"
    using dec_value_TrimLeft0 [of "nlInt l @ frac_of l"] by (simp add: dec_value_def)
  then show "num_value l = 0" by (simp add: num_value_def)
next
  assume z: "num_value l = 0"
  show "TrimLeft0 (nlInt l @ frac_of l) = []"
  proof (rule ccontr)
    assume "TrimLeft0 (nlInt l @ frac_of l) \<noteq> []"
    then have "dec_value (sig l) \<noteq> 0" using sig_not_dvd [OF assms] by (metis dvd_0_right)
    then show False using z by (simp add: num_value_sig split: if_splits)
  qed
qed

lemma canon_text_sig:
  "canon_text l = (if TrimLeft0 (nlInt l @ frac_of l) = [] then ''0''
     else (if nlNeg l then ''-'' else '''') @ sig l @ ''e'' @ AppendInt (sig_exp l))"
  by (simp add: canon_text_def Let_def sig_def sig_exp_def)

lemma split_at_e:
  assumes "CHR ''e'' \<notin> set a" and "CHR ''e'' \<notin> set b" and "a @ CHR ''e'' # x = b @ CHR ''e'' # y"
  shows "a = b \<and> x = y"
proof -
  have "Cut CHR ''e'' (a @ CHR ''e'' # x) = Cut CHR ''e'' (b @ CHR ''e'' # y)" by (simp only: assms(3))
  then show ?thesis by (simp only: Cut_found [OF assms(1)] Cut_found [OF assms(2)] prod.inject)
qed

lemma signed_text_eq:
  assumes "wf_numlit l" "TrimLeft0 (nlInt l @ frac_of l) \<noteq> []" "wf_numlit m" "TrimLeft0 (nlInt m @ frac_of m) \<noteq> []"
  shows "canon_text l = canon_text m \<longleftrightarrow> nlNeg l = nlNeg m \<and> sig l = sig m \<and> sig_exp l = sig_exp m"
proof
  assume eq: "canon_text l = canon_text m"
  note dl = asciiDigits_no_special [OF sig_digits [OF assms(1)]] and dm = asciiDigits_no_special [OF sig_digits [OF assms(3)]]
  have "(if nlNeg l then ''-'' else '''') @ sig l = (if nlNeg m then ''-'' else '''') @ sig m \<and>
      AppendInt (sig_exp l) = AppendInt (sig_exp m)"
    using eq assms(2,4) dl dm by (intro split_at_e) (auto simp: canon_text_sig)
  moreover have "CHR ''-'' # sig l \<noteq> sig m" "CHR ''-'' # sig m \<noteq> sig l"
    using dl dm by (metis list.set_intros(1))+
  ultimately show "nlNeg l = nlNeg m \<and> sig l = sig m \<and> sig_exp l = sig_exp m"
    by (auto simp: AppendInt_inj split: if_splits)
qed (simp add: canon_text_sig assms)

text \<open>
  Two literals have the same canonical text exactly when they denote the same number.
\<close>

lemma canon_text_value:
  assumes "wf_numlit l" and "wf_numlit m"
  shows "canon_text l = canon_text m \<longleftrightarrow> num_value l = num_value m"
proof (cases "num_value l = 0 \<or> num_value m = 0")
  case True
  have "a @ CHR ''e'' # b \<noteq> ''0''" for a b :: string
    by (cases a) simp_all
  then have "canon_text k = ''0'' \<longleftrightarrow> num_value k = 0" if "wf_numlit k" for k
    using num_value_zero [OF that] by (simp add: canon_text_sig)
  then show ?thesis using True assms by metis
next
  case False
  then have ne: "TrimLeft0 (nlInt l @ frac_of l) \<noteq> []" "TrimLeft0 (nlInt m @ frac_of m) \<noteq> []"
    using num_value_zero assms by blast+
  let ?p = "\<lambda>k. of_nat (dec_value (sig k)) * (10 :: rat) powi sig_exp k"
  have "0 < dec_value (sig l)" "0 < dec_value (sig m)"
    using sig_not_dvd [OF assms(1) ne(1)] sig_not_dvd [OF assms(2) ne(2)] by (metis dvd_0_right gr0I)+
  then have pos: "0 < ?p l" "0 < ?p m"
    by (simp_all add: zero_less_power_int)
  have "num_value l = num_value m \<longleftrightarrow> nlNeg l = nlNeg m \<and> ?p l = ?p m"
    using pos by (auto simp: num_value_sig)
  also have "?p l = ?p m \<longleftrightarrow> sig_exp l = sig_exp m \<and> dec_value (sig l) = dec_value (sig m)"
    by (rule powi_eq_iff [OF sig_not_dvd [OF assms(1) ne(1)] sig_not_dvd [OF assms(2) ne(2)]])
  also have "dec_value (sig l) = dec_value (sig m) \<longleftrightarrow> sig l = sig m"
    using nat_dec_dec_value sig_digits assms sig_ends ne by metis
  finally show ?thesis using signed_text_eq [OF assms(1) ne(1) assms(2) ne(2)] by blast
qed

text \<open>
  C28. Schema numbers compare by exact decimal value. For any two JSON number literals whose exponents
  both fit an \<^verbatim>\<open>int32\<close>, \<^verbatim>\<open>jsonNumbersEqual\<close> holds if and only if they denote the same rational number, whatever
  their spelling (leading zeros, trailing zeros, exponent form, the sign of zero). With an exponent
  outside that range \<^verbatim>\<open>canonicalJSONNumber\<close> refuses the literal, and only identical texts are equal: there
  \<^verbatim>\<open>1e3000000000\<close> and \<^verbatim>\<open>10e2999999999\<close> differ.
\<close>

theorem numbers_equal_by_value:
  assumes "wf_numlit l" and "wf_numlit m"
  shows "jsonNumbersEqual (render l) (render m) \<longleftrightarrow>
    (if small_exp l \<and> small_exp m then num_value l = num_value m else render l = render m)"
proof -
  have "render l = render m \<Longrightarrow> small_exp l \<Longrightarrow> small_exp m \<Longrightarrow> canon_text l = canon_text m"
    using canonical_render [OF assms(1)] canonical_render [OF assms(2)] by simp
  then show ?thesis
    using canonical_render [OF assms(1)] canonical_render [OF assms(2)] canon_text_value [OF assms]
    by (auto simp: jsonNumbersEqual_def)
qed

theorem numbers_equal_by_value_witness:
  "jsonNumbersEqual ''-1.50'' ''-15E-1''"
proof -
  let ?l = "\<lparr>nlNeg = True, nlInt = ''1'', nlFrac = Some ''50'', nlExp = None\<rparr>"
  let ?m = "\<lparr>nlNeg = True, nlInt = ''15'', nlFrac = None, nlExp = Some (CHR ''E'', ''-'', ''1'')\<rparr>"
  have v: "num_value ?l = num_value ?m"
    by (simp add: num_value_def frac_of_def exp_of_def dec_value_def digit_value_def power_int_minus)
  have w: "wf_numlit ?l" "wf_numlit ?m" "small_exp ?l" "small_exp ?m"
    by (simp_all add: wf_numlit_def small_exp_def frac_of_def exp_of_def dec_value_def digit_value_def
        asciiDigits_def is_digit_def)
  have r: "render ?l = ''-1.50''" "render ?m = ''-15E-1''" by (simp_all add: render_def)
  show ?thesis using numbers_equal_by_value [OF w(1,2)] v w(3,4) unfolding r by simp
qed

section \<open>Values compare as an equivalence\<close>

text \<open>A decoded value: the keys of every object, a Go map, are distinct.\<close>

fun json_ok :: "json \<Rightarrow> bool" where
  "json_ok (JObject av) \<longleftrightarrow> distinct (map fst av) \<and> (\<forall>p \<in> set av. json_ok (snd p))"
| "json_ok (JArray av) \<longleftrightarrow> (\<forall>x \<in> set av. json_ok x)"
| "json_ok _ \<longleftrightarrow> True"

lemma jsonNumbersEqual_refl: "jsonNumbersEqual a a"
  by (simp add: jsonNumbersEqual_def)

lemma jsonNumbersEqual_sym: "jsonNumbersEqual a b \<Longrightarrow> jsonNumbersEqual b a"
  by (auto simp: jsonNumbersEqual_def split: if_splits option.splits)

lemma jsonNumbersEqual_trans: "jsonNumbersEqual a b \<Longrightarrow> jsonNumbersEqual b c \<Longrightarrow> jsonNumbersEqual a c"
  by (auto simp: jsonNumbersEqual_def split: if_splits option.splits)

lemma values_array:
  "jsonValuesEqual (JArray av) (JArray bv) \<longleftrightarrow> list_all2 jsonValuesEqual av bv"
  by (auto simp: list_all2_iff list_all_iff)

lemma values_object:
  "jsonValuesEqual (JObject av) (JObject bv) \<longleftrightarrow> length av = length bv \<and>
     (\<forall>p \<in> set av. \<exists>y. om_get bv (fst p) = Some y \<and> jsonValuesEqual (snd p) y)"
  by (auto simp: list_all_iff split: option.splits)

lemma keys_same:
  assumes "distinct (map fst av)" and "length av = length bv" and "set (map fst av) \<subseteq> set (map fst bv)"
  shows "set (map fst bv) = set (map fst av)"
proof -
  have "card (set (map fst bv)) \<le> card (set (map fst av))"
    using assms(2) card_length [of "map fst bv"] distinct_card [OF assms(1)] by simp
  then show ?thesis using assms(3) card_seteq [of "set (map fst bv)" "set (map fst av)"] by simp
qed

lemma jsonValuesEqual_refl: "json_ok v \<Longrightarrow> jsonValuesEqual v v"
proof (induction v)
  case (JArray av)
  then show ?case unfolding values_array by (auto intro: list.rel_refl_strong)
next
  case (JObject av)
  then show ?case unfolding values_object
    by (metis (no_types, lifting) json_ok.simps(1) map_of_is_SomeI prod.collapse snds.intros)
qed (simp_all add: jsonNumbersEqual_refl)

lemma jsonValuesEqual_sym: "json_ok v \<Longrightarrow> json_ok w \<Longrightarrow> jsonValuesEqual v w \<Longrightarrow> jsonValuesEqual w v"
proof (induction v arbitrary: w)
  case (JArray av)
  obtain bv where w: "w = JArray bv" using JArray.prems(3) by (cases w) auto
  have l: "length av = length bv" and nth: "\<forall>i < length av. jsonValuesEqual (av ! i) (bv ! i)"
    using JArray.prems(3) unfolding w values_array by (auto simp: list_all2_conv_all_nth)
  have "jsonValuesEqual (bv ! i) (av ! i)" if i: "i < length bv" for i
    by (rule JArray.IH) (use JArray.prems(1,2) l nth i w in simp_all)
  then show ?case unfolding w values_array using l by (simp add: list_all2_conv_all_nth)
next
  case (JObject av)
  obtain bv where w: "w = JObject bv" using JObject.prems(3) by (cases w) auto
  have eq: "length av = length bv" "\<forall>p \<in> set av. \<exists>y. om_get bv (fst p) = Some y \<and> jsonValuesEqual (snd p) y"
    using JObject.prems(3) unfolding w values_object by auto
  have d: "distinct (map fst av)" "distinct (map fst bv)" using JObject.prems(1,2) w by auto
  have sub: "set (map fst av) \<subseteq> set (map fst bv)"
    using eq(2) by (auto dest!: map_of_SomeD) (metis fst_conv map_of_SomeD image_eqI)
  have "\<exists>x. om_get av (fst q) = Some x \<and> jsonValuesEqual (snd q) x" if q: "q \<in> set bv" for q
  proof -
    have "fst q \<in> set (map fst av)" using keys_same [OF d(1) eq(1) sub] q by auto
    then obtain x where x: "(fst q, x) \<in> set av" by auto
    then obtain y where y: "om_get bv (fst q) = Some y" "jsonValuesEqual x y" using eq(2) by fastforce
    have "y = snd q" using y(1) q d(2) by (metis map_of_is_SomeI option.inject prod.collapse)
    moreover have "json_ok x" "json_ok (snd q)" using JObject.prems(1,2) w x q by auto
    ultimately have "jsonValuesEqual (snd q) x"
      using JObject.IH [of "(fst q, x)" x "snd q"] x y(2) by (simp add: snds.intros)
    then show ?thesis using x d(1) by (auto intro: map_of_is_SomeI)
  qed
  then show ?case unfolding w values_object using eq(1) by simp
next
  case (JNumber a)
  then show ?case by (cases w) (auto intro: jsonNumbersEqual_sym)
qed (auto split: json.splits)

lemma jsonValuesEqual_trans: "jsonValuesEqual u v \<Longrightarrow> jsonValuesEqual v w \<Longrightarrow> jsonValuesEqual u w"
proof (induction u arbitrary: v w)
  case (JArray av)
  obtain bv where v: "v = JArray bv" using JArray.prems(1) by (cases v) auto
  obtain cv where w: "w = JArray cv" using JArray.prems(2) v by (cases w) auto
  have "list_all2 jsonValuesEqual av bv" "list_all2 jsonValuesEqual bv cv"
    using JArray.prems unfolding v w values_array by auto
  then show ?case unfolding w values_array
    using JArray.IH by (fastforce simp: list_all2_conv_all_nth)
next
  case (JObject av)
  obtain bv where v: "v = JObject bv" using JObject.prems(1) by (cases v) auto
  obtain cv where w: "w = JObject cv" using JObject.prems(2) v by (cases w) auto
  have ab: "length av = length bv" "\<forall>p \<in> set av. \<exists>y. om_get bv (fst p) = Some y \<and> jsonValuesEqual (snd p) y"
    and bc: "length bv = length cv" "\<forall>p \<in> set bv. \<exists>y. om_get cv (fst p) = Some y \<and> jsonValuesEqual (snd p) y"
    using JObject.prems unfolding v w values_object by auto
  have "\<exists>z. om_get cv (fst p) = Some z \<and> jsonValuesEqual (snd p) z" if p: "p \<in> set av" for p
  proof -
    obtain y where y: "om_get bv (fst p) = Some y" "jsonValuesEqual (snd p) y" using ab(2) p by blast
    then obtain z where "om_get cv (fst p) = Some z" "jsonValuesEqual y z"
      using bc(2) map_of_SomeD [OF y(1)] by fastforce
    then show ?thesis using JObject.IH [of p "snd p" y z] p y(2) by (auto simp: snds.intros)
  qed
  then show ?case unfolding w values_object using ab(1) bc(1) by simp
next
  case (JNumber a)
  then show ?case by (auto split: json.splits intro: jsonNumbersEqual_trans)
qed (auto split: json.splits)

text \<open>
  C29. "The same schema" is an equivalence on documents: whatever the decoder, provided its objects have
  distinct keys as Go maps do, \<^verbatim>\<open>jsonValueEqual\<close> is reflexive, symmetric and transitive, and two documents
  that decode to equal values up to key order compare equal.
\<close>

theorem jsonValueEqual_equivalence:
  assumes "\<And>s v. dec s = Some v \<Longrightarrow> json_ok v"
  shows "jsonValueEqual dec a a \<and>
    (jsonValueEqual dec a b \<longrightarrow> jsonValueEqual dec b a) \<and>
    (jsonValueEqual dec a b \<and> jsonValueEqual dec b c \<longrightarrow> jsonValueEqual dec a c) \<and>
    (dec a = Some (JObject kvs) \<and> dec b = Some (JObject kvs') \<and> set kvs = set kvs' \<longrightarrow> jsonValueEqual dec a b)"
proof (intro conjI impI)
  show "jsonValueEqual dec a a" by (simp add: jsonValueEqual_def)
  show "jsonValueEqual dec a b \<Longrightarrow> jsonValueEqual dec b a"
    using assms jsonValuesEqual_sym by (auto simp: jsonValueEqual_def split: if_splits option.splits)
  show "jsonValueEqual dec a b \<and> jsonValueEqual dec b c \<Longrightarrow> jsonValueEqual dec a c"
    using jsonValuesEqual_trans by (auto simp: jsonValueEqual_def split: if_splits option.splits)
  assume k: "dec a = Some (JObject kvs) \<and> dec b = Some (JObject kvs') \<and> set kvs = set kvs'"
  then have ok: "json_ok (JObject kvs)" "json_ok (JObject kvs')" using assms by blast+
  have d: "distinct kvs" "distinct kvs'" using ok by (simp_all add: distinct_map)
  have len: "length kvs = length kvs'" using distinct_card d k by metis
  have "\<exists>y. om_get kvs' (fst p) = Some y \<and> jsonValuesEqual (snd p) y" if "p \<in> set kvs" for p
    using that ok k by (intro exI [of _ "snd p"]) (auto intro!: jsonValuesEqual_refl map_of_is_SomeI)
  then have "jsonValuesEqual (JObject kvs) (JObject kvs')" unfolding values_object using len by blast
  then show "jsonValueEqual dec a b" using k by (simp add: jsonValueEqual_def)
qed

theorem jsonValueEqual_equivalence_witness:
  "jsonValueEqual (\<lambda>s. if s = ''x'' then Some (JObject [(''a'', JNull), (''b'', JBool True)])
     else if s = ''y'' then Some (JObject [(''b'', JBool True), (''a'', JNull)]) else None) ''x'' ''y''"
proof -
  let ?d = "\<lambda>s. if s = ''x'' then Some (JObject [(''a'', JNull), (''b'', JBool True)])
     else if s = ''y'' then Some (JObject [(''b'', JBool True), (''a'', JNull)]) else None"
  have ok: "?d s = Some v \<Longrightarrow> json_ok v" for s v by (auto split: if_splits)
  show ?thesis
    using jsonValueEqual_equivalence [of ?d "''x''" "''y''" _ "[(''a'', JNull), (''b'', JBool True)]"
        "[(''b'', JBool True), (''a'', JNull)]", OF ok] by (simp add: insert_commute)
qed

end
