(* ===== verification/Metastore.thy ===== *)
theory Metastore
  imports Remote_Skips User_Model Domain_Versions Json_Value
begin

text \<open>
  The replicated metadata store, \<^verbatim>\<open>src/internal/persistence/metastore\<close>: its stored records, the bodies of its
  Raft entries, and the transaction every entry runs in.

  A bbolt bucket is an ordered map. Values are kept as records instead of their JSON text: what the
  code stores is what it reads back. The schema and assignment buckets are keyed by \<^verbatim>\<open>name:number\<close>; here
  the key is the pair, and the section on keys shows that for the names the broker admits (which hold no
  colon) the text is exactly as good as the pair, prefix scans included. The registry's reserved
  \<^verbatim>\<open>_keys\<close> entry, which is not a remote, is a field of its own.

  A handler is a transaction on the buckets followed by version bumps. The transaction either returns
  an error and leaves the buckets alone or returns a value and the new buckets.
\<close>

section \<open>Stored records\<close>

definition MemberAlive :: string where "MemberAlive = ''alive''"
definition MemberDead :: string where "MemberDead = ''dead''"

record Member =
  mID :: string
  mAddr :: string
  mClusterAddr :: string
  mStatus :: string
  mLastHeartbeat :: int
  mDraining :: bool
  mBuild :: string
  mEntryTypes :: nat

record Assignment =
  aTopic :: string
  aPartition :: int
  aOwnerID :: string
  aTargetID :: string

record Limits =
  lMaxInFlight :: int
  lRequestTimeoutMs :: int
  lIdleConnTimeoutMs :: int
  lConnMaxAgeMs :: int
  lCheckIntervalMs :: int
  lCompression :: string

record Envelope =
  eV :: int
  eKV :: string
  eCT :: string

record RemoteRecord =
  rName :: string
  rID :: string
  rURL :: string
  rUsername :: string
  rCredential :: Envelope
  rCredentialVersion :: nat
  rFingerprint :: string
  rPasswordSetAtMs :: int
  rPasswordSetBy :: string
  rCAPEM :: string
  rLimits :: Limits
  rRevision :: nat
  rCreatedAtMs :: int
  rCreatedBy :: string

record KeyVersion =
  kvSeals :: nat
  kvFirstSealedAtMs :: int

record Keys =
  kSalt :: "string option"
  kVersions :: "(string, KeyVersion) omap"

record Buckets =
  bTopics :: "(string, Topic) omap"
  bSchemas :: "(string \<times> int, string) omap"
  bAssignments :: "(string \<times> int, Assignment) omap"
  bMembers :: "(string, Member) omap"
  bUsers :: "(string, User) omap"
  bRemovedMembers :: "(string, int) omap"
  bRemotes :: "(string, RemoteRecord) omap"
  bKeys :: Keys

definition emptyBuckets :: Buckets where
  "emptyBuckets = \<lparr>bTopics = [], bSchemas = [], bAssignments = [], bMembers = [], bUsers = [],
     bRemovedMembers = [], bRemotes = [], bKeys = \<lparr>kSalt = None, kVersions = []\<rparr>\<rparr>"

section \<open>Entry bodies\<close>

record memberRemovalPayload =
  mrID :: string
  mrAt :: int

record userPasswordPayload =
  upUsername :: string
  upPasswordHash :: string
  upUpdatedAtMs :: int

record userGrantsPayload =
  ugUsername :: string
  ugGrants :: "Grant list"
  ugUpdatedAtMs :: int

record memberDrainingPayload =
  mdID :: string
  mdDraining :: bool

record assignmentTargetPayload =
  atTopic :: string
  atPartition :: int
  atTargetID :: string

record completeMovePayload =
  cmTopic :: string
  cmPartition :: int
  cmExpectedOwner :: string
  cmTargetID :: string

record abortMovePayload =
  amTopic :: string
  amPartition :: int
  amExpectedTarget :: string

record schemaPayload =
  spTopic :: string
  spVersion :: int
  spSchema :: string

record childLinkPayload =
  clParent :: string
  clChild :: string
  clEpoch :: string
  clDelayMs :: int
  clOffsets :: "int list"

record heartbeatPayload =
  hbID :: string
  hbAt :: int

record createLinkPayload =
  lkParent :: string
  lkParentID :: string
  lkEpoch :: string
  lkDelayMs :: int
  lkOffsets :: "int list"

record createTopicWithPayload =
  cwTopic :: Topic
  cwSchema :: string
  cwLink :: "createLinkPayload option"

record updateTopicIfPayload =
  uiTopic :: Topic
  uiExpectID :: string

record deleteTopicIfPayload =
  diName :: string
  diExpectID :: string

record putSchemaIfPayload =
  piTopic :: string
  piVersion :: int
  piSchema :: string
  piExpectID :: string

record attachChildIfPayload =
  aiLink :: childLinkPayload
  aiParentID :: string
  aiChildID :: string

record detachChildIfPayload =
  dtParent :: string
  dtChild :: string
  dtParentID :: string
  dtChildID :: string

record assignIfAbsentPayload =
  iaTopic :: string
  iaPartition :: int
  iaOwnerID :: string
  iaExpectID :: string

record pruneAssignmentPayload =
  paTopic :: string
  paPartition :: int

record markMemberDeadIfPayload =
  mkID :: string
  mkObserved :: int

section \<open>Transactions\<close>

text \<open>
  What the state machine is given from outside: the JSON decoder, the test for printable UTF-8 text
  (\<^verbatim>\<open>utf8\<close>, \<^verbatim>\<open>unicode\<close>), the digest of a CA bundle (\<^verbatim>\<open>pem\<close>, \<^verbatim>\<open>sha512\<close>), and the schema byte budgets, which the source
  also keeps per state machine.
\<close>

record fsmEnv =
  envDecode :: "string \<Rightarrow> json option"
  envPrintable :: "string \<Rightarrow> bool"
  envTrustAnchor :: "string \<Rightarrow> string option"
  envBudgetTopic :: int
  envBudgetCluster :: int

definition SchemaTopicBudgetBytes :: int where "SchemaTopicBudgetBytes = 4 * 2 ^ 20"
definition SchemaClusterBudgetBytes :: int where "SchemaClusterBudgetBytes = 256 * 2 ^ 20"

text \<open>How the local disk answers the last attempt at an entry's writes.\<close>

record disk =
  beginOK :: bool
  commitOK :: bool
  consumeOK :: bool

record fsmState =
  db :: Buckets
  metaApplied :: nat
  metaMaxEntryType :: nat
  fversion :: nat
  versions :: metadataDomainVersions
  applied :: nat
  lastSeen :: nat
  halted :: bool
  curIndex :: nat
  curEntryType :: nat
  persisted :: bool
  fdisk :: disk

text \<open>
  \<open>update\<close> is \<^verbatim>\<open>update\<close>/\<^verbatim>\<open>applyTx\<close>/\<^verbatim>\<open>tryApplyTx\<close>: the function's error is the entry's answer and is returned as is;
  a storage failure that outlives the retries stops the state machine without consuming the entry.
\<close>

definition putFSMMeta :: "nat \<Rightarrow> nat \<Rightarrow> fsmState \<Rightarrow> fsmState" where
  "putFSMMeta index entryType f =
     f\<lparr>metaApplied := index,
       metaMaxEntryType := (if entryType > metaMaxEntryType f then entryType else metaMaxEntryType f)\<rparr>"

definition stop :: "fsmState \<Rightarrow> 'a result \<times> fsmState" where
  "stop f = (Inl ErrStoppedApplying, f\<lparr>halted := True\<rparr>)"

type_synonym 'a tx = "Buckets \<Rightarrow> ('a \<times> Buckets) result"

definition update :: "'a tx \<Rightarrow> fsmState \<Rightarrow> 'a result \<times> fsmState" where
  "update fn f =
     (if \<not> beginOK (fdisk f) then stop f
      else case fn (db f) of
             Inl e \<Rightarrow> (Inl e, f)
           | Inr (x, d) \<Rightarrow>
               if commitOK (fdisk f)
               then (Inr x, (putFSMMeta (curIndex f) (curEntryType f) f)\<lparr>db := d, persisted := True\<rparr>)
               else stop f)"

text \<open>
  A handler: run the transaction, then bump what it changed. In the second form the transaction may
  commit and still refuse (\<^verbatim>\<open>refused\<close>): the remote writes count a seal either way.
\<close>

definition commit_tx ::
    "'a tx \<Rightarrow> ('a \<Rightarrow> metadataDomainVersions \<Rightarrow> metadataDomainVersions) \<Rightarrow> fsmState \<Rightarrow> unit result \<times> fsmState" where
  "commit_tx fn bump f =
     (case update fn f of
        (Inl e, f') \<Rightarrow> (Inl e, f')
      | (Inr x, f') \<Rightarrow> (Inr (), f'\<lparr>versions := bump x (versions f')\<rparr>))"

definition commit_refusable ::
    "err option tx \<Rightarrow> (metadataDomainVersions \<Rightarrow> metadataDomainVersions) \<Rightarrow> fsmState \<Rightarrow> unit result \<times> fsmState" where
  "commit_refusable fn bump f =
     (case update fn f of
        (Inl e, f') \<Rightarrow> (Inl e, f')
      | (Inr None, f') \<Rightarrow> (Inr (), f'\<lparr>versions := bump (versions f')\<rparr>)
      | (Inr (Some e), f') \<Rightarrow> (Inl e, f'))"

section \<open>Records and incarnations\<close>

definition getTopicRecord :: "Buckets \<Rightarrow> string \<Rightarrow> Topic result" where
  "getTopicRecord d name = (case om_get (bTopics d) name of None \<Rightarrow> Inl ErrNotFound | Some t \<Rightarrow> Inr t)"

definition putTopicRecord :: "Topic \<Rightarrow> Buckets \<Rightarrow> Buckets" where
  "putTopicRecord t d = d\<lparr>bTopics := om_put (tName t) t (bTopics d)\<rparr>"

definition expectIncarnation :: "Topic \<Rightarrow> string \<Rightarrow> unit result" where
  "expectIncarnation current expected = (if tID current = expected then Inr () else Inl ErrTopicChanged)"

definition expectIncarnations :: "Buckets \<Rightarrow> string \<Rightarrow> string \<Rightarrow> string \<Rightarrow> string \<Rightarrow> unit result" where
  "expectIncarnations d parent parentID child childID =
     bind_sum (getTopicRecord d parent) (\<lambda>p.
     bind_sum (expectIncarnation p parentID) (\<lambda>_.
     bind_sum (getTopicRecord d child) (\<lambda>c.
     expectIncarnation c childID)))"

text \<open>
  \<open>deletePrefix\<close> on rows keyed by the pair: \<^verbatim>\<open>name + ":"\<close> selects the rows of \<^verbatim>\<open>name\<close>. That the text behaves so
  needs names without a colon; the cursor's walk over the textual keys and the agreement of the two are in
  the section on keys.
\<close>

definition deletePrefix :: "string \<Rightarrow> (string \<times> int, 'v) omap \<Rightarrow> (string \<times> int, 'v) omap \<times> nat" where
  "deletePrefix name b = (om_filter (\<lambda>k. fst k \<noteq> name) b, length (om_filter (\<lambda>k. fst k = name) b))"

lemma getTopicRecord_Inr [simp]: "getTopicRecord d n = Inr t \<longleftrightarrow> om_get (bTopics d) n = Some t"
  by (simp add: getTopicRecord_def split: option.splits)

lemma getTopicRecord_Inl [simp]: "getTopicRecord d n = Inl e \<longleftrightarrow> e = ErrNotFound \<and> om_get (bTopics d) n = None"
  by (auto simp: getTopicRecord_def split: option.splits)

lemma expectIncarnation_Inr [simp]: "expectIncarnation t x = Inr u \<longleftrightarrow> tID t = x"
  by (simp add: expectIncarnation_def)

section \<open>Keys as text\<close>

definition schemaKey :: "string \<Rightarrow> int \<Rightarrow> string" where
  "schemaKey topicName version = topicName @ '':'' @ AppendInt version"

definition assignmentKey :: "string \<Rightarrow> int \<Rightarrow> string" where
  "assignmentKey topicName part = topicName @ '':'' @ AppendInt part"

text \<open>
  A bucket as bbolt keeps it, \<open>text_rows\<close>: the rows under their textual keys, in byte order. A cursor seeks
  the first key not below the prefix and deletes while the keys have it.
\<close>

definition text_rows :: "(string \<Rightarrow> int \<Rightarrow> string) \<Rightarrow> (string \<times> int, 'v) omap \<Rightarrow> (string, 'v) omap" where
  "text_rows key b = sort_key fst (map (\<lambda>r. (key (fst (fst r)) (snd (fst r)), snd r)) b)"

fun cursor_delete :: "string \<Rightarrow> (string, 'v) omap \<Rightarrow> (string, 'v) omap \<times> nat" where
  "cursor_delete p [] = ([], 0)"
| "cursor_delete p (r # c) =
     (if HasPrefix (fst r) p then (let (rest, n) = cursor_delete p c in (rest, n + 1)) else (r # c, 0))"

definition deletePrefix_cursor :: "string \<Rightarrow> (string, 'v) omap \<Rightarrow> (string, 'v) omap \<times> nat" where
  "deletePrefix_cursor p b =
     (let (rest, n) = cursor_delete p (dropWhile (\<lambda>r. fst r < p) b) in (takeWhile (\<lambda>r. fst r < p) b @ rest, n))"

text \<open>In byte order the keys with a prefix stand together, from the prefix itself on.\<close>

lemma prefix_le: "HasPrefix s p \<Longrightarrow> p \<le> s"
  by (induction s p rule: HasPrefix.induct) auto

lemma prefix_between: "p \<le> x \<Longrightarrow> x \<le> s \<Longrightarrow> HasPrefix s p \<Longrightarrow> HasPrefix x p"
proof (induction s p arbitrary: x rule: HasPrefix.induct)
  case (3 c cs p ps)
  then show ?case by (cases x) auto
qed auto

lemma cursor_delete_filter:
  assumes "sorted (map fst b)" and "\<forall>r \<in> set b. p \<le> fst r"
  shows "cursor_delete p b =
    (filter (\<lambda>r. \<not> HasPrefix (fst r) p) b, length (filter (\<lambda>r. HasPrefix (fst r) p) b))"
  using assms
proof (induction b)
  case (Cons r b)
  show ?case
  proof (cases "HasPrefix (fst r) p")
    case True
    then show ?thesis using Cons by simp
  next
    case False
    then have "\<not> HasPrefix (fst s) p" if "s \<in> set b" for s
      using prefix_between [of p "fst r" "fst s"] that Cons.prems by auto
    then show ?thesis using False by (simp add: filter_True filter_False)
  qed
qed simp

lemma deletePrefix_cursor_filter:
  assumes "sorted (map fst b)"
  shows "deletePrefix_cursor p b =
    (filter (\<lambda>r. \<not> HasPrefix (fst r) p) b, length (filter (\<lambda>r. HasPrefix (fst r) p) b))"
proof -
  let ?lt = "\<lambda>r. fst r < p" and ?has = "\<lambda>r. HasPrefix (fst r) p"
  let ?low = "takeWhile ?lt b" and ?rest = "dropWhile ?lt b"
  have sorted: "sorted (map fst ?rest)"
    using assms by (metis dropWhile_eq_drop drop_map sorted_wrt_drop)
  have ge: "\<forall>r \<in> set ?rest. p \<le> fst r"
  proof (cases ?rest)
    case (Cons r rs)
    then have "p \<le> fst r" using hd_dropWhile [of ?lt b] by (metis list.distinct(1) list.sel(1) not_less)
    then show ?thesis using sorted unfolding Cons by auto
  qed (simp del: dropWhile_eq_Nil_conv)
  have "\<not> ?has r" if "r \<in> set ?low" for r
    using set_takeWhileD [OF that] prefix_le [of "fst r" p] by auto
  then have low: "filter (\<lambda>r. \<not> ?has r) ?low = ?low" "filter ?has ?low = []"
    by (simp_all add: filter_True filter_False)
  have "filter Q b = filter Q ?low @ filter Q ?rest" for Q
    by (metis filter_append takeWhile_dropWhile_id)
  then show ?thesis
    using low cursor_delete_filter [OF sorted ge] by (simp add: deletePrefix_cursor_def)
qed

lemma key_prefix: 
  assumes "ValidateName n = Inr ()" and "ValidateName m = Inr ()"
  shows "n @ '':'' @ x = m @ '':'' @ y \<longleftrightarrow> n = m \<and> x = y"
proof -
  have c: "CHR '':'' \<notin> set n" "CHR '':'' \<notin> set m"
    using ValidateName_no_colon assms by blast+
  show ?thesis
    using Cut_found [OF c(1), of x] Cut_found [OF c(2), of y] by (metis append_Cons append_Nil prod.inject)
qed

lemma cursor_text_rows:
  assumes "\<forall>k \<in> set (om_keys b). HasPrefix (key (fst k) (snd k)) p \<longleftrightarrow> fst k = m"
  shows "deletePrefix_cursor p (text_rows key b) = (text_rows key (fst (deletePrefix m b)), snd (deletePrefix m b))"
proof -
  let ?txt = "\<lambda>r. (key (fst (fst r)) (snd (fst r)), snd r)" and ?has = "\<lambda>r. HasPrefix (fst r) p"
  have has: "?has (?txt r) \<longleftrightarrow> fst (fst r) = m" if "r \<in> set b" for r
    using assms that by (auto simp: om_keys_def)
  have keep: "filter (\<lambda>r. \<not> HasPrefix (key (fst (fst r)) (snd (fst r))) p) b = filter (\<lambda>r. fst (fst r) \<noteq> m) b"
    and gone: "filter (\<lambda>r. HasPrefix (key (fst (fst r)) (snd (fst r))) p) b = filter (\<lambda>r. fst (fst r) = m) b"
    using has by (auto intro: filter_cong)
  have "filter Q (text_rows key b) = sort_key fst (map ?txt (filter (\<lambda>r. Q (?txt r)) b))" for Q
    by (simp add: text_rows_def filter_sort filter_map comp_def)
  moreover have "sorted (map fst (text_rows key b))" by (simp add: text_rows_def)
  ultimately show ?thesis
    by (simp add: deletePrefix_cursor_filter deletePrefix_def om_filter_def keep gone) (simp add: text_rows_def)
qed

text \<open>
  C30. The textual bucket keys are as good as pairs. For topic names the broker admits, two schema keys
  (or two assignment keys) are equal only for the same topic and number, a key has the prefix \<^verbatim>\<open>name:\<close> exactly
  when it is a key of that topic, and the number reads back from the key's rest. In a bucket whose rows
  all have admitted names, the cursor of \<^verbatim>\<open>deletePrefix\<close>, which starts at the prefix and stops at the first
  key without it, deletes exactly the rows of that topic and counts them.
\<close>

theorem schemaKey_exact:
  assumes "ValidateName n = Inr ()" and "ValidateName m = Inr ()"
    and "- (2 ^ 63) \<le> v" and "v < 2 ^ 63"
    and "\<forall>k \<in> set (om_keys b). ValidateName (fst k) = Inr ()"
    and "key = schemaKey \<or> key = assignmentKey"
  shows "(key n v = key m w \<longleftrightarrow> n = m \<and> v = w) \<and>
    (HasPrefix (key n v) (m @ '':'') \<longleftrightarrow> n = m) \<and>
    ParseInt64 (drop (length (n @ '':'')) (key n v)) = Some v \<and>
    deletePrefix_cursor (m @ '':'') (text_rows key b) = (text_rows key (fst (deletePrefix m b)), snd (deletePrefix m b))"
proof -
  have key: "key = (\<lambda>t i. t @ '':'' @ AppendInt i)"
    using assms(6) by (auto simp: schemaKey_def assignmentKey_def fun_eq_iff)
  have pre: "HasPrefix (key x i) (m @ '':'') \<longleftrightarrow> x = m" if "ValidateName x = Inr ()" for x i
    using key_prefix [OF that assms(2)] by (auto simp: key HasPrefix_iff)
  show ?thesis
    using pre assms(5) cursor_text_rows [of b key "m @ '':''" m] key_prefix [OF assms(1,2)]
      ParseInt64_AppendInt [OF assms(3,4)] assms(1)
    by (auto simp: key AppendInt_inj)
qed

theorem schemaKey_exact_witness:
  "\<not> HasPrefix (schemaKey ''orders-2'' 7) (''orders'' @ '':'') \<and>
   snd (deletePrefix_cursor (''orders'' @ '':'')
     (text_rows schemaKey [((''orders'', 1), ''a''), ((''orders'', 2), ''b''), ((''orders-2'', 7), ''c'')])) = 2"
proof -
  have v: "ValidateName ''orders-2'' = Inr ()" "ValidateName ''orders'' = Inr ()" by code_simp+
  let ?b = "[((''orders'', 1 :: int), ''a''), ((''orders'', 2), ''b''), ((''orders-2'', 7), ''c'')]"
  have b: "\<forall>k \<in> set (om_keys ?b). ValidateName (fst k) = Inr ()" using v by (simp add: om_keys_def)
  have "\<not> HasPrefix (schemaKey ''orders-2'' 7) (''orders'' @ '':'') \<and>
      deletePrefix_cursor (''orders'' @ '':'') (text_rows schemaKey ?b) =
        (text_rows schemaKey (fst (deletePrefix ''orders'' ?b)), snd (deletePrefix ''orders'' ?b))"
    using schemaKey_exact [OF v _ _ b, of 7 schemaKey 0] by simp
  moreover have "snd (deletePrefix ''orders'' ?b) = 2" by (simp add: deletePrefix_def om_filter_def)
  ultimately show ?thesis by simp
qed

end
