(* ===== verification/Meta_Schema.thy ===== *)
theory Meta_Schema
  imports Metastore
begin

text \<open>
  Schema histories in the store: \<^verbatim>\<open>fsm_schema.go\<close>, \<^verbatim>\<open>fsm_schema_budget.go\<close>, the schema gate of an attach
  (\<^verbatim>\<open>reconcileSchemasForAttach\<close>) and the two schema appends (\<^verbatim>\<open>applyPutSchema\<close>, \<^verbatim>\<open>applyPutSchemaIf\<close>).
\<close>

definition loadSchemaHistory :: "Buckets \<Rightarrow> string \<Rightarrow> schema_history" where
  "loadSchemaHistory d name =
     fold (\<lambda>(k, v) out. if fst k = name then om_put (snd k) v out else out) (bSchemas d) []"

definition latestSchemaVersion :: "Buckets \<Rightarrow> string \<Rightarrow> int" where
  "latestSchemaVersion d name =
     fold (\<lambda>(k, v) latest. if fst k = name \<and> snd k > latest then snd k else latest) (bSchemas d) 0"

definition MaxSchemaVersions :: int where "MaxSchemaVersions = 1000"

definition checkNextSchemaVersion :: "Buckets \<Rightarrow> string \<Rightarrow> int \<Rightarrow> unit result" where
  "checkNextSchemaVersion d name version =
     (let latest = latestSchemaVersion d name
      in if version \<le> latest then Inl ErrAlreadyExists
         else if version \<noteq> latest + 1 then Inl ErrInvalidArgument
         else if version > MaxSchemaVersions then Inl ErrSchemaHistoryFull
         else Inr ())"

definition topicSchemaBytes :: "Buckets \<Rightarrow> string \<Rightarrow> int" where
  "topicSchemaBytes d name =
     sum_list (map (\<lambda>(k, v). int (length v)) (om_filter (\<lambda>k. fst k = name) (bSchemas d)))"

definition clusterSchemaBytes :: "Buckets \<Rightarrow> int" where
  "clusterSchemaBytes d = sum_list (map (\<lambda>(k, v). int (length v)) (bSchemas d))"

fun budget_topics :: "fsmEnv \<Rightarrow> Buckets \<Rightarrow> (string, int) omap \<Rightarrow> int \<Rightarrow> int result" where
  "budget_topics E d [] added_bytes = Inr added_bytes"
| "budget_topics E d ((name, n) # added) added_bytes =
     (if n \<le> 0 then budget_topics E d added added_bytes
      else if topicSchemaBytes d name + n > envBudgetTopic E then Inl ErrSchemaHistoryFull
      else budget_topics E d added (added_bytes + n))"

definition budget_check :: "fsmEnv \<Rightarrow> Buckets \<Rightarrow> (string, int) omap \<Rightarrow> unit result" where
  "budget_check E d added =
     bind_sum (budget_topics E d added 0) (\<lambda>added_bytes.
       if added_bytes = 0 then Inr ()
       else if clusterSchemaBytes d + added_bytes > envBudgetCluster E then Inl ErrSchemaHistoryFull
       else Inr ())"

definition putSchema :: "string \<Rightarrow> int \<Rightarrow> string \<Rightarrow> Buckets \<Rightarrow> Buckets" where
  "putSchema name version schema d = d\<lparr>bSchemas := om_put (name, version) schema (bSchemas d)\<rparr>"

text \<open>What an attach checks beyond the fan-out invariants (\<^verbatim>\<open>attachRules\<close>).\<close>

record attachRules =
  byValue :: bool
  budgets :: bool

definition sortedVersions :: "schema_history \<Rightarrow> int list" where
  "sortedVersions schemas = om_keys schemas"

definition reconcileSchemasForAttach ::
    "fsmEnv \<Rightarrow> string \<Rightarrow> string \<Rightarrow> attachRules \<Rightarrow> bool tx" where
  "reconcileSchemasForAttach E parentName childName rules d =
     (let parentSchemas = loadSchemaHistory d parentName;
          childSchemas = loadSchemaHistory d childName
      in if childSchemas = [] \<and> parentSchemas = [] then Inr (False, d)
         else if childSchemas = [] then
           bind_sum (if budgets rules
                     then budget_check E d [(childName, sum_list (map (\<lambda>(v, s). int (length s)) parentSchemas))]
                     else Inr ()) (\<lambda>_.
             Inr (True, fold (\<lambda>version. putSchema childName version (the (om_get parentSchemas version)))
                          (sortedVersions parentSchemas) d))
         else if parentSchemas = [] then Inl ErrFanoutSchemaMismatch
         else if (if byValue rules then schemaHistoriesValueEqual (envDecode E) parentSchemas childSchemas
                  else schemaHistoriesEqual parentSchemas childSchemas)
         then Inr (False, d)
         else Inl ErrFanoutSchemaMismatch)"

definition localChildren :: "Buckets \<Rightarrow> string list \<Rightarrow> string list" where
  "localChildren d children =
     filter (\<lambda>name. \<not> (case om_get (bTopics d) name of None \<Rightarrow> False | Some child \<Rightarrow> IsRemoteChild child)) children"

fun check_children :: "Buckets \<Rightarrow> int \<Rightarrow> string list \<Rightarrow> unit result" where
  "check_children d version [] = Inr ()"
| "check_children d version (child # cs) =
     bind_sum (checkNextSchemaVersion d child version) (\<lambda>_. check_children d version cs)"

definition putSchemaTx :: "schemaPayload \<Rightarrow> string list tx" where
  "putSchemaTx p d =
     bind_sum (getTopicRecord d (spTopic p)) (\<lambda>t.
       if IsChild t then Inl ErrFanoutSchemaManaged
       else let children = localChildren d (tChildren t)
            in bind_sum (checkNextSchemaVersion d (spTopic p) (spVersion p)) (\<lambda>_.
               bind_sum (check_children d (spVersion p) children) (\<lambda>_.
               Inr (children,
                 fold (\<lambda>child. putSchema child (spVersion p) (spSchema p)) children
                   (putSchema (spTopic p) (spVersion p) (spSchema p) d)))))"

definition bump_schemas :: "string \<Rightarrow> string list \<Rightarrow> metadataDomainVersions \<Rightarrow> metadataDomainVersions" where
  "bump_schemas name children v = fold bumpSchema children (bumpSchema name v)"

definition applyPutSchema :: "schemaPayload \<Rightarrow> fsmState \<Rightarrow> unit result \<times> fsmState" where
  "applyPutSchema p = commit_tx (putSchemaTx p) (bump_schemas (spTopic p))"

fun add_bytes :: "int \<Rightarrow> string list \<Rightarrow> (string, int) omap \<Rightarrow> (string, int) omap" where
  "add_bytes n [] added = added"
| "add_bytes n (child # cs) added =
     add_bytes n cs (om_put child ((case om_get added child of None \<Rightarrow> 0 | Some b \<Rightarrow> b) + n) added)"

definition putSchemaIfTx :: "fsmEnv \<Rightarrow> putSchemaIfPayload \<Rightarrow> string list tx" where
  "putSchemaIfTx E p d =
     bind_sum (getTopicRecord d (piTopic p)) (\<lambda>t.
     bind_sum (expectIncarnation t (piExpectID p)) (\<lambda>_.
       if IsChild t then Inl ErrFanoutSchemaManaged
       else bind_sum (checkNextSchemaVersion d (piTopic p) (piVersion p)) (\<lambda>_.
         let children = localChildren d (tChildren t);
             len = int (length (piSchema p))
         in bind_sum (check_children d (piVersion p) children) (\<lambda>_.
            bind_sum (budget_check E d (add_bytes len children [(piTopic p, len)])) (\<lambda>_.
            Inr (children,
              fold (\<lambda>child. putSchema child (piVersion p) (piSchema p)) children
                (putSchema (piTopic p) (piVersion p) (piSchema p) d)))))))"

definition applyPutSchemaIf :: "fsmEnv \<Rightarrow> putSchemaIfPayload \<Rightarrow> fsmState \<Rightarrow> unit result \<times> fsmState" where
  "applyPutSchemaIf E p = commit_tx (putSchemaIfTx E p) (bump_schemas (piTopic p))"

end
