(* ===== verification/Meta_Topics.thy ===== *)
theory Meta_Topics
  imports Meta_Schema
begin

text \<open>
  The topic entries: create, config update, delete and the fan-out links, in their original forms
  (\<^verbatim>\<open>fsm_apply.go\<close>, \<^verbatim>\<open>fsm_apply_fanout.go\<close>), as one-entry creates (\<^verbatim>\<open>fsm_apply_create.go\<close>) and as
  compare-and-set writes (\<^verbatim>\<open>fsm_apply_cas.go\<close>).
\<close>

section \<open>Create\<close>

text \<open>bbolt refuses an empty key. No proposer sends a topic without a name, and that refusal is left out.\<close>

definition createTopicTx :: "Topic \<Rightarrow> unit tx" where
  "createTopicTx t d =
     (if om_mem (bTopics d) (tName t) then Inl ErrAlreadyExists else Inr ((), putTopicRecord t d))"

definition applyCreateTopic :: "Topic \<Rightarrow> fsmState \<Rightarrow> unit result \<times> fsmState" where
  "applyCreateTopic t = commit_tx (createTopicTx t) (\<lambda>_. bumpTopic (tName t))"

section \<open>Config updates\<close>

definition checkDelayAgainstRetention :: "int \<Rightarrow> int \<Rightarrow> unit result" where
  "checkDelayAgainstRetention delayMs parentRetentionMs =
     (if delayMs \<le> 0 \<or> parentRetentionMs = 0 then Inr ()
      else if parentRetentionMs < delayMs + MinRetentionMs then Inl ErrFanoutDelayTooLong
      else Inr ())"

definition checkRemoteSourceRetention :: "int \<Rightarrow> unit result" where
  "checkRemoteSourceRetention retentionMs =
     (if retentionMs = 0 \<or> retentionMs \<ge> MinRemoteSourceRetentionMs then Inr () else Inl ErrRemoteRetentionFloor)"

definition retentionShrinks :: "int \<Rightarrow> int \<Rightarrow> bool" where
  "retentionShrinks current next = (if next = 0 then False else if current = 0 then True else next < current)"

text \<open>The loop of \<^verbatim>\<open>checkConfigUpdate\<close> over the children: every delay must still fit; is one remote?\<close>

fun check_child_delays :: "Buckets \<Rightarrow> int \<Rightarrow> string list \<Rightarrow> bool \<Rightarrow> bool result" where
  "check_child_delays d retention [] hasRemote = Inr hasRemote"
| "check_child_delays d retention (c # cs) hasRemote =
     (case om_get (bTopics d) c of
        None \<Rightarrow> check_child_delays d retention cs hasRemote
      | Some child \<Rightarrow>
          bind_sum (checkDelayAgainstRetention (tFanoutDelayMs child) retention) (\<lambda>_.
            check_child_delays d retention cs (hasRemote \<or> IsRemoteChild child)))"

definition checkConfigUpdate :: "Buckets \<Rightarrow> Topic \<Rightarrow> Topic \<Rightarrow> unit result" where
  "checkConfigUpdate d current next =
     (if IsRemoteChild current \<and> next \<noteq> current then Inl ErrRemoteStubImmutable
      else if \<not> IsParent next then Inr ()
      else bind_sum (check_child_delays d (tRetentionMs next) (tChildren next) False) (\<lambda>hasRemote.
        if hasRemote \<and> retentionShrinks (tRetentionMs current) (tRetentionMs next)
        then checkRemoteSourceRetention (tRetentionMs next)
        else Inr ()))"

text \<open>The fields an update carries over from the stored record: the incarnation and the link.\<close>

definition keep_link :: "Topic \<Rightarrow> Topic \<Rightarrow> Topic" where
  "keep_link current t =
     t\<lparr>tID := tID current, tRole := tRole current, tChildren := tChildren current, tParent := tParent current,
       tAttachEpoch := tAttachEpoch current, tFanoutDelayMs := tFanoutDelayMs current,
       tAttachOffsets := tAttachOffsets current, tRemote := tRemote current\<rparr>"

definition updateTopicTx :: "Topic \<Rightarrow> unit tx" where
  "updateTopicTx t0 d =
     bind_sum (getTopicRecord d (tName t0)) (\<lambda>current.
       let t = keep_link current t0
       in bind_sum (checkConfigUpdate d current t) (\<lambda>_. Inr ((), putTopicRecord t d)))"

definition applyUpdateTopic :: "Topic \<Rightarrow> fsmState \<Rightarrow> unit result \<times> fsmState" where
  "applyUpdateTopic t = commit_tx (updateTopicTx t) (\<lambda>_. bumpTopic (tName t))"

definition updateTopicIfTx :: "updateTopicIfPayload \<Rightarrow> unit tx" where
  "updateTopicIfTx p d =
     (let t = uiTopic p
      in bind_sum (getTopicRecord d (tName t)) (\<lambda>current.
         bind_sum (expectIncarnation current (uiExpectID p)) (\<lambda>_.
           if tPartitions t < tPartitions current then Inl ErrTopicChanged
           else let next = (keep_link current t)\<lparr>tOwner := tOwner current, tCreatedAt := tCreatedAt current,
                             tVisibilityTimeoutMs := tVisibilityTimeoutMs current\<rparr>
                in bind_sum (checkConfigUpdate d current next) (\<lambda>_. Inr ((), putTopicRecord next d)))))"

definition applyUpdateTopicIf :: "updateTopicIfPayload \<Rightarrow> fsmState \<Rightarrow> unit result \<times> fsmState" where
  "applyUpdateTopicIf p = commit_tx (updateTopicIfTx p) (\<lambda>_. bumpTopic (tName (uiTopic p)))"

section \<open>Delete\<close>

definition deleteTopicRecords :: "string \<Rightarrow> Buckets \<Rightarrow> Buckets" where
  "deleteTopicRecords name d =
     d\<lparr>bTopics := om_del name (bTopics d), bSchemas := fst (deletePrefix name (bSchemas d)),
       bAssignments := fst (deletePrefix name (bAssignments d))\<rparr>"

definition standalone :: "Topic \<Rightarrow> Topic" where
  "standalone child =
     child\<lparr>tRole := RoleStandalone, tParent := '''', tAttachEpoch := '''', tFanoutDelayMs := 0, tAttachOffsets := []\<rparr>"

definition unlinkChild :: "string \<Rightarrow> Topic \<Rightarrow> Topic" where
  "unlinkChild child parent =
     (let cs = filter (\<lambda>c. c \<noteq> child) (tChildren parent)
      in if cs = [] then parent\<lparr>tChildren := [], tRole := RoleStandalone\<rparr> else parent\<lparr>tChildren := cs\<rparr>)"

text \<open>The children loop of \<^verbatim>\<open>dissolveFanoutLinks\<close>: stubs go, other children become standalone.\<close>

fun dissolve_children ::
    "string \<Rightarrow> string list \<Rightarrow> string list \<times> string list \<times> Buckets \<Rightarrow> string list \<times> string list \<times> Buckets" where
  "dissolve_children name [] acc = acc"
| "dissolve_children name (c # cs) (linked, deletedStubs, d) =
     (case om_get (bTopics d) c of
        None \<Rightarrow> dissolve_children name cs (linked, deletedStubs, d)
      | Some child \<Rightarrow>
          if IsRemoteChild child \<and> tParent child = name
          then dissolve_children name cs (linked, deletedStubs @ [c], deleteTopicRecords c d)
          else dissolve_children name cs (linked @ [c], deletedStubs, putTopicRecord (standalone child) d))"

definition dissolveFanoutLinks :: "string \<Rightarrow> (string list \<times> string list) tx" where
  "dissolveFanoutLinks name d =
     bind_sum (getTopicRecord d name) (\<lambda>t.
       let (linked, deletedStubs, d1) =
             (if IsParent t then dissolve_children name (tChildren t) ([], [], d) else ([], [], d))
       in if IsChild t \<and> tParent t \<noteq> '''' then
            (case om_get (bTopics d1) (tParent t) of
               None \<Rightarrow> Inr ((linked, deletedStubs), d1)
             | Some parent \<Rightarrow>
                 Inr ((linked @ [tParent t], deletedStubs), putTopicRecord (unlinkChild name parent) d1))
          else Inr ((linked, deletedStubs), d1))"

definition deleteTopicTx :: "string \<Rightarrow> (string list \<times> string list) tx" where
  "deleteTopicTx name d =
     (if \<not> om_mem (bTopics d) name then Inl ErrNotFound
      else bind_sum (dissolveFanoutLinks name d) (\<lambda>(ls, d1). Inr (ls, deleteTopicRecords name d1)))"

definition retireDeletedTopic ::
    "string \<Rightarrow> string list \<times> string list \<Rightarrow> metadataDomainVersions \<Rightarrow> metadataDomainVersions" where
  "retireDeletedTopic name ls v =
     (let v1 = retireTopic name v;
          v2 = fold retireTopic (snd ls) v1
      in fold bumpTopic (fst ls) v2)"

definition applyDeleteTopic :: "string \<Rightarrow> fsmState \<Rightarrow> unit result \<times> fsmState" where
  "applyDeleteTopic name = commit_tx (deleteTopicTx name) (retireDeletedTopic name)"

definition deleteTopicIfTx :: "deleteTopicIfPayload \<Rightarrow> (string list \<times> string list) tx" where
  "deleteTopicIfTx p d =
     bind_sum (getTopicRecord d (diName p)) (\<lambda>current.
     bind_sum (expectIncarnation current (diExpectID p)) (\<lambda>_.
     deleteTopicTx (diName p) d))"

definition applyDeleteTopicIf :: "deleteTopicIfPayload \<Rightarrow> fsmState \<Rightarrow> unit result \<times> fsmState" where
  "applyDeleteTopicIf p = commit_tx (deleteTopicIfTx p) (retireDeletedTopic (diName p))"

section \<open>Attach and detach\<close>

definition attachChildTx :: "fsmEnv \<Rightarrow> childLinkPayload \<Rightarrow> attachRules \<Rightarrow> bool tx" where
  "attachChildTx E p rules d =
     (if clParent p = clChild p then Inl ErrFanoutRoleConflict
      else bind_sum (getTopicRecord d (clParent p)) (\<lambda>parent.
           bind_sum (getTopicRecord d (clChild p)) (\<lambda>child.
             if IsChild parent then Inl ErrFanoutRoleConflict
             else if IsParent child then Inl ErrFanoutRoleConflict
             else if IsChild child \<and> tParent child = clParent p then Inl ErrAlreadyExists
             else if IsChild child then Inl ErrFanoutRoleConflict
             else if length (tChildren parent) \<ge> MaxChildrenPerParent then Inl ErrFanoutChildLimit
             else if clDelayMs p < 0 then Inl ErrFanoutRoleConflict
             else if clDelayMs p > MaxFanoutDelayMs then Inl ErrFanoutDelayTooLong
             else bind_sum (checkDelayAgainstRetention (clDelayMs p) (tRetentionMs parent)) (\<lambda>_.
                  bind_sum (reconcileSchemasForAttach E (clParent p) (clChild p) rules d) (\<lambda>(adopted, d1).
                    let parent' = parent\<lparr>tRole := RoleParent, tChildren := tChildren parent @ [clChild p]\<rparr>;
                        child' = child\<lparr>tRole := RoleChild, tParent := clParent p, tAttachEpoch := clEpoch p,
                                       tFanoutDelayMs := clDelayMs p, tAttachOffsets := clOffsets p\<rparr>
                    in Inr (adopted, putTopicRecord child' (putTopicRecord parent' d1)))))))"

definition bumpAttached :: "string \<Rightarrow> string \<Rightarrow> bool \<Rightarrow> metadataDomainVersions \<Rightarrow> metadataDomainVersions" where
  "bumpAttached parent child schemaAdopted v =
     (let v1 = bumpTopic child (bumpTopic parent v) in if schemaAdopted then bumpSchema child v1 else v1)"

definition plainRules :: attachRules where "plainRules = \<lparr>byValue = False, budgets = False\<rparr>"
definition strictRules :: attachRules where "strictRules = \<lparr>byValue = True, budgets = True\<rparr>"

definition applyAttachChild :: "fsmEnv \<Rightarrow> childLinkPayload \<Rightarrow> fsmState \<Rightarrow> unit result \<times> fsmState" where
  "applyAttachChild E p = commit_tx (attachChildTx E p plainRules) (bumpAttached (clParent p) (clChild p))"

definition attachChildIfTx :: "fsmEnv \<Rightarrow> attachChildIfPayload \<Rightarrow> bool tx" where
  "attachChildIfTx E p d =
     bind_sum (expectIncarnations d (clParent (aiLink p)) (aiParentID p) (clChild (aiLink p)) (aiChildID p)) (\<lambda>_.
       attachChildTx E (aiLink p) strictRules d)"

definition applyAttachChildIf :: "fsmEnv \<Rightarrow> attachChildIfPayload \<Rightarrow> fsmState \<Rightarrow> unit result \<times> fsmState" where
  "applyAttachChildIf E p =
     commit_tx (attachChildIfTx E p) (bumpAttached (clParent (aiLink p)) (clChild (aiLink p)))"

definition detachChildTx :: "string \<Rightarrow> string \<Rightarrow> Topic \<Rightarrow> Topic \<Rightarrow> bool tx" where
  "detachChildTx parentName childName parent child d =
     (if \<not> IsChild child \<or> tParent child \<noteq> parentName then Inl ErrNotFound
      else let d1 = putTopicRecord (unlinkChild childName parent) d
           in if IsRemoteChild child then Inr (True, deleteTopicRecords childName d1)
              else Inr (False, putTopicRecord (standalone child) d1))"

definition detachTx :: "string \<Rightarrow> string \<Rightarrow> bool tx" where
  "detachTx parentName childName d =
     bind_sum (getTopicRecord d parentName) (\<lambda>parent.
     bind_sum (getTopicRecord d childName) (\<lambda>child.
     detachChildTx parentName childName parent child d))"

definition bumpDetached :: "string \<Rightarrow> string \<Rightarrow> bool \<Rightarrow> metadataDomainVersions \<Rightarrow> metadataDomainVersions" where
  "bumpDetached parent child stubDeleted v =
     (let v1 = bumpTopic parent v in if stubDeleted then retireTopic child v1 else bumpTopic child v1)"

definition applyDetachChild :: "childLinkPayload \<Rightarrow> fsmState \<Rightarrow> unit result \<times> fsmState" where
  "applyDetachChild p = commit_tx (detachTx (clParent p) (clChild p)) (bumpDetached (clParent p) (clChild p))"

definition detachChildIfTx :: "detachChildIfPayload \<Rightarrow> bool tx" where
  "detachChildIfTx p d =
     bind_sum (expectIncarnations d (dtParent p) (dtParentID p) (dtChild p) (dtChildID p)) (\<lambda>_.
       detachTx (dtParent p) (dtChild p) d)"

definition applyDetachChildIf :: "detachChildIfPayload \<Rightarrow> fsmState \<Rightarrow> unit result \<times> fsmState" where
  "applyDetachChildIf p = commit_tx (detachChildIfTx p) (bumpDetached (dtParent p) (dtChild p))"

section \<open>Create in one entry\<close>

record createdTopic =
  rowsCleared :: bool
  schemaChanged :: bool

text \<open>\<^verbatim>\<open>strings.EqualFold\<close> on the ASCII names the broker admits.\<close>

definition EqualFold :: "string \<Rightarrow> string \<Rightarrow> bool" where
  "EqualFold a b \<longleftrightarrow> map to_lower a = map to_lower b"

definition foldedTopicName :: "Buckets \<Rightarrow> string \<Rightarrow> bool" where
  "foldedTopicName d name =
     list_ex (\<lambda>k. length k = length name \<and> k \<noteq> name \<and> EqualFold k name) (om_keys (bTopics d))"

definition createTopicWithTx :: "fsmEnv \<Rightarrow> createTopicWithPayload \<Rightarrow> createdTopic tx" where
  "createTopicWithTx E p d =
     (let t = cwTopic p; name = tName t
      in if om_mem (bTopics d) name then Inl ErrAlreadyExists
         else if foldedTopicName d name then Inl ErrTopicAlreadyExists
         else
           let d1 = putTopicRecord t d;
               (rows, n) = deletePrefix name (bAssignments d1);
               (hist, m) = deletePrefix name (bSchemas d1);
               d2 = d1\<lparr>bAssignments := rows, bSchemas := hist\<rparr>
           in bind_sum
                (if cwSchema p \<noteq> '''' then
                   bind_sum (budget_check E d2 [(name, int (length (cwSchema p)))]) (\<lambda>_.
                     Inr (True, putSchema name 1 (cwSchema p) d2))
                 else Inr (m > 0, d2)) (\<lambda>(changed, d3).
              case cwLink p of
                None \<Rightarrow> Inr (\<lparr>rowsCleared = n > 0, schemaChanged = changed\<rparr>, d3)
              | Some link \<Rightarrow>
                  bind_sum (getTopicRecord d3 (lkParent link)) (\<lambda>parent.
                    if tID parent \<noteq> lkParentID link then Inl ErrTopicChanged
                    else bind_sum (attachChildTx E
                           \<lparr>clParent = lkParent link, clChild = name, clEpoch = lkEpoch link,
                            clDelayMs = lkDelayMs link, clOffsets = lkOffsets link\<rparr> strictRules d3) (\<lambda>(adopted, d4).
                         Inr (\<lparr>rowsCleared = n > 0, schemaChanged = changed \<or> adopted\<rparr>, d4)))))"

definition bumpCreated ::
    "createTopicWithPayload \<Rightarrow> createdTopic \<Rightarrow> metadataDomainVersions \<Rightarrow> metadataDomainVersions" where
  "bumpCreated p out v =
     (let name = tName (cwTopic p);
          v1 = bumpTopic name v;
          v2 = (if rowsCleared out then bumpAssignment name v1 else v1);
          v3 = (if schemaChanged out then bumpSchema name v2 else v2)
      in case cwLink p of None \<Rightarrow> v3 | Some link \<Rightarrow> bumpTopic (lkParent link) v3)"

definition applyCreateTopicWith :: "fsmEnv \<Rightarrow> createTopicWithPayload \<Rightarrow> fsmState \<Rightarrow> unit result \<times> fsmState" where
  "applyCreateTopicWith E p f =
     (if tName (cwTopic p) = '''' then (Inl ErrInvalidArgument, f)
      else commit_tx (createTopicWithTx E p) (bumpCreated p) f)"

end
