(* ===== verification/Fanout_Graph.thy ===== *)
theory Fanout_Graph
  imports Meta_Topics
begin

text \<open>
  The fan-out graph of the stored topic records and its invariant: roles are exclusive and flat, every
  link is recorded at both ends, a child has one parent, the caps hold, a parent retains records long
  enough for its children's delays and for its remote children, and no two stubs link one remote topic.
  The lemmas show that each shape of change the store makes (a new topic, a config change, an attach, a
  detach, a delete) keeps it. They are about the map from names to records; the entries that make the
  changes are in the theory after this one.
\<close>

type_synonym topics = "string \<Rightarrow> Topic option"

definition delay_fits :: "int \<Rightarrow> int \<Rightarrow> bool" where
  "delay_fits delay retention \<longleftrightarrow> delay \<le> 0 \<or> retention = 0 \<or> delay + MinRetentionMs \<le> retention"

definition floor_ok :: "int \<Rightarrow> bool" where
  "floor_ok retention \<longleftrightarrow> retention = 0 \<or> MinRemoteSourceRetentionMs \<le> retention"

definition link_fields_ok :: "Topic \<Rightarrow> bool" where
  "link_fields_ok t \<longleftrightarrow>
     (IsChild t \<or> (tParent t = '''' \<and> tAttachEpoch t = '''' \<and> tFanoutDelayMs t = 0 \<and> tAttachOffsets t = [] \<and> tRemote t = None)) \<and>
     0 \<le> tFanoutDelayMs t \<and> tFanoutDelayMs t \<le> MaxFanoutDelayMs \<and>
     (case tRemote t of None \<Rightarrow> True
      | Some l \<Rightarrow> tPartitions t = 0 \<and> MinRemoteLanes \<le> rlLanes l \<and> rlLanes l \<le> MaxRemoteLanes \<and> skips_ok (rlSkip l))"

definition node_ok :: "string \<Rightarrow> Topic \<Rightarrow> bool" where
  "node_ok n t \<longleftrightarrow> n \<noteq> '''' \<and> tName t = n \<and> tRole t \<in> {'''', RoleStandalone, RoleParent, RoleChild} \<and>
     (IsParent t \<longleftrightarrow> tChildren t \<noteq> []) \<and> distinct (tChildren t) \<and> length (tChildren t) \<le> MaxChildrenPerParent \<and>
     link_fields_ok t"

definition edge_ok :: "Topic \<Rightarrow> Topic \<Rightarrow> bool" where
  "edge_ok p c \<longleftrightarrow> delay_fits (tFanoutDelayMs c) (tRetentionMs p) \<and> (IsRemoteChild c \<longrightarrow> floor_ok (tRetentionMs p))"

definition is_remote :: "topics \<Rightarrow> string \<Rightarrow> bool" where
  "is_remote T n = (case T n of None \<Rightarrow> False | Some t \<Rightarrow> IsRemoteChild t)"

definition topic_ok :: "topics \<Rightarrow> string \<Rightarrow> Topic \<Rightarrow> bool" where
  "topic_ok T n t \<longleftrightarrow> node_ok n t \<and>
     (\<forall>c \<in> set (tChildren t). \<exists>ct. T c = Some ct \<and> IsChild ct \<and> tParent ct = n \<and> edge_ok t ct) \<and>
     (IsChild t \<longrightarrow> (\<exists>p. T (tParent t) = Some p \<and> n \<in> set (tChildren p))) \<and>
     length (filter (is_remote T) (tChildren t)) \<le> MaxRemoteChildrenPerParent"

definition target_of :: "topics \<Rightarrow> string \<Rightarrow> (string \<times> string) option" where
  "target_of T n =
     (case T n of
        None \<Rightarrow> None
      | Some t \<Rightarrow> (if IsRemoteChild t then map_option (\<lambda>l. (rlName l, rlTopic l)) (tRemote t) else None))"

definition fan_ok :: "topics \<Rightarrow> bool" where
  "fan_ok T \<longleftrightarrow> (\<forall>n t. T n = Some t \<longrightarrow> topic_ok T n t) \<and>
     (\<forall>n m. target_of T n \<noteq> None \<and> target_of T n = target_of T m \<longrightarrow> n = m)"

section \<open>Reading the invariant\<close>

lemma fan_okD: "fan_ok T \<Longrightarrow> T n = Some t \<Longrightarrow> topic_ok T n t"
  by (simp add: fan_ok_def)

lemma fan_ok_node: "fan_ok T \<Longrightarrow> T n = Some t \<Longrightarrow> node_ok n t"
  using fan_okD by (simp add: topic_ok_def)

lemma node_okD:
  assumes "node_ok n t"
  shows "n \<noteq> ''''" "tName t = n" "IsParent t \<longleftrightarrow> tChildren t \<noteq> []" "distinct (tChildren t)"
    "length (tChildren t) \<le> MaxChildrenPerParent" "link_fields_ok t"
  using assms by (simp_all add: node_ok_def)

lemma role_excl: "\<not> (IsParent t \<and> IsChild t)"
  by (simp add: role_defs)

lemma child_no_children: "node_ok n t \<Longrightarrow> IsChild t \<Longrightarrow> tChildren t = []"
  using role_excl [of t] by (simp add: node_ok_def)

lemma childE:
  assumes "fan_ok T" and "T p = Some pt" and "c \<in> set (tChildren pt)"
  obtains ct where "T c = Some ct" "IsChild ct" "tParent ct = p" "edge_ok pt ct"
  using fan_okD [OF assms(1,2)] assms(3) by (auto simp: topic_ok_def)

lemma child_stored: "fan_ok T \<Longrightarrow> T p = Some pt \<Longrightarrow> c \<in> set (tChildren pt) \<Longrightarrow> T c \<noteq> None"
  by (erule (2) childE) simp

lemma parentE:
  assumes "fan_ok T" and "T c = Some ct" and "IsChild ct"
  obtains pt where "T (tParent ct) = Some pt" "c \<in> set (tChildren pt)" "IsParent pt"
proof -
  obtain pt where pt: "T (tParent ct) = Some pt" "c \<in> set (tChildren pt)"
    using fan_okD [OF assms(1,2)] assms(3) by (auto simp: topic_ok_def)
  moreover have "IsParent pt" using fan_ok_node [OF assms(1) pt(1)] pt(2) by (auto simp: node_ok_def)
  ultimately show thesis by (rule that)
qed

lemma child_not_own_parent:
  assumes "fan_ok T" and "T p = Some pt" and "c \<in> set (tChildren pt)"
  shows "c \<noteq> p"
proof
  assume "c = p"
  then obtain "IsChild pt" using childE [OF assms] assms(2) by auto
  then show False using child_no_children [OF fan_ok_node [OF assms(1,2)]] assms(3) by simp
qed

section \<open>Proving it again\<close>

lemma fan_okI:
  assumes "\<And>n t. T n = Some t \<Longrightarrow> topic_ok T n t"
    and "\<And>n m. target_of T n \<noteq> None \<Longrightarrow> target_of T n = target_of T m \<Longrightarrow> n = m"
  shows "fan_ok T"
  unfolding fan_ok_def using assms by blast

lemma topic_okI:
  assumes "node_ok n t"
    and "\<And>c. c \<in> set (tChildren t) \<Longrightarrow> \<exists>ct. T c = Some ct \<and> IsChild ct \<and> tParent ct = n \<and> edge_ok t ct"
    and "IsChild t \<Longrightarrow> \<exists>p. T (tParent t) = Some p \<and> n \<in> set (tChildren p)"
    and "length (filter (is_remote T) (tChildren t)) \<le> MaxRemoteChildrenPerParent"
  shows "topic_ok T n t"
  using assms by (simp add: topic_ok_def)

text \<open>A change that keeps or drops each stub keeps the targets unique.\<close>

lemma targets_kept:
  assumes "fan_ok T" and "\<And>n. target_of T' n = None \<or> target_of T' n = target_of T n"
    and "target_of T' n \<noteq> None" and "target_of T' n = target_of T' m"
  shows "n = m"
proof -
  have "target_of T n = target_of T' n" "target_of T m = target_of T' m"
    using assms(2) [of n] assms(2) [of m] assms(3,4) by auto
  then show ?thesis using assms(1,3,4) unfolding fan_ok_def by metis
qed

text \<open>A topic whose record and whose neighbours' records did not change is still fine.\<close>

lemma topic_ok_frame:
  assumes "topic_ok T n t"
    and "\<And>c. c \<in> set (tChildren t) \<Longrightarrow> T' c = T c"
    and "IsChild t \<Longrightarrow> \<exists>p. T' (tParent t) = Some p \<and> n \<in> set (tChildren p)"
  shows "topic_ok T' n t"
proof (rule topic_okI)
  have "filter (is_remote T') (tChildren t) = filter (is_remote T) (tChildren t)"
    using assms(2) by (intro filter_cong) (simp_all add: is_remote_def)
  then show "length (filter (is_remote T') (tChildren t)) \<le> MaxRemoteChildrenPerParent"
    using assms(1) by (simp add: topic_ok_def)
qed (use assms in \<open>auto simp: topic_ok_def\<close>)

section \<open>A new topic\<close>

definition fresh_topic :: "Topic \<Rightarrow> bool" where
  "fresh_topic t \<longleftrightarrow> tName t \<noteq> '''' \<and> (tRole t = '''' \<or> tRole t = RoleStandalone) \<and> tChildren t = [] \<and> tParent t = '''' \<and>
     tAttachEpoch t = '''' \<and> tFanoutDelayMs t = 0 \<and> tAttachOffsets t = [] \<and> tRemote t = None"

lemma fresh_node_ok: "fresh_topic t \<Longrightarrow> node_ok (tName t) t"
  by (auto simp: fresh_topic_def node_ok_def link_fields_ok_def role_defs MaxFanoutDelayMs_def)

lemma fan_ok_new:
  assumes "fan_ok T" and "T (tName t) = None" and "fresh_topic t"
  shows "fan_ok (T(tName t \<mapsto> t))"
proof (rule fan_okI)
  let ?T = "T(tName t \<mapsto> t)"
  have nc: "\<not> IsChild t" using assms(3) by (auto simp: fresh_topic_def role_defs)
  fix n x assume x: "?T n = Some x"
  show "topic_ok ?T n x"
  proof (cases "n = tName t")
    case True
    then show ?thesis using x assms(3) nc fresh_node_ok by (intro topic_okI) (auto simp: fresh_topic_def)
  next
    case False
    then have xn: "T n = Some x" using x by simp
    show ?thesis
    proof (rule topic_ok_frame [OF fan_okD [OF assms(1) xn]])
      show "c \<in> set (tChildren x) \<Longrightarrow> ?T c = T c" for c
        using child_stored [OF assms(1) xn, of c] assms(2) by (metis fun_upd_other)
      show "IsChild x \<Longrightarrow> \<exists>p. ?T (tParent x) = Some p \<and> n \<in> set (tChildren p)"
        using parentE [OF assms(1) xn] assms(2) by (metis fun_upd_other option.distinct(1))
    qed
  qed
next
  have nt: "target_of (T(tName t \<mapsto> t)) n = (if n = tName t then None else target_of T n)" for n
    using assms(3) by (simp add: target_of_def fresh_topic_def IsRemoteChild_def)
  fix n m
  assume "target_of (T(tName t \<mapsto> t)) n \<noteq> None" "target_of (T(tName t \<mapsto> t)) n = target_of (T(tName t \<mapsto> t)) m"
  then show "n = m" using targets_kept [OF assms(1), of "T(tName t \<mapsto> t)" n m] nt by auto
qed

section \<open>A record rewritten in place\<close>

definition same_link :: "Topic \<Rightarrow> Topic \<Rightarrow> bool" where
  "same_link t t' \<longleftrightarrow> tName t' = tName t \<and> tRole t' = tRole t \<and> tChildren t' = tChildren t \<and> tParent t' = tParent t \<and>
     tFanoutDelayMs t' = tFanoutDelayMs t \<and>
     map_option (\<lambda>l. (rlName l, rlTopic l)) (tRemote t') = map_option (\<lambda>l. (rlName l, rlTopic l)) (tRemote t)"

lemma same_link_roles:
  assumes "same_link t t'"
  shows "IsChild t' = IsChild t" "IsParent t' = IsParent t" "IsRemoteChild t' = IsRemoteChild t"
  using assms by (auto simp: same_link_def role_defs map_option_case split: option.splits)

lemma fan_ok_rewrite:
  assumes "fan_ok T" and "T n = Some t" and "same_link t t'" and "link_fields_ok t'"
    and "\<And>c ct. c \<in> set (tChildren t) \<Longrightarrow> T c = Some ct \<Longrightarrow> edge_ok t' ct"
  shows "fan_ok (T(n \<mapsto> t'))"
proof (rule fan_okI)
  let ?T = "T(n \<mapsto> t')"
  note roles = same_link_roles [OF assms(3)]
  have rem: "is_remote ?T = is_remote T" using roles(3) assms(2) by (simp add: is_remote_def fun_eq_iff)
  have look: "\<exists>ct'. ?T c = Some ct' \<and> IsChild ct' = IsChild ct \<and> tParent ct' = tParent ct \<and>
      tFanoutDelayMs ct' = tFanoutDelayMs ct \<and> IsRemoteChild ct' = IsRemoteChild ct \<and> tChildren ct' = tChildren ct"
    if "T c = Some ct" for c ct
    using that assms(2,3) roles by (auto simp: same_link_def)
  fix m x assume x: "?T m = Some x"
  obtain y where y: "T m = Some y" "tChildren x = tChildren y" "tParent x = tParent y" "IsChild x = IsChild y"
    using x assms(2,3) roles by (auto simp: same_link_def split: if_splits)
  note ok = fan_okD [OF assms(1) y(1)]
  show "topic_ok ?T m x"
  proof (rule topic_okI)
    show "node_ok m x"
    proof (cases "m = n")
      case True
      then show ?thesis
        using x y fan_ok_node [OF assms(1,2)] assms(2,3,4) roles by (auto simp: node_ok_def same_link_def)
    next
      case False
      then show ?thesis using x fan_ok_node [OF assms(1)] by simp
    qed
    fix c assume c: "c \<in> set (tChildren x)"
    obtain ct where ct: "T c = Some ct" "IsChild ct" "tParent ct = m" "edge_ok y ct"
      using childE [OF assms(1) y(1)] c y(2) by auto
    have "edge_ok x ct"
    proof (cases "m = n")
      case True
      then have "x = t'" "y = t" using x y(1) assms(2) by simp_all
      then show ?thesis using assms(5) [OF _ ct(1)] c y(2) by simp
    next
      case False
      then show ?thesis using x y(1) ct(4) by simp
    qed
    then show "\<exists>ct. ?T c = Some ct \<and> IsChild ct \<and> tParent ct = m \<and> edge_ok x ct"
      using look [OF ct(1)] ct(2,3) by (auto simp: edge_ok_def)
  next
    assume "IsChild x"
    then obtain p where p: "T (tParent x) = Some p" "m \<in> set (tChildren p)"
      using parentE [OF assms(1) y(1)] y(3,4) by metis
    then show "\<exists>p. ?T (tParent x) = Some p \<and> m \<in> set (tChildren p)" using look [OF p(1)] by auto
  next
    show "length (filter (is_remote ?T) (tChildren x)) \<le> MaxRemoteChildrenPerParent"
      using ok unfolding rem y(2) by (simp add: topic_ok_def)
  qed
next
  have "target_of (T(n \<mapsto> t')) k = target_of T k" for k
    using assms(2,3) same_link_roles(3) [OF assms(3)] by (simp add: target_of_def same_link_def)
  then show "target_of (T(n \<mapsto> t')) k \<noteq> None \<Longrightarrow> target_of (T(n \<mapsto> t')) k = target_of (T(n \<mapsto> t')) m \<Longrightarrow> k = m" for k m
    using targets_kept [OF assms(1), of "T(n \<mapsto> t')" k m] by auto
qed

section \<open>An attach\<close>

definition with_child :: "string \<Rightarrow> Topic \<Rightarrow> Topic" where
  "with_child c p = p\<lparr>tRole := RoleParent, tChildren := tChildren p @ [c]\<rparr>"

text \<open>A topic that takes no part in fan-out, or no topic at all.\<close>

definition unlinked :: "topics \<Rightarrow> string \<Rightarrow> bool" where
  "unlinked T c \<longleftrightarrow> (case T c of None \<Rightarrow> True | Some t \<Rightarrow> \<not> IsChild t \<and> \<not> IsParent t)"

lemma unlinked_no_edges:
  assumes "fan_ok T" and "unlinked T c" and "T m = Some mt"
  shows "c \<notin> set (tChildren mt)" and "IsChild mt \<Longrightarrow> tParent mt \<noteq> c"
proof -
  show "c \<notin> set (tChildren mt)"
  proof
    assume "c \<in> set (tChildren mt)"
    then obtain ct where "T c = Some ct" "IsChild ct" using childE [OF assms(1,3)] by metis
    then show False using assms(2) by (simp add: unlinked_def)
  qed
  show "tParent mt \<noteq> c" if ch: "IsChild mt"
  proof
    assume c: "tParent mt = c"
    obtain pt where "T (tParent mt) = Some pt" "IsParent pt" by (rule parentE [OF assms(1,3) ch])
    then have "T c = Some pt" "IsParent pt" using c by simp_all
    then show False using assms(2) by (simp add: unlinked_def)
  qed
qed

lemma node_ok_with_child:
  assumes "node_ok p pt" and "\<not> IsChild pt" and "c \<notin> set (tChildren pt)"
    and "length (tChildren pt) < MaxChildrenPerParent"
  shows "node_ok p (with_child c pt)"
  using assms by (auto simp: node_ok_def with_child_def link_fields_ok_def role_defs)

lemma fan_ok_attach:
  assumes "fan_ok T" and "T p = Some pt" and "\<not> IsChild pt" and "p \<noteq> c" and "unlinked T c"
    and "node_ok c ct" and "IsChild ct" and "tParent ct = p" and "edge_ok pt ct"
    and "length (tChildren pt) < MaxChildrenPerParent"
    and "IsRemoteChild ct \<Longrightarrow> length (filter (is_remote T) (tChildren pt)) < MaxRemoteChildrenPerParent"
    and "\<And>n. IsRemoteChild ct \<Longrightarrow> target_of T n \<noteq> map_option (\<lambda>l. (rlName l, rlTopic l)) (tRemote ct)"
  shows "fan_ok (T(p \<mapsto> with_child c pt, c \<mapsto> ct))"
proof (rule fan_okI)
  let ?T = "T(p \<mapsto> with_child c pt, c \<mapsto> ct)"
  have cT: "?T c = Some ct" and pT: "?T p = Some (with_child c pt)" using assms(4) by simp_all
  have nc: "c \<notin> set (tChildren pt)" by (rule unlinked_no_edges(1) [OF assms(1,5,2)])
  have np: "p \<notin> set (tChildren mt)" if "T m = Some mt" for m mt
    using childE [OF assms(1) that, of p] assms(2,3) by auto
  have old: "?T x = T x" if "T m = Some mt" "x \<in> set (tChildren mt)" for x m mt
    using np [OF that(1)] unlinked_no_edges(1) [OF assms(1,5) that(1)] that(2) by auto
  fix n t assume t: "?T n = Some t"
  consider "n = c" | "n = p" "n \<noteq> c" | "n \<noteq> c" "n \<noteq> p" by blast
  then show "topic_ok ?T n t"
  proof cases
    case 1
    then have "t = ct" using t by simp
    then show ?thesis
      using assms(6,7,8) pT 1 child_no_children [OF assms(6,7)] by (intro topic_okI) (auto simp: with_child_def)
  next
    case 2
    then have tp: "t = with_child c pt" using t by simp
    show ?thesis
    proof (rule topic_okI)
      show "node_ok n t" unfolding tp 2(1)
        by (rule node_ok_with_child [OF fan_ok_node [OF assms(1,2)] assms(3) nc assms(10)])
      show "IsChild t \<Longrightarrow> \<exists>p. ?T (tParent t) = Some p \<and> n \<in> set (tChildren p)"
        by (simp add: tp with_child_def role_defs)
      have same: "filter (is_remote ?T) (tChildren pt) = filter (is_remote T) (tChildren pt)"
        using old [OF assms(2)] by (intro filter_cong) (simp_all add: is_remote_def)
      have "is_remote ?T c = IsRemoteChild ct" using cT by (simp add: is_remote_def)
      then show "length (filter (is_remote ?T) (tChildren t)) \<le> MaxRemoteChildrenPerParent"
        using assms(11) fan_okD [OF assms(1,2)] same by (auto simp: tp with_child_def topic_ok_def)
    next
      fix x assume x: "x \<in> set (tChildren t)"
      show "\<exists>ct. ?T x = Some ct \<and> IsChild ct \<and> tParent ct = n \<and> edge_ok t ct"
      proof (cases "x = c")
        case True
        then show ?thesis using cT assms(7,8,9) 2(1) by (auto simp: tp with_child_def edge_ok_def)
      next
        case False
        then have "x \<in> set (tChildren pt)" using x by (simp add: tp with_child_def)
        then show ?thesis
          using childE [OF assms(1,2), of x] old [OF assms(2), of x] 2(1)
          by (metis (no_types, lifting) Topic.select_convs(4) Topic.surjective Topic.update_convs(10,11) edge_ok_def tp with_child_def)
      qed
    qed
  next
    case 3
    then have tn: "T n = Some t" using t by simp
    show ?thesis
    proof (rule topic_ok_frame [OF fan_okD [OF assms(1) tn]])
      show "x \<in> set (tChildren t) \<Longrightarrow> ?T x = T x" for x by (rule old [OF tn])
      assume ch: "IsChild t"
      obtain q where q: "T (tParent t) = Some q" "n \<in> set (tChildren q)" by (rule parentE [OF assms(1) tn ch])
      have "tParent t \<noteq> c" by (rule unlinked_no_edges(2) [OF assms(1,5) tn ch])
      then show "\<exists>p. ?T (tParent t) = Some p \<and> n \<in> set (tChildren p)"
        using q assms(2) by (cases "tParent t = p") (auto simp: with_child_def)
    qed
  qed
next
  let ?T = "T(p \<mapsto> with_child c pt, c \<mapsto> ct)"
  have tp: "target_of T p = None" using assms(2,3) by (simp add: target_of_def IsRemoteChild_def)
  have tc: "target_of T c = None"
    using assms(5) by (auto simp: target_of_def unlinked_def IsRemoteChild_def split: option.splits)
  have t': "target_of ?T n = (if n = c then (if IsRemoteChild ct then map_option (\<lambda>l. (rlName l, rlTopic l)) (tRemote ct) else None)
      else if n = p then None else target_of T n)" for n
    using assms(3) by (simp add: target_of_def with_child_def IsRemoteChild_def IsChild_role)
  fix n m assume a: "target_of ?T n \<noteq> None" "target_of ?T n = target_of ?T m"
  show "n = m"
  proof (cases "IsRemoteChild ct \<and> (n = c \<or> m = c)")
    case True
    then show ?thesis using a assms(12) unfolding t' by (metis (full_types))
  next
    case False
    have "target_of ?T n = target_of T n" "target_of ?T m = target_of T m"
      using a False tp tc unfolding t' by (auto split: if_splits)
    then show ?thesis using a assms(1) unfolding fan_ok_def by metis
  qed
qed

section \<open>A detach\<close>

text \<open>What becomes of a former child: a stub goes, another topic stays on its own.\<close>

definition freed :: "Topic \<Rightarrow> Topic option" where
  "freed ct = (if IsRemoteChild ct then None else Some (standalone ct))"

lemma unlinkChild_simps:
  "tChildren (unlinkChild c p) = filter (\<lambda>x. x \<noteq> c) (tChildren p)" "tName (unlinkChild c p) = tName p"
  "tRetentionMs (unlinkChild c p) = tRetentionMs p" "tParent (unlinkChild c p) = tParent p"
  "tRemote (unlinkChild c p) = tRemote p"
  by (auto simp: unlinkChild_def Let_def)

lemma node_ok_unlinkChild:
  assumes "node_ok p pt" and "IsParent pt"
  shows "node_ok p (unlinkChild c pt)" and "\<not> IsChild (unlinkChild c pt)"
proof -
  have le: "length (filter (\<lambda>x. x \<noteq> c) (tChildren pt)) \<le> MaxChildrenPerParent"
    by (rule order_trans [OF length_filter_le node_okD(5) [OF assms(1)]])
  show "node_ok p (unlinkChild c pt)"
    using assms le by (auto simp: node_ok_def unlinkChild_def Let_def link_fields_ok_def role_defs)
  show "\<not> IsChild (unlinkChild c pt)"
    using assms(2) by (auto simp: unlinkChild_def Let_def role_defs)
qed

lemma freed_ok:
  assumes "node_ok c ct" and "IsChild ct" and "freed ct = Some t"
  shows "topic_ok T c t" and "target_of T c = None \<or> T c \<noteq> Some t"
proof -
  have t: "t = standalone ct" "\<not> IsRemoteChild ct" using assms(3) by (auto simp: freed_def split: if_splits)
  then have r: "tRemote ct = None" using assms(2) by (simp add: IsRemoteChild_def)
  have "node_ok c t"
    using assms(1,2) child_no_children [OF assms(1,2)] r
    by (auto simp: t(1) standalone_def node_ok_def link_fields_ok_def role_defs MaxFanoutDelayMs_def)
  then show "topic_ok T c t"
    using child_no_children [OF assms(1,2)] by (intro topic_okI) (auto simp: t(1) standalone_def role_defs)
  show "target_of T c = None \<or> T c \<noteq> Some t"
    by (auto simp: target_of_def t(1) standalone_def IsRemoteChild_def IsChild_role)
qed

lemma fan_ok_detach:
  assumes "fan_ok T" and "T p = Some pt" and "T c = Some ct" and "IsChild ct" and "tParent ct = p"
    and "X = None \<or> X = freed ct"
  shows "fan_ok ((T(p \<mapsto> unlinkChild c pt))(c := X))"
proof (rule fan_okI)
  let ?T = "(T(p \<mapsto> unlinkChild c pt))(c := X)"
  have mem: "c \<in> set (tChildren pt)" and par: "IsParent pt"
    using parentE [OF assms(1,3,4)] assms(2,5) by auto
  have cp: "c \<noteq> p" by (rule child_not_own_parent [OF assms(1,2) mem])
  have nop: "\<not> IsChild pt" using par role_excl by blast
  have nc: "x \<noteq> c \<and> x \<noteq> p" if "T m = Some mt" "x \<in> set (tChildren mt)" "m = p \<Longrightarrow> x \<noteq> c" for x m mt
    using childE [OF assms(1) that(1,2)] assms(2,3,5) nop that(3) by (metis option.inject)
  fix n t assume t: "?T n = Some t"
  consider "n = c" | "n = p" "n \<noteq> c" | "n \<noteq> c" "n \<noteq> p" by blast
  then show "topic_ok ?T n t"
  proof cases
    case 1
    then show ?thesis using t assms(6) freed_ok(1) [OF fan_ok_node [OF assms(1,3)] assms(4)] by auto
  next
    case 2
    then have tp: "t = unlinkChild c pt" using t by simp
    show ?thesis
    proof (rule topic_okI)
      show "node_ok n t" "IsChild t \<Longrightarrow> \<exists>p. ?T (tParent t) = Some p \<and> n \<in> set (tChildren p)"
        using node_ok_unlinkChild [OF fan_ok_node [OF assms(1,2)] par] by (auto simp: tp 2)
      have "filter (is_remote ?T) (tChildren t) = filter (is_remote T) (filter (\<lambda>x. x \<noteq> c) (tChildren pt))"
        unfolding tp unlinkChild_simps
        using nc [OF assms(2)] by (intro filter_cong) (auto simp: is_remote_def)
      also have "\<dots> = filter (\<lambda>x. x \<noteq> c) (filter (is_remote T) (tChildren pt))"
        by (simp add: filter_filter conj_commute)
      finally have "length (filter (is_remote ?T) (tChildren t)) \<le> length (filter (is_remote T) (tChildren pt))"
        by (simp only: length_filter_le)
      then show "length (filter (is_remote ?T) (tChildren t)) \<le> MaxRemoteChildrenPerParent"
        using fan_okD [OF assms(1,2)] by (simp add: topic_ok_def)
    next
      fix x assume "x \<in> set (tChildren t)"
      then have x: "x \<in> set (tChildren pt)" "x \<noteq> c" by (simp_all add: tp unlinkChild_simps)
      obtain xt where xt: "T x = Some xt" "IsChild xt" "tParent xt = p" "edge_ok pt xt"
        by (rule childE [OF assms(1,2) x(1)])
      have "?T x = Some xt" using nc [OF assms(2) x(1)] x(2) xt(1) by simp
      then show "\<exists>ct. ?T x = Some ct \<and> IsChild ct \<and> tParent ct = n \<and> edge_ok t ct"
        using xt 2 by (simp add: edge_ok_def tp unlinkChild_simps)
    qed
  next
    case 3
    then have tn: "T n = Some t" using t by simp
    show ?thesis
    proof (rule topic_ok_frame [OF fan_okD [OF assms(1) tn]])
      show "x \<in> set (tChildren t) \<Longrightarrow> ?T x = T x" for x using nc [OF tn] 3(2) by simp
      assume ch: "IsChild t"
      obtain q where q: "T (tParent t) = Some q" "n \<in> set (tChildren q)" "IsParent q"
        by (rule parentE [OF assms(1) tn ch])
      have "tParent t \<noteq> c" using q assms(3,4) role_excl by auto
      then show "\<exists>p. ?T (tParent t) = Some p \<and> n \<in> set (tChildren p)"
        using q assms(2) 3(1) by (cases "tParent t = p") (auto simp: unlinkChild_simps)
    qed
  qed
next
  let ?T = "(T(p \<mapsto> unlinkChild c pt))(c := X)"
  have par: "IsParent pt" using parentE [OF assms(1,3,4)] assms(2,5) by auto
  have "target_of ?T n = None \<or> target_of ?T n = target_of T n" for n
  proof (cases "n = c")
    case True
    then show ?thesis
      using assms(6) by (auto simp: target_of_def freed_def standalone_def IsRemoteChild_def IsChild_role split: if_splits)
  next
    case False
    then show ?thesis
      using node_ok_unlinkChild(2) [OF fan_ok_node [OF assms(1,2)] par]
      by (simp add: target_of_def IsRemoteChild_def)
  qed
  then show "target_of ?T n \<noteq> None \<Longrightarrow> target_of ?T n = target_of ?T m \<Longrightarrow> n = m" for n m
    using targets_kept [OF assms(1), of ?T n m] by blast
qed

section \<open>A delete of a topic that is no child\<close>

definition dissolved :: "topics \<Rightarrow> string \<Rightarrow> Topic \<Rightarrow> topics" where
  "dissolved T name t n =
     (if n = name then None
      else if n \<in> set (tChildren t) then (case T n of None \<Rightarrow> None | Some ct \<Rightarrow> freed ct)
      else T n)"

lemma fan_ok_dissolve:
  assumes "fan_ok T" and "T name = Some t" and "\<not> IsChild t"
  shows "fan_ok (dissolved T name t)"
proof (rule fan_okI)
  let ?T = "dissolved T name t"
  fix n x assume x: "?T n = Some x"
  then have nn: "n \<noteq> name" by (auto simp: dissolved_def)
  show "topic_ok ?T n x"
  proof (cases "n \<in> set (tChildren t)")
    case True
    then obtain ct where ct: "T n = Some ct" "IsChild ct" using childE [OF assms(1,2)] by metis
    then show ?thesis
      using freed_ok(1) [OF fan_ok_node [OF assms(1) ct(1)] ct(2)] x True nn by (simp add: dissolved_def)
  next
    case False
    then have xn: "T n = Some x" using x nn by (simp add: dissolved_def)
    show ?thesis
    proof (rule topic_ok_frame [OF fan_okD [OF assms(1) xn]])
      fix c assume c: "c \<in> set (tChildren x)"
      obtain ct where ct: "T c = Some ct" "IsChild ct" "tParent ct = n" by (rule childE [OF assms(1) xn c])
      have "c \<noteq> name" using ct assms(2,3) by auto
      moreover have "c \<notin> set (tChildren t)"
        using childE [OF assms(1,2), of c] ct nn by (metis option.inject)
      ultimately show "?T c = T c" by (simp add: dissolved_def)
    next
      assume ch: "IsChild x"
      obtain q where q: "T (tParent x) = Some q" "n \<in> set (tChildren q)" "IsParent q"
        by (rule parentE [OF assms(1) xn ch])
      have "tParent x \<noteq> name" using q False assms(2) by auto
      moreover have "tParent x \<notin> set (tChildren t)"
        using childE [OF assms(1,2), of "tParent x"] q(1,3) role_excl by (metis option.inject)
      ultimately show "\<exists>p. ?T (tParent x) = Some p \<and> n \<in> set (tChildren p)"
        using q by (simp add: dissolved_def)
    qed
  qed
next
  let ?T = "dissolved T name t"
  have "target_of ?T n = None \<or> target_of ?T n = target_of T n" for n
    by (auto simp: target_of_def dissolved_def freed_def standalone_def IsRemoteChild_def IsChild_role split: option.splits)
  then show "target_of ?T n \<noteq> None \<Longrightarrow> target_of ?T n = target_of ?T m \<Longrightarrow> n = m" for n m
    using targets_kept [OF assms(1), of ?T n m] by blast
qed

end
