(* ===== verification/Meta_Cluster.thy ===== *)
theory Meta_Cluster
  imports Metastore
begin

text \<open>
  The cluster entries: partition assignments (\<^verbatim>\<open>applyAssignPartition\<close>, \<^verbatim>\<open>fsm_apply_assign.go\<close>), partition moves
  (\<^verbatim>\<open>fsm_apply_move.go\<close>) and members (\<^verbatim>\<open>fsm_apply.go\<close>, \<^verbatim>\<open>fsm_apply_members.go\<close>).
\<close>

section \<open>Members\<close>

definition memberTombstoned :: "Buckets \<Rightarrow> string \<Rightarrow> bool" where
  "memberTombstoned d ident = om_mem (bRemovedMembers d) ident"

definition putMember :: "Member \<Rightarrow> Buckets \<Rightarrow> Buckets" where
  "putMember m d = d\<lparr>bMembers := om_put (mID m) m (bMembers d)\<rparr>"

definition sameRoutingMember :: "Member \<Rightarrow> Member \<Rightarrow> bool" where
  "sameRoutingMember a b \<longleftrightarrow>
     mID a = mID b \<and> mAddr a = mAddr b \<and> mClusterAddr a = mClusterAddr b \<and> mStatus a = mStatus b"

definition bumpRoutingIf :: "bool \<Rightarrow> metadataDomainVersions \<Rightarrow> metadataDomainVersions" where
  "bumpRoutingIf changed v = (if changed then bumpRoutingMembers v else v)"

definition memberJoinTx :: "Member \<Rightarrow> bool tx" where
  "memberJoinTx m d =
     (if memberTombstoned d (mID m) then Inl ErrMemberRemoved
      else case om_get (bMembers d) (mID m) of
             None \<Rightarrow> Inr (True, putMember m d)
           | Some current \<Rightarrow>
               let m' = m\<lparr>mDraining := mDraining current\<rparr>
               in Inr (\<not> sameRoutingMember current m', putMember m' d))"

definition applyMemberJoin :: "Member \<Rightarrow> fsmState \<Rightarrow> unit result \<times> fsmState" where
  "applyMemberJoin m = commit_tx (memberJoinTx m) bumpRoutingIf"

definition setMemberDrainingTx :: "memberDrainingPayload \<Rightarrow> unit tx" where
  "setMemberDrainingTx p d =
     (case om_get (bMembers d) (mdID p) of
        None \<Rightarrow> Inl ErrNotFound
      | Some m \<Rightarrow> Inr ((), d\<lparr>bMembers := om_put (mdID p) (m\<lparr>mDraining := mdDraining p\<rparr>) (bMembers d)\<rparr>))"

definition applySetMemberDraining :: "memberDrainingPayload \<Rightarrow> fsmState \<Rightarrow> unit result \<times> fsmState" where
  "applySetMemberDraining p = commit_tx (setMemberDrainingTx p) (\<lambda>_ v. v)"

definition memberHeartbeatTx :: "heartbeatPayload \<Rightarrow> unit tx" where
  "memberHeartbeatTx p d =
     (case om_get (bMembers d) (hbID p) of
        None \<Rightarrow> Inl ErrNotFound
      | Some m \<Rightarrow> Inr ((), d\<lparr>bMembers := om_put (hbID p) (m\<lparr>mLastHeartbeat := hbAt p\<rparr>) (bMembers d)\<rparr>))"

definition applyMemberHeartbeat :: "heartbeatPayload \<Rightarrow> fsmState \<Rightarrow> unit result \<times> fsmState" where
  "applyMemberHeartbeat p = commit_tx (memberHeartbeatTx p) (\<lambda>_ v. v)"

definition memberDeadTx :: "string \<Rightarrow> bool tx" where
  "memberDeadTx ident d =
     (case om_get (bMembers d) ident of
        None \<Rightarrow> Inl ErrNotFound
      | Some m \<Rightarrow> Inr (mStatus m \<noteq> MemberDead,
                    d\<lparr>bMembers := om_put ident (m\<lparr>mStatus := MemberDead\<rparr>) (bMembers d)\<rparr>))"

definition applyMemberDead :: "string \<Rightarrow> fsmState \<Rightarrow> unit result \<times> fsmState" where
  "applyMemberDead ident = commit_tx (memberDeadTx ident) bumpRoutingIf"

definition markMemberDeadIfTx :: "markMemberDeadIfPayload \<Rightarrow> bool tx" where
  "markMemberDeadIfTx p d =
     (case om_get (bMembers d) (mkID p) of
        None \<Rightarrow> Inl ErrNotFound
      | Some m \<Rightarrow>
          if mLastHeartbeat m > mkObserved p then Inl ErrMemberHeartbeatNewer
          else Inr (mStatus m \<noteq> MemberDead,
                 d\<lparr>bMembers := om_put (mkID p) (m\<lparr>mStatus := MemberDead\<rparr>) (bMembers d)\<rparr>))"

definition applyMarkMemberDeadIf :: "markMemberDeadIfPayload \<Rightarrow> fsmState \<Rightarrow> unit result \<times> fsmState" where
  "applyMarkMemberDeadIf p = commit_tx (markMemberDeadIfTx p) bumpRoutingIf"

definition removeMemberTx :: "memberRemovalPayload \<Rightarrow> bool tx" where
  "removeMemberTx p d =
     Inr (om_mem (bMembers d) (mrID p),
       d\<lparr>bMembers := om_del (mrID p) (bMembers d),
         bRemovedMembers := om_put (mrID p) (mrAt p) (bRemovedMembers d)\<rparr>)"

definition applyRemoveMember :: "memberRemovalPayload \<Rightarrow> fsmState \<Rightarrow> unit result \<times> fsmState" where
  "applyRemoveMember p = commit_tx (removeMemberTx p) bumpRoutingIf"

definition readmitMemberTx :: "memberRemovalPayload \<Rightarrow> unit tx" where
  "readmitMemberTx p d = Inr ((), d\<lparr>bRemovedMembers := om_del (mrID p) (bRemovedMembers d)\<rparr>)"

definition applyReadmitMember :: "memberRemovalPayload \<Rightarrow> fsmState \<Rightarrow> unit result \<times> fsmState" where
  "applyReadmitMember p = commit_tx (readmitMemberTx p) (\<lambda>_ v. v)"

section \<open>Assignments\<close>

definition readAssignment :: "Buckets \<Rightarrow> string \<Rightarrow> int \<Rightarrow> Assignment result" where
  "readAssignment d topicName part =
     (case om_get (bAssignments d) (topicName, part) of None \<Rightarrow> Inl ErrNotFound | Some a \<Rightarrow> Inr a)"

definition putAssignment :: "Assignment \<Rightarrow> Buckets \<Rightarrow> Buckets" where
  "putAssignment a d = d\<lparr>bAssignments := om_put (aTopic a, aPartition a) a (bAssignments d)\<rparr>"

definition bumpAssignmentIf :: "string \<Rightarrow> bool \<Rightarrow> metadataDomainVersions \<Rightarrow> metadataDomainVersions" where
  "bumpAssignmentIf name changed v = (if changed then bumpAssignment name v else v)"

definition assignPartitionTx :: "Assignment \<Rightarrow> unit tx" where
  "assignPartitionTx a d = Inr ((), putAssignment a d)"

definition applyAssignPartition :: "Assignment \<Rightarrow> fsmState \<Rightarrow> unit result \<times> fsmState" where
  "applyAssignPartition a = commit_tx (assignPartitionTx a) (\<lambda>_. bumpAssignment (aTopic a))"

definition assignPartitionIfAbsentTx :: "assignIfAbsentPayload \<Rightarrow> unit tx" where
  "assignPartitionIfAbsentTx p d =
     bind_sum (getTopicRecord d (iaTopic p)) (\<lambda>t.
     bind_sum (expectIncarnation t (iaExpectID p)) (\<lambda>_.
       if iaPartition p < 0 \<or> iaPartition p \<ge> tPartitions t then Inl ErrInvalidArgument
       else if iaOwnerID p = '''' then Inl ErrInvalidArgument
       else if memberTombstoned d (iaOwnerID p) then Inl ErrInvalidArgument
       else if om_mem (bAssignments d) (iaTopic p, iaPartition p) then Inl ErrPartitionAssigned
       else Inr ((), putAssignment \<lparr>aTopic = iaTopic p, aPartition = iaPartition p, aOwnerID = iaOwnerID p,
                                   aTargetID = ''''\<rparr> d)))"

definition applyAssignPartitionIfAbsent :: "assignIfAbsentPayload \<Rightarrow> fsmState \<Rightarrow> unit result \<times> fsmState" where
  "applyAssignPartitionIfAbsent p = commit_tx (assignPartitionIfAbsentTx p) (\<lambda>_. bumpAssignment (iaTopic p))"

definition pruneAssignmentTx :: "pruneAssignmentPayload \<Rightarrow> bool tx" where
  "pruneAssignmentTx p d =
     (let key = (paTopic p, paPartition p);
          d' = d\<lparr>bAssignments := om_del key (bAssignments d)\<rparr>
      in if \<not> om_mem (bAssignments d) key then Inl ErrNotFound
         else case om_get (bTopics d) (paTopic p) of
                None \<Rightarrow> Inr (True, d')
              | Some t \<Rightarrow> if 0 \<le> paPartition p \<and> paPartition p < tPartitions t then Inl ErrAssignmentLive
                          else Inr (False, d'))"

definition applyPruneAssignment :: "pruneAssignmentPayload \<Rightarrow> fsmState \<Rightarrow> unit result \<times> fsmState" where
  "applyPruneAssignment p =
     commit_tx (pruneAssignmentTx p)
       (\<lambda>topicGone. if topicGone then retireAssignments (paTopic p) else bumpAssignment (paTopic p))"

section \<open>Moves\<close>

definition setAssignmentTargetTx :: "assignmentTargetPayload \<Rightarrow> bool tx" where
  "setAssignmentTargetTx p d =
     bind_sum (readAssignment d (atTopic p) (atPartition p)) (\<lambda>a.
       if aTargetID a = atTargetID p then Inr (False, d)
       else Inr (True, putAssignment (a\<lparr>aTargetID := atTargetID p\<rparr>) d))"

definition applySetAssignmentTarget :: "assignmentTargetPayload \<Rightarrow> fsmState \<Rightarrow> unit result \<times> fsmState" where
  "applySetAssignmentTarget p = commit_tx (setAssignmentTargetTx p) (bumpAssignmentIf (atTopic p))"

definition completeMoveTx :: "completeMovePayload \<Rightarrow> bool tx" where
  "completeMoveTx p d =
     bind_sum (readAssignment d (cmTopic p) (cmPartition p)) (\<lambda>a.
       if aOwnerID a = cmTargetID p \<and> aTargetID a = '''' \<and> cmTargetID p \<noteq> '''' then Inr (False, d)
       else if aOwnerID a \<noteq> cmExpectedOwner p then Inl ErrInvalidArgument
       else if aTargetID a \<noteq> cmTargetID p then Inl ErrInvalidArgument
       else Inr (True, putAssignment (a\<lparr>aOwnerID := cmTargetID p, aTargetID := ''''\<rparr>) d))"

definition applyCompleteMove :: "completeMovePayload \<Rightarrow> fsmState \<Rightarrow> unit result \<times> fsmState" where
  "applyCompleteMove p = commit_tx (completeMoveTx p) (bumpAssignmentIf (cmTopic p))"

definition abortMoveTx :: "abortMovePayload \<Rightarrow> bool tx" where
  "abortMoveTx p d =
     bind_sum (readAssignment d (amTopic p) (amPartition p)) (\<lambda>a.
       if aTargetID a = '''' \<or> aTargetID a \<noteq> amExpectedTarget p then Inr (False, d)
       else Inr (True, putAssignment (a\<lparr>aTargetID := ''''\<rparr>) d))"

definition applyAbortMove :: "abortMovePayload \<Rightarrow> fsmState \<Rightarrow> unit result \<times> fsmState" where
  "applyAbortMove p = commit_tx (abortMoveTx p) (bumpAssignmentIf (amTopic p))"

end
