(* ===== verification/Meta_Users.thy ===== *)
theory Meta_Users
  imports Metastore
begin

text \<open>
  The user entries: \<^verbatim>\<open>fsm_apply_users.go\<close>. Root is conferred only by the seed entry; root's grants and
  record survive every other entry; deleting a user can release the topics it owned.
\<close>

definition putNewUserTx :: "User \<Rightarrow> unit tx" where
  "putNewUserTx u d =
     (if om_mem (bUsers d) (uUsername u) then Inl ErrAlreadyExists
      else Inr ((), d\<lparr>bUsers := om_put (uUsername u) u (bUsers d)\<rparr>))"

definition putNewUser :: "User \<Rightarrow> fsmState \<Rightarrow> unit result \<times> fsmState" where
  "putNewUser u = commit_tx (putNewUserTx u) (\<lambda>_. bumpUsers)"

definition applyCreateUser :: "User \<Rightarrow> fsmState \<Rightarrow> unit result \<times> fsmState" where
  "applyCreateUser u = putNewUser (u\<lparr>uRoot := False\<rparr>)"

definition applySeedRootUser :: "User \<Rightarrow> fsmState \<Rightarrow> unit result \<times> fsmState" where
  "applySeedRootUser u = putNewUser (u\<lparr>uRoot := True\<rparr>)"

definition updateUserTx :: "User \<Rightarrow> unit tx" where
  "updateUserTx u d =
     (case om_get (bUsers d) (uUsername u) of
        None \<Rightarrow> Inl ErrNotFound
      | Some current \<Rightarrow>
          let u1 = u\<lparr>uRoot := uRoot current\<rparr>;
              u2 = (if uRoot current then u1\<lparr>uGrants := uGrants current\<rparr> else u1)
          in Inr ((), d\<lparr>bUsers := om_put (uUsername u2) u2 (bUsers d)\<rparr>))"

definition applyUpdateUser :: "User \<Rightarrow> fsmState \<Rightarrow> unit result \<times> fsmState" where
  "applyUpdateUser u = commit_tx (updateUserTx u) (\<lambda>_. bumpUsers)"

definition mutateUserTx :: "string \<Rightarrow> (User \<Rightarrow> User result) \<Rightarrow> unit tx" where
  "mutateUserTx username fn d =
     (case om_get (bUsers d) username of
        None \<Rightarrow> Inl ErrNotFound
      | Some current \<Rightarrow>
          bind_sum (fn current) (\<lambda>u. Inr ((), d\<lparr>bUsers := om_put username u (bUsers d)\<rparr>)))"

definition mutateUser :: "string \<Rightarrow> (User \<Rightarrow> User result) \<Rightarrow> fsmState \<Rightarrow> unit result \<times> fsmState" where
  "mutateUser username fn = commit_tx (mutateUserTx username fn) (\<lambda>_. bumpUsers)"

definition setPassword :: "userPasswordPayload \<Rightarrow> User \<Rightarrow> User result" where
  "setPassword p current = Inr (current\<lparr>uPasswordHash := upPasswordHash p, uUpdatedAtMs := upUpdatedAtMs p\<rparr>)"

definition applySetUserPassword :: "userPasswordPayload \<Rightarrow> fsmState \<Rightarrow> unit result \<times> fsmState" where
  "applySetUserPassword p = mutateUser (upUsername p) (setPassword p)"

definition setGrants :: "userGrantsPayload \<Rightarrow> User \<Rightarrow> User result" where
  "setGrants p current =
     (if uRoot current then Inl ErrRootProtected
      else Inr (current\<lparr>uGrants := ugGrants p, uUpdatedAtMs := ugUpdatedAtMs p\<rparr>))"

definition applySetUserGrants :: "userGrantsPayload \<Rightarrow> fsmState \<Rightarrow> unit result \<times> fsmState" where
  "applySetUserGrants p = mutateUser (ugUsername p) (setGrants p)"

definition deleteUserRecord :: "string \<Rightarrow> unit tx" where
  "deleteUserRecord username d =
     (case om_get (bUsers d) username of
        None \<Rightarrow> Inl ErrNotFound
      | Some current \<Rightarrow>
          if uRoot current then Inl ErrRootProtected
          else Inr ((), d\<lparr>bUsers := om_del username (bUsers d)\<rparr>))"

definition applyDeleteUser :: "string \<Rightarrow> fsmState \<Rightarrow> unit result \<times> fsmState" where
  "applyDeleteUser username = commit_tx (deleteUserRecord username) (\<lambda>_. bumpUsers)"

definition topicsOwnedBy :: "Buckets \<Rightarrow> string \<Rightarrow> Topic list" where
  "topicsOwnedBy d username = filter (\<lambda>t. tOwner t = username) (map snd (bTopics d))"

definition releaseOwnedTopics :: "string \<Rightarrow> Buckets \<Rightarrow> string list \<times> Buckets" where
  "releaseOwnedTopics username d =
     (let owned = topicsOwnedBy d username
      in (map tName owned, fold (\<lambda>t. putTopicRecord (t\<lparr>tOwner := ''''\<rparr>)) owned d))"

definition deleteUserReleaseTopicsTx :: "string \<Rightarrow> string list tx" where
  "deleteUserReleaseTopicsTx username d =
     bind_sum (deleteUserRecord username d) (\<lambda>(_, d1). Inr (releaseOwnedTopics username d1))"

definition applyDeleteUserReleaseTopics :: "string \<Rightarrow> fsmState \<Rightarrow> unit result \<times> fsmState" where
  "applyDeleteUserReleaseTopics username =
     commit_tx (deleteUserReleaseTopicsTx username) (\<lambda>released v. fold bumpTopic released (bumpUsers v))"

end
