(* ===== verification/Meta_Remotes.thy ===== *)
theory Meta_Remotes
  imports Meta_Topics
begin

text \<open>
  The remotes registry (\<^verbatim>\<open>fsm_apply_remotes.go\<close>, \<^verbatim>\<open>remotes.go\<close>, \<^verbatim>\<open>domain/remote\<close>) and the remote children
  (\<^verbatim>\<open>fsm_apply_remote_child.go\<close>).
\<close>

section \<open>Limits\<close>

record LimitsPatch =
  lpMaxInFlight :: "int option"
  lpRequestTimeoutMs :: "int option"
  lpIdleConnTimeoutMs :: "int option"
  lpConnMaxAgeMs :: "int option"
  lpCheckIntervalMs :: "int option"
  lpCompression :: "string option"

definition DefaultLimits :: Limits where
  "DefaultLimits = \<lparr>lMaxInFlight = 16, lRequestTimeoutMs = 30000, lIdleConnTimeoutMs = 30000,
     lConnMaxAgeMs = 300000, lCheckIntervalMs = 60000, lCompression = ''none''\<rparr>"

definition WithDefaults :: "Limits \<Rightarrow> Limits" where
  "WithDefaults l =
     \<lparr>lMaxInFlight = (if lMaxInFlight l = 0 then lMaxInFlight DefaultLimits else lMaxInFlight l),
      lRequestTimeoutMs = (if lRequestTimeoutMs l = 0 then lRequestTimeoutMs DefaultLimits else lRequestTimeoutMs l),
      lIdleConnTimeoutMs = (if lIdleConnTimeoutMs l = 0 then lIdleConnTimeoutMs DefaultLimits else lIdleConnTimeoutMs l),
      lConnMaxAgeMs = (if lConnMaxAgeMs l = 0 then lConnMaxAgeMs DefaultLimits else lConnMaxAgeMs l),
      lCheckIntervalMs = (if lCheckIntervalMs l = 0 then lCheckIntervalMs DefaultLimits else lCheckIntervalMs l),
      lCompression = (if lCompression l = '''' then lCompression DefaultLimits else lCompression l)\<rparr>"

definition opt_or :: "'a option \<Rightarrow> 'a \<Rightarrow> 'a" where
  "opt_or p v = (case p of None \<Rightarrow> v | Some x \<Rightarrow> x)"

definition ApplyPatch :: "Limits \<Rightarrow> LimitsPatch \<Rightarrow> Limits" where
  "ApplyPatch l p =
     \<lparr>lMaxInFlight = opt_or (lpMaxInFlight p) (lMaxInFlight l),
      lRequestTimeoutMs = opt_or (lpRequestTimeoutMs p) (lRequestTimeoutMs l),
      lIdleConnTimeoutMs = opt_or (lpIdleConnTimeoutMs p) (lIdleConnTimeoutMs l),
      lConnMaxAgeMs = opt_or (lpConnMaxAgeMs p) (lConnMaxAgeMs l),
      lCheckIntervalMs = opt_or (lpCheckIntervalMs p) (lCheckIntervalMs l),
      lCompression = opt_or (lpCompression p) (lCompression l)\<rparr>"

definition limits_in_range :: "Limits \<Rightarrow> bool" where
  "limits_in_range l \<longleftrightarrow>
     1 \<le> lMaxInFlight l \<and> lMaxInFlight l \<le> 256 \<and>
     5000 \<le> lRequestTimeoutMs l \<and> lRequestTimeoutMs l \<le> 120000 \<and>
     1000 \<le> lIdleConnTimeoutMs l \<and> lIdleConnTimeoutMs l \<le> 300000 \<and>
     10000 \<le> lConnMaxAgeMs l \<and> lConnMaxAgeMs l \<le> 3600000 \<and>
     10000 \<le> lCheckIntervalMs l \<and> lCheckIntervalMs l \<le> 3600000 \<and>
     (lCompression l = ''none'' \<or> lCompression l = ''zstd'')"

definition ValidateLimits :: "Limits \<Rightarrow> unit result" where
  "ValidateLimits l = (if limits_in_range (WithDefaults l) then Inr () else Inl ErrInvalidArgument)"

definition zeroLimits :: Limits where
  "zeroLimits = \<lparr>lMaxInFlight = 0, lRequestTimeoutMs = 0, lIdleConnTimeoutMs = 0,
     lConnMaxAgeMs = 0, lCheckIntervalMs = 0, lCompression = ''''\<rparr>"

definition ValidatePatch :: "LimitsPatch \<Rightarrow> unit result" where
  "ValidatePatch p =
     (if lpMaxInFlight p = Some 0 \<or> lpRequestTimeoutMs p = Some 0 \<or> lpIdleConnTimeoutMs p = Some 0 \<or>
         lpConnMaxAgeMs p = Some 0 \<or> lpCheckIntervalMs p = Some 0 \<or> lpCompression p = Some ''''
      then Inl ErrInvalidArgument
      else ValidateLimits (ApplyPatch (WithDefaults zeroLimits) p))"

section \<open>The registry\<close>

record SealedTuple =
  stName :: string
  stID :: string
  stURL :: string
  stUsername :: string
  stTrustAnchor :: string

record PutRemoteOp =
  prRecord :: RemoteRecord
  prSalt :: string
  prSealedAtMs :: int
  prActor :: string

record RemoteFields =
  rfURL :: "string option"
  rfUsername :: "string option"
  rfCAPEM :: "string option"
  rfLimits :: "LimitsPatch option"

record UpdateRemoteOp =
  urName :: string
  urFields :: RemoteFields
  urCredential :: "Envelope option"
  urFingerprint :: string
  urSealedAgainst :: "SealedTuple option"
  urExpectCredentialVersion :: "nat option"
  urReseal :: bool
  urSealedAtMs :: int
  urActor :: string

record DeleteRemoteOp =
  drName :: string
  drForce :: bool

definition MaxRemotes :: nat where "MaxRemotes = 64"
definition SealCap :: nat where "SealCap = 2 ^ 30"

definition remoteNameOK :: "string \<Rightarrow> bool" where
  "remoteNameOK s =
     (case s of
        [] \<Rightarrow> False
      | c # cs \<Rightarrow> CHR ''a'' \<le> c \<and> c \<le> CHR ''z'' \<and> length cs \<le> 62 \<and>
          list_all (\<lambda>x. (CHR ''a'' \<le> x \<and> x \<le> CHR ''z'') \<or> (CHR ''0'' \<le> x \<and> x \<le> CHR ''9'') \<or> x = CHR ''-'') cs)"

definition sealedEnvelope :: "Envelope \<Rightarrow> bool" where
  "sealedEnvelope e \<longleftrightarrow> eV e = 1 \<and> length (eKV e) = 16 \<and> eCT e \<noteq> ''''"

definition reservedRemoteKey :: "string \<Rightarrow> bool" where
  "reservedRemoteKey k = HasPrefix k ''_''"

definition getRemote :: "Buckets \<Rightarrow> string \<Rightarrow> RemoteRecord result" where
  "getRemote d name =
     (if name = '''' \<or> reservedRemoteKey name then Inl ErrRemoteNotFound
      else case om_get (bRemotes d) name of None \<Rightarrow> Inl ErrRemoteNotFound | Some r \<Rightarrow> Inr r)"

definition remoteExists :: "Buckets \<Rightarrow> string \<Rightarrow> bool" where
  "remoteExists d name = (if name = '''' \<or> reservedRemoteKey name then False else om_mem (bRemotes d) name)"

definition countRemotes :: "Buckets \<Rightarrow> nat" where
  "countRemotes d = length (filter (\<lambda>k. \<not> reservedRemoteKey k) (om_keys (bRemotes d)))"

definition countSeal :: "Keys \<Rightarrow> string \<Rightarrow> int \<Rightarrow> nat \<times> Keys" where
  "countSeal keys kv sealedAtMs =
     (case om_get (kVersions keys) kv of
        None \<Rightarrow> (0, keys\<lparr>kVersions := om_put kv \<lparr>kvSeals = 1, kvFirstSealedAtMs = sealedAtMs\<rparr> (kVersions keys)\<rparr>)
      | Some v \<Rightarrow> (kvSeals v, keys\<lparr>kVersions := om_put kv (v\<lparr>kvSeals := kvSeals v + 1\<rparr>) (kVersions keys)\<rparr>))"

definition putRemote_refused :: "PutRemoteOp \<Rightarrow> nat \<Rightarrow> Keys \<Rightarrow> Buckets \<Rightarrow> err option" where
  "putRemote_refused op prior keys d =
     (if (case kSalt keys of None \<Rightarrow> prSalt op = '''' | Some s \<Rightarrow> prSalt op \<noteq> '''' \<and> s \<noteq> prSalt op)
      then Some ErrRemoteSaltRace
      else if prior \<ge> SealCap then Some ErrRemoteKeyExhausted
      else if om_mem (bRemotes d) (rName (prRecord op)) then Some ErrRemoteExists
      else if countRemotes d \<ge> MaxRemotes then Some ErrRemoteLimit
      else None)"

definition putRemoteTx :: "PutRemoteOp \<Rightarrow> err option tx" where
  "putRemoteTx op d =
     (let rec = prRecord op;
          (prior, keys) = countSeal (bKeys d) (eKV (rCredential rec)) (prSealedAtMs op);
          refused = putRemote_refused op prior keys d
      in case refused of
           None \<Rightarrow>
             (let keys' = (if kSalt keys = None then keys\<lparr>kSalt := Some (prSalt op)\<rparr> else keys);
                  rec' = rec\<lparr>rCredentialVersion := 1, rRevision := 1, rPasswordSetAtMs := prSealedAtMs op,
                             rPasswordSetBy := prActor op, rCreatedAtMs := prSealedAtMs op, rCreatedBy := prActor op\<rparr>
              in Inr (None, d\<lparr>bRemotes := om_put (rName rec) rec' (bRemotes d), bKeys := keys'\<rparr>))
         | Some e \<Rightarrow> Inr (Some e, d\<lparr>bKeys := keys\<rparr>))"

definition applyPutRemote :: "PutRemoteOp \<Rightarrow> fsmState \<Rightarrow> unit result \<times> fsmState" where
  "applyPutRemote op f =
     (if \<not> remoteNameOK (rName (prRecord op)) \<or> rID (prRecord op) = '''' \<or> \<not> sealedEnvelope (rCredential (prRecord op))
      then (Inl ErrInvalidArgument, f)
      else commit_refusable (putRemoteTx op) bumpRemotes f)"

definition applyRemoteFields :: "RemoteRecord \<Rightarrow> RemoteFields \<Rightarrow> RemoteRecord result" where
  "applyRemoteFields rec fs =
     (let rec1 = rec\<lparr>rURL := opt_or (rfURL fs) (rURL rec), rUsername := opt_or (rfUsername fs) (rUsername rec),
                     rCAPEM := opt_or (rfCAPEM fs) (rCAPEM rec)\<rparr>
      in case rfLimits fs of
           None \<Rightarrow> Inr rec1
         | Some p \<Rightarrow> bind_sum (ValidatePatch p) (\<lambda>_. Inr (rec1\<lparr>rLimits := ApplyPatch (WithDefaults (rLimits rec1)) p\<rparr>)))"

definition TupleOf :: "fsmEnv \<Rightarrow> RemoteRecord \<Rightarrow> SealedTuple option" where
  "TupleOf E r =
     (case (if rCAPEM r = '''' then Some ''system-roots'' else envTrustAnchor E (rCAPEM r)) of
        None \<Rightarrow> None
      | Some anchor \<Rightarrow> Some \<lparr>stName = rName r, stID = rID r, stURL = rURL r, stUsername = rUsername r,
                            stTrustAnchor = anchor\<rparr>)"

definition checkRemoteUpdate ::
    "fsmEnv \<Rightarrow> RemoteRecord \<Rightarrow> RemoteRecord \<Rightarrow> UpdateRemoteOp \<Rightarrow> nat \<Rightarrow> err option" where
  "checkRemoteUpdate E rec next op priorSeals =
     (let bound = (rURL next \<noteq> rURL rec \<or> rUsername next \<noteq> rUsername rec \<or> rCAPEM next \<noteq> rCAPEM rec)
      in if urCredential op = None \<and> \<not> bound \<and> rfLimits (urFields op) = None then Some ErrInvalidArgument
         else if urCredential op = None \<and> bound then Some ErrRemoteChanged
         else if urExpectCredentialVersion op \<noteq> None \<and> urExpectCredentialVersion op \<noteq> Some (rCredentialVersion rec)
         then Some ErrRemoteChanged
         else if urCredential op = None then None
         else if TupleOf E next = None \<or> TupleOf E next \<noteq> urSealedAgainst op then Some ErrRemoteChanged
         else if priorSeals \<ge> SealCap then Some ErrRemoteKeyExhausted
         else None)"

definition updateRemoteTx :: "fsmEnv \<Rightarrow> UpdateRemoteOp \<Rightarrow> err option tx" where
  "updateRemoteTx E op d0 =
     (let (prior, d) =
            (case urCredential op of
               None \<Rightarrow> (0, d0)
             | Some c \<Rightarrow> (let (n, keys) = countSeal (bKeys d0) (eKV c) (urSealedAtMs op) in (n, d0\<lparr>bKeys := keys\<rparr>)))
      in case getRemote d (urName op) of
           Inl e \<Rightarrow> Inr (Some e, d)
         | Inr rec \<Rightarrow>
             (case applyRemoteFields rec (urFields op) of
                Inl e \<Rightarrow> Inr (Some e, d)
              | Inr next \<Rightarrow>
                  (case checkRemoteUpdate E rec next op prior of
                     Some e \<Rightarrow> Inr (Some e, d)
                   | None \<Rightarrow>
                       (let next1 = next\<lparr>rRevision := rRevision rec + 1\<rparr>;
                            next2 = (case urCredential op of
                                None \<Rightarrow> next1
                              | Some c \<Rightarrow>
                                  (let n = next1\<lparr>rCredential := c, rCredentialVersion := rCredentialVersion rec + 1,
                                                 rFingerprint := urFingerprint op\<rparr>
                                   in if urReseal op then n
                                      else n\<lparr>rPasswordSetAtMs := urSealedAtMs op, rPasswordSetBy := urActor op\<rparr>))
                        in Inr (None, d\<lparr>bRemotes := om_put (rName rec) next2 (bRemotes d)\<rparr>)))))"

definition applyUpdateRemote :: "fsmEnv \<Rightarrow> UpdateRemoteOp \<Rightarrow> fsmState \<Rightarrow> unit result \<times> fsmState" where
  "applyUpdateRemote E op f =
     (if (case urCredential op of None \<Rightarrow> False | Some c \<Rightarrow> \<not> sealedEnvelope c \<or> urSealedAgainst op = None)
      then (Inl ErrInvalidArgument, f)
      else commit_refusable (updateRemoteTx E op) bumpRemotes f)"

section \<open>Remote children\<close>

record AttachRemoteChildOp =
  arParent :: string
  arParentID :: string
  arStub :: string
  arStubID :: string
  arEpoch :: string
  arDelayMs :: int
  arOffsets :: "int list"
  arRemote :: RemoteLink
  arCreatedAt :: int

record RemotePauseState =
  psPaused :: bool
  psReason :: string
  psBy :: string
  psAtMs :: int

record RemoteSkip =
  skPartition :: int
  skOffset :: int

record RemoteChildStateOp =
  rsParent :: string
  rsStub :: string
  rsEpoch :: string
  rsPause :: "RemotePauseState option"
  rsTargetID :: "string option"
  rsLanes :: "int option"
  rsSkip :: "RemoteSkip option"

text \<open>\<^verbatim>\<open>forEachStub\<close>: the stubs in name order.\<close>

definition stubs :: "Buckets \<Rightarrow> Topic list" where
  "stubs d = filter IsRemoteChild (map snd (bTopics d))"

definition stubLinkingTarget :: "Buckets \<Rightarrow> string \<Rightarrow> string \<Rightarrow> string" where
  "stubLinkingTarget d remoteName remoteTopic =
     (case find (\<lambda>t. case tRemote t of None \<Rightarrow> False | Some l \<Rightarrow> rlName l = remoteName \<and> rlTopic l = remoteTopic) (stubs d) of
        None \<Rightarrow> '''' | Some t \<Rightarrow> tName t)"

definition remoteChildrenNaming :: "Buckets \<Rightarrow> string \<Rightarrow> string list" where
  "remoteChildrenNaming d remoteName =
     map (\<lambda>t. tParent t @ ''/'' @ tName t)
       (filter (\<lambda>t. case tRemote t of None \<Rightarrow> False | Some l \<Rightarrow> rlName l = remoteName) (stubs d))"

definition countRemoteChildren :: "Buckets \<Rightarrow> Topic \<Rightarrow> nat" where
  "countRemoteChildren d parent =
     length (filter (\<lambda>name. case om_get (bTopics d) name of None \<Rightarrow> False | Some c \<Rightarrow> IsRemoteChild c) (tChildren parent))"

definition deleteRemoteTx :: "DeleteRemoteOp \<Rightarrow> err option tx" where
  "deleteRemoteTx op d =
     (case getRemote d (drName op) of
        Inl e \<Rightarrow> Inr (Some e, d)
      | Inr _ \<Rightarrow>
          if remoteChildrenNaming d (drName op) \<noteq> [] \<and> \<not> drForce op then Inr (Some ErrRemoteInUse, d)
          else Inr (None, d\<lparr>bRemotes := om_del (drName op) (bRemotes d)\<rparr>))"

definition applyDeleteRemote :: "DeleteRemoteOp \<Rightarrow> fsmState \<Rightarrow> unit result \<times> fsmState" where
  "applyDeleteRemote op = commit_refusable (deleteRemoteTx op) bumpRemotes"

definition checkAttachRemoteChildOp :: "AttachRemoteChildOp \<Rightarrow> unit result" where
  "checkAttachRemoteChildOp op =
     (if arParent op = '''' \<or> arStub op = '''' \<or> rlName (arRemote op) = '''' \<or> rlTopic (arRemote op) = ''''
      then Inl ErrInvalidArgument
      else if arParent op = arStub op then Inl ErrFanoutRoleConflict
      else if arEpoch op = '''' then Inl ErrInvalidArgument
      else if arDelayMs op < 0 then Inl ErrInvalidArgument
      else if arDelayMs op > MaxFanoutDelayMs then Inl ErrFanoutDelayTooLong
      else if rlLanes (arRemote op) < 0 \<or> rlLanes (arRemote op) > MaxRemoteLanes then Inl ErrInvalidArgument
      else if \<not> ValidRemoteFrom (rlFrom (arRemote op)) then Inl ErrInvalidArgument
      else Inr ())"

definition stubOf :: "AttachRemoteChildOp \<Rightarrow> Topic" where
  "stubOf op =
     \<lparr>tName = arStub op, tID = arStubID op, tPartitions = 0, tRetentionMs = 0, tVisibilityTimeoutMs = 0,
      tMaxInFlightPerPartition = 0, tMaxAckedAheadPerPartition = 0, tCreatedAt = arCreatedAt op, tOwner = '''',
      tRole = RoleChild, tChildren = [], tParent = arParent op, tAttachEpoch = arEpoch op,
      tFanoutDelayMs = arDelayMs op, tAttachOffsets = arOffsets op,
      tRemote = Some ((arRemote op)\<lparr>rlLanes := EffectiveLanes (arRemote op),
        rlFrom := (if rlFrom (arRemote op) = '''' then RemoteFromAttach else rlFrom (arRemote op)),
        rlPaused := False, rlPauseReason := '''', rlPausedBy := '''', rlPausedAtMs := 0, rlSkip := []\<rparr>)\<rparr>"

definition attachRemoteChildTx :: "AttachRemoteChildOp \<Rightarrow> unit tx" where
  "attachRemoteChildTx op d =
     bind_sum (checkAttachRemoteChildOp op) (\<lambda>_.
     bind_sum (getTopicRecord d (arParent op)) (\<lambda>parent.
     bind_sum (expectIncarnation parent (arParentID op)) (\<lambda>_.
       if IsChild parent then Inl ErrFanoutRoleConflict
       else if \<not> remoteExists d (rlName (arRemote op)) then Inl ErrRemoteChildConflict
       else if om_mem (bTopics d) (arStub op) then Inl ErrAlreadyExists
       else if length (tChildren parent) \<ge> MaxChildrenPerParent then Inl ErrFanoutChildLimit
       else if countRemoteChildren d parent \<ge> MaxRemoteChildrenPerParent then Inl ErrRemoteChildLimit
       else bind_sum (checkRemoteSourceRetention (tRetentionMs parent)) (\<lambda>_.
            bind_sum (checkDelayAgainstRetention (arDelayMs op) (tRetentionMs parent)) (\<lambda>_.
              if stubLinkingTarget d (rlName (arRemote op)) (rlTopic (arRemote op)) \<noteq> '''' then Inl ErrRemoteTargetLinked
              else let parent' = parent\<lparr>tRole := RoleParent, tChildren := tChildren parent @ [arStub op]\<rparr>
                   in Inr ((), putTopicRecord (stubOf op) (putTopicRecord parent' d)))))))"

definition applyAttachRemoteChild :: "AttachRemoteChildOp \<Rightarrow> fsmState \<Rightarrow> unit result \<times> fsmState" where
  "applyAttachRemoteChild op =
     commit_tx (attachRemoteChildTx op) (\<lambda>_ v. bumpTopic (arStub op) (bumpTopic (arParent op) v))"

definition ValidateRemotePauseReason :: "fsmEnv \<Rightarrow> string \<Rightarrow> unit result" where
  "ValidateRemotePauseReason E reason =
     (if length reason > MaxRemotePauseReasonBytes then Inl ErrInvalidArgument
      else if \<not> envPrintable E reason then Inl ErrInvalidArgument
      else Inr ())"

definition setPause :: "fsmEnv \<Rightarrow> RemotePauseState option \<Rightarrow> RemoteLink \<Rightarrow> RemoteLink result" where
  "setPause E p link =
     (case p of
        None \<Rightarrow> Inr link
      | Some s \<Rightarrow>
          if psPaused s then
            bind_sum (ValidateRemotePauseReason E (psReason s)) (\<lambda>_.
              Inr (link\<lparr>rlPaused := True, rlPauseReason := psReason s, rlPausedBy := psBy s, rlPausedAtMs := psAtMs s\<rparr>))
          else Inr (link\<lparr>rlPaused := False, rlPauseReason := '''', rlPausedBy := '''', rlPausedAtMs := 0\<rparr>))"

definition setLanes :: "int option \<Rightarrow> RemoteLink \<Rightarrow> RemoteLink result" where
  "setLanes p link =
     (case p of
        None \<Rightarrow> Inr link
      | Some n \<Rightarrow> if n < MinRemoteLanes \<or> n > MaxRemoteLanes then Inl ErrInvalidArgument
                  else Inr (link\<lparr>rlLanes := n\<rparr>))"

definition setSkip :: "RemoteSkip option \<Rightarrow> RemoteLink \<Rightarrow> RemoteLink result" where
  "setSkip p link =
     (case p of
        None \<Rightarrow> Inr link
      | Some s \<Rightarrow> if skPartition s < 0 \<or> skOffset s < 0 then Inl ErrInvalidArgument
                  else Inr (link\<lparr>rlSkip := WithSkip (rlSkip link) (skPartition s) (skOffset s)\<rparr>))"

definition setRemoteChildStateTx :: "fsmEnv \<Rightarrow> RemoteChildStateOp \<Rightarrow> unit tx" where
  "setRemoteChildStateTx E op d =
     bind_sum (getTopicRecord d (rsStub op)) (\<lambda>stub.
       if \<not> IsRemoteChild stub \<or> tParent stub \<noteq> rsParent op then Inl ErrNotFound
       else if tAttachEpoch stub \<noteq> rsEpoch op then Inl ErrRemoteChildStale
       else bind_sum (setPause E (rsPause op) (the (tRemote stub))) (\<lambda>link1.
            let link2 = link1\<lparr>rlTargetID := opt_or (rsTargetID op) (rlTargetID link1)\<rparr>
            in bind_sum (setLanes (rsLanes op) link2) (\<lambda>link3.
               bind_sum (setSkip (rsSkip op) link3) (\<lambda>link4.
               Inr ((), putTopicRecord (stub\<lparr>tRemote := Some link4\<rparr>) d)))))"

definition applySetRemoteChildState :: "fsmEnv \<Rightarrow> RemoteChildStateOp \<Rightarrow> fsmState \<Rightarrow> unit result \<times> fsmState" where
  "applySetRemoteChildState E op = commit_tx (setRemoteChildStateTx E op) (\<lambda>_. bumpTopic (rsStub op))"

end
