(* ===== verification/Meta_Fsm.thy ===== *)
theory Meta_Fsm
  imports Meta_Cluster Meta_Users Meta_Remotes
begin

text \<open>
  The state machine: the Raft entry types (\<^verbatim>\<open>command.go\<close>), \<^verbatim>\<open>dispatch\<close> and \<^verbatim>\<open>Apply\<close> (\<^verbatim>\<open>fsm.go\<close>), and how it comes
  back after a restart (\<^verbatim>\<open>fsm_applied.go\<close>). An entry is decoded before it is dispatched: \<open>Undecodable\<close> is one
  whose envelope does not parse, \<open>BadBody\<close> one whose body does not, \<open>UnknownType\<close> one of a type outside
  \<^verbatim>\<open>1..MaxEntryType\<close>.
\<close>

datatype command =
    OpCreateTopic Topic
  | OpUpdateTopic Topic
  | OpDeleteTopic string
  | OpPutSchema schemaPayload
  | OpAssignPartition Assignment
  | OpMemberJoin Member
  | OpMemberHeartbeat heartbeatPayload
  | OpMemberDead string
  | OpCreateUser User
  | OpUpdateUser User
  | OpDeleteUser string
  | OpSeedRootUser User
  | OpAttachChild childLinkPayload
  | OpDetachChild childLinkPayload
  | OpSetAssignmentTarget assignmentTargetPayload
  | OpCompleteMove completeMovePayload
  | OpAbortMove abortMovePayload
  | OpSetMemberDraining memberDrainingPayload
  | OpRemoveMember memberRemovalPayload
  | OpReadmitMember memberRemovalPayload
  | OpSetUserPassword userPasswordPayload
  | OpSetUserGrants userGrantsPayload
  | OpCreateTopicWith createTopicWithPayload
  | OpUpdateTopicIf updateTopicIfPayload
  | OpDeleteTopicIf deleteTopicIfPayload
  | OpPutSchemaIf putSchemaIfPayload
  | OpAttachChildIf attachChildIfPayload
  | OpDetachChildIf detachChildIfPayload
  | OpAssignPartitionIfAbsent assignIfAbsentPayload
  | OpPruneAssignment pruneAssignmentPayload
  | OpMarkMemberDeadIf markMemberDeadIfPayload
  | OpDeleteUserReleaseTopics string
  | OpAttachRemoteChild AttachRemoteChildOp
  | OpSetRemoteChildState RemoteChildStateOp
  | OpPutRemote PutRemoteOp
  | OpUpdateRemote UpdateRemoteOp
  | OpDeleteRemote DeleteRemoteOp

fun opCode :: "command \<Rightarrow> nat" where
  "opCode (OpCreateTopic _) = 1"
| "opCode (OpUpdateTopic _) = 2"
| "opCode (OpDeleteTopic _) = 3"
| "opCode (OpPutSchema _) = 4"
| "opCode (OpAssignPartition _) = 5"
| "opCode (OpMemberJoin _) = 6"
| "opCode (OpMemberHeartbeat _) = 7"
| "opCode (OpMemberDead _) = 8"
| "opCode (OpCreateUser _) = 9"
| "opCode (OpUpdateUser _) = 10"
| "opCode (OpDeleteUser _) = 11"
| "opCode (OpSeedRootUser _) = 12"
| "opCode (OpAttachChild _) = 13"
| "opCode (OpDetachChild _) = 14"
| "opCode (OpSetAssignmentTarget _) = 15"
| "opCode (OpCompleteMove _) = 16"
| "opCode (OpAbortMove _) = 17"
| "opCode (OpSetMemberDraining _) = 18"
| "opCode (OpRemoveMember _) = 19"
| "opCode (OpReadmitMember _) = 20"
| "opCode (OpSetUserPassword _) = 21"
| "opCode (OpSetUserGrants _) = 22"
| "opCode (OpCreateTopicWith _) = 23"
| "opCode (OpUpdateTopicIf _) = 24"
| "opCode (OpDeleteTopicIf _) = 25"
| "opCode (OpPutSchemaIf _) = 26"
| "opCode (OpAttachChildIf _) = 27"
| "opCode (OpDetachChildIf _) = 28"
| "opCode (OpAssignPartitionIfAbsent _) = 29"
| "opCode (OpPruneAssignment _) = 30"
| "opCode (OpMarkMemberDeadIf _) = 31"
| "opCode (OpDeleteUserReleaseTopics _) = 32"
| "opCode (OpAttachRemoteChild _) = 33"
| "opCode (OpSetRemoteChildState _) = 34"
| "opCode (OpPutRemote _) = 35"
| "opCode (OpUpdateRemote _) = 36"
| "opCode (OpDeleteRemote _) = 37"

definition MaxEntryType :: nat where "MaxEntryType = 37"

fun dispatch :: "fsmEnv \<Rightarrow> command \<Rightarrow> fsmState \<Rightarrow> unit result \<times> fsmState" where
  "dispatch E (OpCreateTopic p) = applyCreateTopic p"
| "dispatch E (OpUpdateTopic p) = applyUpdateTopic p"
| "dispatch E (OpDeleteTopic p) = applyDeleteTopic p"
| "dispatch E (OpPutSchema p) = applyPutSchema p"
| "dispatch E (OpAssignPartition p) = applyAssignPartition p"
| "dispatch E (OpMemberJoin p) = applyMemberJoin p"
| "dispatch E (OpMemberHeartbeat p) = applyMemberHeartbeat p"
| "dispatch E (OpMemberDead p) = applyMemberDead p"
| "dispatch E (OpCreateUser p) = applyCreateUser p"
| "dispatch E (OpUpdateUser p) = applyUpdateUser p"
| "dispatch E (OpDeleteUser p) = applyDeleteUser p"
| "dispatch E (OpSeedRootUser p) = applySeedRootUser p"
| "dispatch E (OpAttachChild p) = applyAttachChild E p"
| "dispatch E (OpDetachChild p) = applyDetachChild p"
| "dispatch E (OpSetAssignmentTarget p) = applySetAssignmentTarget p"
| "dispatch E (OpCompleteMove p) = applyCompleteMove p"
| "dispatch E (OpAbortMove p) = applyAbortMove p"
| "dispatch E (OpSetMemberDraining p) = applySetMemberDraining p"
| "dispatch E (OpRemoveMember p) = applyRemoveMember p"
| "dispatch E (OpReadmitMember p) = applyReadmitMember p"
| "dispatch E (OpSetUserPassword p) = applySetUserPassword p"
| "dispatch E (OpSetUserGrants p) = applySetUserGrants p"
| "dispatch E (OpCreateTopicWith p) = applyCreateTopicWith E p"
| "dispatch E (OpUpdateTopicIf p) = applyUpdateTopicIf p"
| "dispatch E (OpDeleteTopicIf p) = applyDeleteTopicIf p"
| "dispatch E (OpPutSchemaIf p) = applyPutSchemaIf E p"
| "dispatch E (OpAttachChildIf p) = applyAttachChildIf E p"
| "dispatch E (OpDetachChildIf p) = applyDetachChildIf p"
| "dispatch E (OpAssignPartitionIfAbsent p) = applyAssignPartitionIfAbsent p"
| "dispatch E (OpPruneAssignment p) = applyPruneAssignment p"
| "dispatch E (OpMarkMemberDeadIf p) = applyMarkMemberDeadIf p"
| "dispatch E (OpDeleteUserReleaseTopics p) = applyDeleteUserReleaseTopics p"
| "dispatch E (OpAttachRemoteChild p) = applyAttachRemoteChild p"
| "dispatch E (OpSetRemoteChildState p) = applySetRemoteChildState E p"
| "dispatch E (OpPutRemote p) = applyPutRemote p"
| "dispatch E (OpUpdateRemote p) = applyUpdateRemote E p"
| "dispatch E (OpDeleteRemote p) = applyDeleteRemote p"

datatype entry = Undecodable | UnknownType nat | BadBody nat | Command command

record log_entry =
  leIndex :: nat
  leEntry :: entry

definition recordConsumed :: "nat \<Rightarrow> nat \<Rightarrow> fsmState \<Rightarrow> fsmState" where
  "recordConsumed index entryType f = (if consumeOK (fdisk f) then putFSMMeta index entryType f else f)"

text \<open>The rest of \<^verbatim>\<open>Apply\<close> once \<^verbatim>\<open>dispatch\<close> has answered.\<close>

definition finish_apply :: "nat \<Rightarrow> unit result \<times> fsmState \<Rightarrow> unit result \<times> fsmState" where
  "finish_apply index rf =
     (case rf of (r, f1) \<Rightarrow>
        if halted f1 then (Inl ErrStoppedApplying, f1\<lparr>curIndex := 0, curEntryType := 0, persisted := False\<rparr>)
        else
          let f2 = (case r of Inr _ \<Rightarrow> f1\<lparr>fversion := fversion f1 + 1\<rparr> | Inl _ \<Rightarrow> f1);
              f3 = (if persisted f2 then f2 else recordConsumed index (curEntryType f2) f2)
          in (r, f3\<lparr>applied := index, curIndex := 0, curEntryType := 0, persisted := False\<rparr>))"

definition Apply :: "fsmEnv \<Rightarrow> disk \<Rightarrow> log_entry \<Rightarrow> fsmState \<Rightarrow> unit result \<times> fsmState" where
  "Apply E dk l f0 =
     (if halted f0 then (Inl ErrStoppedApplying, f0)
      else
        let f = f0\<lparr>lastSeen := leIndex l, fdisk := dk\<rparr>
        in if leIndex l \<le> applied f then (Inr (), f)
           else case leEntry l of
                  Undecodable \<Rightarrow> (Inl ErrUndecodable, (recordConsumed (leIndex l) 0 f)\<lparr>applied := leIndex l\<rparr>)
                | UnknownType n \<Rightarrow> stop f
                | BadBody n \<Rightarrow>
                    finish_apply (leIndex l)
                      (Inl ErrUndecodable, f\<lparr>curIndex := leIndex l, curEntryType := n, persisted := False\<rparr>)
                | Command c \<Rightarrow>
                    finish_apply (leIndex l)
                      (dispatch E c (f\<lparr>curIndex := leIndex l, curEntryType := opCode c, persisted := False\<rparr>)))"

text \<open>
  \<^verbatim>\<open>newFSMWith\<close> on a database it trusts: the buckets and the index they record survive, the caches'
  versions start over.
\<close>

definition restart :: "fsmState \<Rightarrow> fsmState" where
  "restart f = f\<lparr>fversion := 0, versions := newMetadataDomainVersions, applied := metaApplied f, lastSeen := 0,
     halted := False, curIndex := 0, curEntryType := 0, persisted := False\<rparr>"

definition newFSM :: fsmState where
  "newFSM = \<lparr>db = emptyBuckets, metaApplied = 0, metaMaxEntryType = 0, fversion = 0,
     versions = newMetadataDomainVersions, applied = 0, lastSeen = 0, halted = False, curIndex = 0,
     curEntryType = 0, persisted = False, fdisk = \<lparr>beginOK = True, commitOK = True, consumeOK = True\<rparr>\<rparr>"

end
