(* ===== verification/Meta_Exec.thy ===== *)
theory Meta_Exec
  imports Meta_Fsm
begin

text \<open>
  The state machine as a pure step on the buckets. \<open>exec\<close> gives the transaction of each entry type with
  the answer and the version bumps that go with a commit; \<open>dispatch\<close> is \<open>exec\<close> run under the disk, and
  \<open>Apply\<close> either leaves the buckets alone or performs exactly one \<open>exec\<close>. Every invariant of the store is
  proved on \<open>exec\<close> and carried to all reachable states here. Then: a refused entry changes nothing, and
  crashes with replays apply every entry exactly once.
\<close>

section \<open>Entries as steps\<close>

type_synonym effect = "err + (unit result \<times> Buckets \<times> (metadataDomainVersions \<Rightarrow> metadataDomainVersions))"

definition eff :: "'a tx \<Rightarrow> ('a \<Rightarrow> metadataDomainVersions \<Rightarrow> metadataDomainVersions) \<Rightarrow> Buckets \<Rightarrow> effect" where
  "eff fn bump d = (case fn d of Inl e \<Rightarrow> Inl e | Inr (x, d') \<Rightarrow> Inr (Inr (), d', bump x))"

definition eff_refusable :: "err option tx \<Rightarrow> (metadataDomainVersions \<Rightarrow> metadataDomainVersions) \<Rightarrow> Buckets \<Rightarrow> effect" where
  "eff_refusable fn bump d =
     (case fn d of
        Inl e \<Rightarrow> Inl e
      | Inr (None, d') \<Rightarrow> Inr (Inr (), d', bump)
      | Inr (Some e, d') \<Rightarrow> Inr (Inl e, d', \<lambda>v. v))"

fun exec :: "fsmEnv \<Rightarrow> command \<Rightarrow> Buckets \<Rightarrow> effect" where
  "exec E (OpCreateTopic p) = eff (createTopicTx p) (\<lambda>_. bumpTopic (tName p))"
| "exec E (OpUpdateTopic p) = eff (updateTopicTx p) (\<lambda>_. bumpTopic (tName p))"
| "exec E (OpDeleteTopic p) = eff (deleteTopicTx p) (retireDeletedTopic p)"
| "exec E (OpPutSchema p) = eff (putSchemaTx p) (bump_schemas (spTopic p))"
| "exec E (OpAssignPartition p) = eff (assignPartitionTx p) (\<lambda>_. bumpAssignment (aTopic p))"
| "exec E (OpMemberJoin p) = eff (memberJoinTx p) bumpRoutingIf"
| "exec E (OpMemberHeartbeat p) = eff (memberHeartbeatTx p) (\<lambda>_ v. v)"
| "exec E (OpMemberDead p) = eff (memberDeadTx p) bumpRoutingIf"
| "exec E (OpCreateUser p) = eff (putNewUserTx (p\<lparr>uRoot := False\<rparr>)) (\<lambda>_. bumpUsers)"
| "exec E (OpUpdateUser p) = eff (updateUserTx p) (\<lambda>_. bumpUsers)"
| "exec E (OpDeleteUser p) = eff (deleteUserRecord p) (\<lambda>_. bumpUsers)"
| "exec E (OpSeedRootUser p) = eff (putNewUserTx (p\<lparr>uRoot := True\<rparr>)) (\<lambda>_. bumpUsers)"
| "exec E (OpAttachChild p) = eff (attachChildTx E p plainRules) (bumpAttached (clParent p) (clChild p))"
| "exec E (OpDetachChild p) = eff (detachTx (clParent p) (clChild p)) (bumpDetached (clParent p) (clChild p))"
| "exec E (OpSetAssignmentTarget p) = eff (setAssignmentTargetTx p) (bumpAssignmentIf (atTopic p))"
| "exec E (OpCompleteMove p) = eff (completeMoveTx p) (bumpAssignmentIf (cmTopic p))"
| "exec E (OpAbortMove p) = eff (abortMoveTx p) (bumpAssignmentIf (amTopic p))"
| "exec E (OpSetMemberDraining p) = eff (setMemberDrainingTx p) (\<lambda>_ v. v)"
| "exec E (OpRemoveMember p) = eff (removeMemberTx p) bumpRoutingIf"
| "exec E (OpReadmitMember p) = eff (readmitMemberTx p) (\<lambda>_ v. v)"
| "exec E (OpSetUserPassword p) = eff (mutateUserTx (upUsername p) (setPassword p)) (\<lambda>_. bumpUsers)"
| "exec E (OpSetUserGrants p) = eff (mutateUserTx (ugUsername p) (setGrants p)) (\<lambda>_. bumpUsers)"
| "exec E (OpCreateTopicWith p) =
     (\<lambda>d. if tName (cwTopic p) = '''' then Inl ErrInvalidArgument else eff (createTopicWithTx E p) (bumpCreated p) d)"
| "exec E (OpUpdateTopicIf p) = eff (updateTopicIfTx p) (\<lambda>_. bumpTopic (tName (uiTopic p)))"
| "exec E (OpDeleteTopicIf p) = eff (deleteTopicIfTx p) (retireDeletedTopic (diName p))"
| "exec E (OpPutSchemaIf p) = eff (putSchemaIfTx E p) (bump_schemas (piTopic p))"
| "exec E (OpAttachChildIf p) = eff (attachChildIfTx E p) (bumpAttached (clParent (aiLink p)) (clChild (aiLink p)))"
| "exec E (OpDetachChildIf p) = eff (detachChildIfTx p) (bumpDetached (dtParent p) (dtChild p))"
| "exec E (OpAssignPartitionIfAbsent p) = eff (assignPartitionIfAbsentTx p) (\<lambda>_. bumpAssignment (iaTopic p))"
| "exec E (OpPruneAssignment p) = eff (pruneAssignmentTx p)
     (\<lambda>topicGone. if topicGone then retireAssignments (paTopic p) else bumpAssignment (paTopic p))"
| "exec E (OpMarkMemberDeadIf p) = eff (markMemberDeadIfTx p) bumpRoutingIf"
| "exec E (OpDeleteUserReleaseTopics p) =
     eff (deleteUserReleaseTopicsTx p) (\<lambda>released v. fold bumpTopic released (bumpUsers v))"
| "exec E (OpAttachRemoteChild p) =
     eff (attachRemoteChildTx p) (\<lambda>_ v. bumpTopic (arStub p) (bumpTopic (arParent p) v))"
| "exec E (OpSetRemoteChildState p) = eff (setRemoteChildStateTx E p) (\<lambda>_. bumpTopic (rsStub p))"
| "exec E (OpPutRemote p) =
     (\<lambda>d. if \<not> remoteNameOK (rName (prRecord p)) \<or> rID (prRecord p) = '''' \<or> \<not> sealedEnvelope (rCredential (prRecord p))
          then Inl ErrInvalidArgument else eff_refusable (putRemoteTx p) bumpRemotes d)"
| "exec E (OpUpdateRemote p) =
     (\<lambda>d. if (case urCredential p of None \<Rightarrow> False | Some c \<Rightarrow> \<not> sealedEnvelope c \<or> urSealedAgainst p = None)
          then Inl ErrInvalidArgument else eff_refusable (updateRemoteTx E p) bumpRemotes d)"
| "exec E (OpDeleteRemote p) = eff_refusable (deleteRemoteTx p) bumpRemotes"

definition commit_effect :: "fsmState \<Rightarrow> Buckets \<Rightarrow> (metadataDomainVersions \<Rightarrow> metadataDomainVersions) \<Rightarrow> fsmState" where
  "commit_effect f d b =
     (putFSMMeta (curIndex f) (curEntryType f) f)\<lparr>db := d, persisted := True, versions := b (versions f)\<rparr>"

text \<open>How a handler can end: it answers an error and changes nothing, it commits, or it stops the node.\<close>

definition ends :: "effect \<Rightarrow> fsmState \<Rightarrow> unit result \<times> fsmState \<Rightarrow> bool" where
  "ends x f out \<longleftrightarrow>
     (\<exists>e. x = Inl e \<and> out = (Inl e, f)) \<or>
     (\<exists>r d b. x = Inr (r, d, b) \<and> out = (r, commit_effect f d b)) \<or>
     (\<not> (beginOK (fdisk f) \<and> commitOK (fdisk f)) \<and> out = (Inl ErrStoppedApplying, f\<lparr>halted := True\<rparr>))"

lemma ends_eff: "ends (eff fn bump (db f)) f (commit_tx fn bump f)"
  by (auto simp: ends_def eff_def commit_tx_def update_def stop_def commit_effect_def putFSMMeta_def
      split: sum.splits prod.splits)

lemma ends_eff_refusable: "ends (eff_refusable fn bump (db f)) f (commit_refusable fn bump f)"
  by (auto simp: ends_def eff_refusable_def commit_refusable_def update_def stop_def commit_effect_def putFSMMeta_def
      split: sum.splits prod.splits option.splits)

lemma ends_error: "ends (Inl e) f (Inl e, f)"
  by (simp add: ends_def)

lemmas handler_defs = applyCreateTopic_def applyUpdateTopic_def applyDeleteTopic_def applyPutSchema_def
  applyAssignPartition_def applyMemberJoin_def applyMemberHeartbeat_def applyMemberDead_def applyCreateUser_def
  applyUpdateUser_def applyDeleteUser_def applySeedRootUser_def putNewUser_def mutateUser_def applyAttachChild_def
  applyDetachChild_def applySetAssignmentTarget_def applyCompleteMove_def applyAbortMove_def
  applySetMemberDraining_def applyRemoveMember_def applyReadmitMember_def applySetUserPassword_def
  applySetUserGrants_def applyCreateTopicWith_def applyUpdateTopicIf_def applyDeleteTopicIf_def
  applyPutSchemaIf_def applyAttachChildIf_def applyDetachChildIf_def applyAssignPartitionIfAbsent_def
  applyPruneAssignment_def applyMarkMemberDeadIf_def applyDeleteUserReleaseTopics_def applyAttachRemoteChild_def
  applySetRemoteChildState_def applyPutRemote_def applyUpdateRemote_def applyDeleteRemote_def

lemma dispatch_ends: "ends (exec E c (db f)) f (dispatch E c f)"
  by (cases c) (simp_all add: handler_defs ends_eff ends_eff_refusable ends_error)

section \<open>What one Apply does\<close>

text \<open>
  \<open>applies E l f f'\<close>: the step of \<open>f\<close> to \<open>f'\<close> performed the entry \<open>l\<close>; \<open>keeps f f'\<close>: it left the buckets and the
  versions alone.
\<close>

definition applies :: "fsmEnv \<Rightarrow> log_entry \<Rightarrow> fsmState \<Rightarrow> unit result \<Rightarrow> fsmState \<Rightarrow> bool" where
  "applies E l f r f' \<longleftrightarrow>
     (\<exists>c b. leEntry l = Command c \<and> exec E c (db f) = Inr (r, db f', b) \<and> versions f' = b (versions f)) \<and>
     applied f < leIndex l \<and> applied f' = leIndex l \<and> metaApplied f' = leIndex l \<and> \<not> halted f' \<and>
     fversion f' = (case r of Inr _ \<Rightarrow> fversion f + 1 | Inl _ \<Rightarrow> fversion f)"

definition keeps :: "fsmState \<Rightarrow> fsmState \<Rightarrow> bool" where
  "keeps f f' \<longleftrightarrow> db f' = db f \<and> versions f' = versions f \<and> fversion f' = fversion f"

lemma keeps_simps [simp]:
  "keeps f (f'\<lparr>curIndex := i\<rparr>) = keeps f f'" "keeps f (f'\<lparr>applied := i\<rparr>) = keeps f f'"
  "keeps f (f'\<lparr>persisted := b\<rparr>) = keeps f f'" "keeps f (f'\<lparr>curEntryType := i\<rparr>) = keeps f f'"
  "keeps f (f'\<lparr>lastSeen := i\<rparr>) = keeps f f'" "keeps f (f'\<lparr>fdisk := x\<rparr>) = keeps f f'"
  "keeps f (f'\<lparr>halted := b\<rparr>) = keeps f f'" "keeps f f"
  by (simp_all add: keeps_def)

lemma recordConsumed_simps [simp]:
  "db (recordConsumed i n f) = db f" "versions (recordConsumed i n f) = versions f"
  "fversion (recordConsumed i n f) = fversion f" "halted (recordConsumed i n f) = halted f"
  "applied (recordConsumed i n f) = applied f"
  by (simp_all add: recordConsumed_def putFSMMeta_def)

lemma recordConsumed_meta:
  "metaApplied (recordConsumed i n f) = (if consumeOK (fdisk f) then i else metaApplied f)"
  by (simp add: recordConsumed_def putFSMMeta_def)

definition refused :: "fsmEnv \<Rightarrow> log_entry \<Rightarrow> fsmState \<Rightarrow> bool" where
  "refused E l f \<longleftrightarrow> (\<forall>c. leEntry l = Command c \<longrightarrow> (\<exists>e. exec E c (db f) = Inl e))"

text \<open>The four ways \<^verbatim>\<open>Apply\<close> can go.\<close>

lemma Apply_cases:
  assumes "Apply E dk l f = (r, f')"
  obtains (skipped) "keeps f f'" "applied f' = applied f" "metaApplied f' = metaApplied f" "halted f' = halted f"
      "halted f \<or> leIndex l \<le> applied f"
  | (consumed) "keeps f f'" "applied f < leIndex l" "applied f' = leIndex l" "\<not> halted f'" "refused E l f"
      "metaApplied f' = metaApplied f \<or> metaApplied f' = leIndex l" "\<exists>e. r = Inl e"
  | (performed) "applies E l f r f'"
  | (stopped) "keeps f f'" "applied f' = applied f" "metaApplied f' = metaApplied f" "halted f'" "\<not> halted f"
      "\<exists>e. r = Inl e" "(\<exists>n. leEntry l = UnknownType n) \<or> \<not> (beginOK dk \<and> commitOK dk)"
proof -
  consider (skip) "halted f \<or> leIndex l \<le> applied f" | (go) "\<not> halted f" "applied f < leIndex l" by linarith
  then show thesis
  proof cases
    case skip
    then have "r = r \<and> (f' = f \<or> f' = f\<lparr>lastSeen := leIndex l, fdisk := dk\<rparr>)"
      using assms by (auto simp: Apply_def Let_def split: if_splits)
    then show thesis using skip by (intro skipped) auto
  next
    case go
    show thesis
    proof (cases "leEntry l")
      case Undecodable
      then show thesis
        using assms go by (intro consumed) (auto simp: Apply_def Let_def refused_def keeps_def recordConsumed_meta)
    next
      case (UnknownType n)
      then show thesis
        using assms go by (intro stopped) (auto simp: Apply_def Let_def stop_def)
    next
      case (BadBody n)
      then show thesis
        using assms go
        by (intro consumed) (auto simp: Apply_def Let_def refused_def keeps_def recordConsumed_meta finish_apply_def)
    next
      case (Command c)
      define g where "g = f\<lparr>lastSeen := leIndex l, fdisk := dk, curIndex := leIndex l, curEntryType := opCode c,
          persisted := False\<rparr>"
      have out: "(r, f') = finish_apply (leIndex l) (dispatch E c g)"
        using assms go Command by (simp add: Apply_def Let_def g_def)
      have gs: "db g = db f" "versions g = versions f" "fversion g = fversion f" "halted g = False"
        "fdisk g = dk" "curIndex g = leIndex l" "persisted g = False" "metaApplied g = metaApplied f"
        using go by (simp_all add: g_def)
      consider (err) e where "exec E c (db f) = Inl e" "dispatch E c g = (Inl e, g)"
        | (com) r1 d b where "exec E c (db f) = Inr (r1, d, b)" "dispatch E c g = (r1, commit_effect g d b)"
        | (st) "\<not> (beginOK dk \<and> commitOK dk)" "dispatch E c g = (Inl ErrStoppedApplying, g\<lparr>halted := True\<rparr>)"
        using dispatch_ends [of E c g] unfolding ends_def gs by blast
      then show thesis
      proof cases
        case err
        then show thesis
          using out go Command gs
          by (intro consumed) (auto simp: finish_apply_def Let_def refused_def keeps_def recordConsumed_meta)
      next
        case com
        then show thesis
          using out go Command gs
          by (intro performed) (auto simp: finish_apply_def Let_def applies_def commit_effect_def putFSMMeta_def
              split: sum.splits)
      next
        case st
        then show thesis
          using out go gs by (intro stopped) (auto simp: finish_apply_def keeps_def g_def)
      qed
    qed
  qed
qed

section \<open>Reachable states\<close>

text \<open>What happens to a node: Raft delivers an entry while the disk behaves in some way, or it restarts.\<close>

datatype event = Deliver disk log_entry | Restart

fun event_step :: "fsmEnv \<Rightarrow> event \<Rightarrow> fsmState \<Rightarrow> fsmState" where
  "event_step E (Deliver dk l) f = snd (Apply E dk l f)"
| "event_step E Restart f = restart f"

definition node_run :: "fsmEnv \<Rightarrow> event list \<Rightarrow> fsmState" where
  "node_run E evs = fold (event_step E) evs newFSM"

definition commands :: "event list \<Rightarrow> command set" where
  "commands evs = {c. \<exists>dk i. Deliver dk \<lparr>leIndex = i, leEntry = Command c\<rparr> \<in> set evs}"

lemma event_step_db:
  obtains (same) "db (event_step E ev f) = db f"
  | (exec) dk l c r b where "ev = Deliver dk l" "leEntry l = Command c"
      "exec E c (db f) = Inr (r, db (event_step E ev f), b)" "versions (event_step E ev f) = b (versions f)"
proof (cases ev)
  case Restart
  then show thesis using same by (simp add: restart_def)
next
  case (Deliver dk l)
  obtain r f' where a: "Apply E dk l f = (r, f')" by (cases "Apply E dk l f")
  show thesis
    using a
  proof (cases rule: Apply_cases)
    case performed
    then show thesis using Deliver a exec by (auto simp: applies_def)
  qed (use a Deliver same in \<open>auto simp: keeps_def\<close>)
qed

lemma node_run_invariant:
  assumes "P emptyBuckets"
    and "\<And>c d r d' b. c \<in> C \<Longrightarrow> P d \<Longrightarrow> exec E c d = Inr (r, d', b) \<Longrightarrow> P d'"
    and "commands evs \<subseteq> C"
  shows "P (db (node_run E evs))"
  using assms(3)
proof (induction evs rule: rev_induct)
  case Nil
  then show ?case using assms(1) by (simp add: node_run_def newFSM_def)
next
  case (snoc ev evs)
  let ?f = "node_run E evs"
  have sub: "commands evs \<subseteq> C" using snoc.prems by (auto simp: commands_def)
  have step: "node_run E (evs @ [ev]) = event_step E ev ?f" by (simp add: node_run_def)
  show ?case
    unfolding step
  proof (cases rule: event_step_db [of E ev ?f])
    case same
    then show "P (db (event_step E ev ?f))" using snoc.IH [OF sub] by simp
  next
    case (exec dk l c r b)
    have "l = \<lparr>leIndex = leIndex l, leEntry = Command c\<rparr>" using exec(2) by simp
    then have "c \<in> C" using snoc.prems exec(1) unfolding commands_def by (metis (mono_tags, lifting) in_set_conv_decomp mem_Collect_eq subsetD)
    then show "P (db (event_step E ev ?f))" using assms(2) [OF _ snoc.IH [OF sub] exec(3)] by blast
  qed
qed

section \<open>A refused entry changes nothing\<close>

lemma eff_refuses [simp]: "eff fn bump d \<noteq> Inr (Inl e, d', b)"
  by (auto simp: eff_def split: sum.splits)

lemma eff_refusable_refuses:
  "eff_refusable fn bump d = Inr (Inl e, d', b) \<Longrightarrow> fn d = Inr (Some e, d') \<and> b = (\<lambda>v. v)"
  by (auto simp: eff_refusable_def split: sum.splits option.splits)

text \<open>
  What a refusal may leave behind. \<open>sealed_key\<close> is the key version an entry's sealed credential was sealed
  under and when; \<open>seal_counted\<close> says that two states differ only in one more seal of that version, whose
  first use is recorded if it had none.
\<close>

definition sealed_key :: "command \<Rightarrow> (string \<times> int) option" where
  "sealed_key c = (case c of
      OpPutRemote p \<Rightarrow> Some (eKV (rCredential (prRecord p)), prSealedAtMs p)
    | OpUpdateRemote p \<Rightarrow> map_option (\<lambda>cr. (eKV cr, urSealedAtMs p)) (urCredential p)
    | _ \<Rightarrow> None)"

definition seal_counted :: "string \<Rightarrow> int \<Rightarrow> Buckets \<Rightarrow> Buckets \<Rightarrow> bool" where
  "seal_counted kv ms d d' \<longleftrightarrow>
     (let v = (case om_get (kVersions (bKeys d)) kv of
                 None \<Rightarrow> \<lparr>kvSeals = 1, kvFirstSealedAtMs = ms\<rparr>
               | Some v \<Rightarrow> \<lparr>kvSeals = kvSeals v + 1, kvFirstSealedAtMs = kvFirstSealedAtMs v\<rparr>)
      in d' = d\<lparr>bKeys := \<lparr>kSalt = kSalt (bKeys d), kVersions = om_put kv v (kVersions (bKeys d))\<rparr>\<rparr>)"

lemma countSeal_counts: "seal_counted kv ms d (d\<lparr>bKeys := snd (countSeal (bKeys d) kv ms)\<rparr>)"
proof -
  have v: "v\<lparr>kvSeals := n\<rparr> = \<lparr>kvSeals = n, kvFirstSealedAtMs = kvFirstSealedAtMs v\<rparr>" for v :: KeyVersion and n
    by (cases v) simp
  have k: "k\<lparr>kVersions := m\<rparr> = \<lparr>kSalt = kSalt k, kVersions = m\<rparr>" for k :: Keys and m
    by (cases k) simp
  show ?thesis by (simp add: seal_counted_def countSeal_def Let_def v k split: option.split)
qed

lemma putRemote_refuses:
  assumes "putRemoteTx p d = Inr (Some e, d')"
  shows "seal_counted (eKV (rCredential (prRecord p))) (prSealedAtMs p) d d'"
  using assms countSeal_counts [of _ _ d]
  by (auto simp: putRemoteTx_def Let_def split: option.splits prod.splits) (metis snd_conv)

lemma updateRemote_refuses:
  assumes "updateRemoteTx E p d = Inr (Some e, d')"
  shows "case urCredential p of None \<Rightarrow> d' = d | Some cr \<Rightarrow> seal_counted (eKV cr) (urSealedAtMs p) d d'"
proof -
  let ?d = "case urCredential p of None \<Rightarrow> d | Some cr \<Rightarrow> d\<lparr>bKeys := snd (countSeal (bKeys d) (eKV cr) (urSealedAtMs p))\<rparr>"
  have "d' = ?d"
    using assms by (auto simp: updateRemoteTx_def Let_def split: option.splits prod.splits sum.splits)
  then show ?thesis using countSeal_counts by (auto split: option.split)
qed

lemma seal_counted_keys: "seal_counted kv ms d d' \<Longrightarrow> d' = d\<lparr>bKeys := bKeys d'\<rparr>"
  by (simp add: seal_counted_def Let_def)

lemma putRemote_refuses_keys: "putRemoteTx p d = Inr (Some e, d') \<Longrightarrow> d' = d\<lparr>bKeys := bKeys d'\<rparr>"
  by (rule seal_counted_keys [OF putRemote_refuses])

lemma updateRemote_refuses_keys:
  assumes "updateRemoteTx E p d = Inr (Some e, d')"
  shows "d' = d\<lparr>bKeys := bKeys d'\<rparr>"
proof (cases "urCredential p")
  case None
  then show ?thesis using updateRemote_refuses [OF assms] by simp
next
  case (Some cr)
  then have "seal_counted (eKV cr) (urSealedAtMs p) d d'" using updateRemote_refuses [OF assms] by simp
  then show ?thesis by (rule seal_counted_keys)
qed

lemma deleteRemote_refuses: "deleteRemoteTx p d = Inr (Some e, d') \<Longrightarrow> d' = d"
  by (auto simp: deleteRemoteTx_def split: sum.splits if_splits)


lemma exec_refuses:
  assumes "exec E c d = Inr (Inl e, d', b)"
  shows "(case sealed_key c of None \<Rightarrow> d' = d | Some (kv, ms) \<Rightarrow> seal_counted kv ms d d') \<and> b = (\<lambda>v. v)"
proof (cases c)
  case (OpPutRemote p)
  then show ?thesis
    using assms by (auto simp: sealed_key_def split: if_splits dest!: eff_refusable_refuses putRemote_refuses)
next
  case (OpUpdateRemote p)
  then show ?thesis
    using assms by (auto simp: sealed_key_def split: if_splits option.splits dest!: eff_refusable_refuses updateRemote_refuses)
next
  case (OpDeleteRemote p)
  then show ?thesis using assms by (auto simp: sealed_key_def dest!: eff_refusable_refuses deleteRemote_refuses)
qed (use assms in \<open>auto simp: sealed_key_def split: if_splits\<close>)

text \<open>
  C10. A refused entry changes nothing: whenever \<^verbatim>\<open>Apply\<close> answers an error, the cache versions and the
  metadata version are exactly what they were, and so is all of the stored metadata, with one exception:
  an entry that carries a sealed credential (a remote's creation, or an update that replaces the
  credential) may have its seal counted, and then the new state is the old one with the seal count of
  that key version one higher. The version's first use is recorded if it had none and kept otherwise;
  the salt, the other key versions and all other buckets stay.
\<close>

theorem refusal_changes_nothing:
  assumes "Apply E dk l f = (Inl e, f')"
  shows "versions f' = versions f \<and> fversion f' = fversion f \<and>
    (db f' = db f \<or>
     (\<exists>c kv ms. leEntry l = Command c \<and> sealed_key c = Some (kv, ms) \<and> seal_counted kv ms (db f) (db f')))"
  using assms
proof (cases rule: Apply_cases)
  case performed
  then obtain c b where c: "leEntry l = Command c" "exec E c (db f) = Inr (Inl e, db f', b)" "versions f' = b (versions f)"
    by (auto simp: applies_def)
  show ?thesis using exec_refuses [OF c(2)] c performed by (auto simp: applies_def split: option.splits)
qed (simp_all add: keeps_def)

text \<open>A concrete environment and disk, for the examples.\<close>

definition exEnv :: fsmEnv where
  "exEnv = \<lparr>envDecode = (\<lambda>_. None), envPrintable = (\<lambda>_. True), envTrustAnchor = (\<lambda>_. None),
     envBudgetTopic = SchemaTopicBudgetBytes, envBudgetCluster = SchemaClusterBudgetBytes\<rparr>"

definition exDisk :: disk where "exDisk = \<lparr>beginOK = True, commitOK = True, consumeOK = False\<rparr>"

theorem refusal_changes_nothing_witness:
  "db (snd (Apply exEnv exDisk \<lparr>leIndex = 1, leEntry = Command (OpDeleteTopic ''orders'')\<rparr>
      newFSM)) = emptyBuckets"
proof -
  let ?l = "\<lparr>leIndex = 1, leEntry = Command (OpDeleteTopic ''orders'')\<rparr>"
  obtain r f' where a: "Apply exEnv exDisk ?l newFSM = (r, f')" by fastforce
  have "\<exists>e. r = Inl e"
    using a by (cases rule: Apply_cases)
      (auto simp: applies_def eff_def deleteTopicTx_def newFSM_def emptyBuckets_def)
  then obtain e where "Apply exEnv exDisk ?l newFSM = (Inl e, f')" using a by blast
  from refusal_changes_nothing [OF this] show ?thesis
    using a by (simp add: sealed_key_def newFSM_def)
qed

section \<open>Every entry exactly once\<close>

text \<open>
  The effect of a log on the buckets, with no disk, no crash and no replay: what each replica should
  hold. A round of a node's life delivers a prefix of the log with some behaviour of the disk and ends
  in a restart.
\<close>

definition pure_step :: "fsmEnv \<Rightarrow> log_entry \<Rightarrow> Buckets \<Rightarrow> Buckets" where
  "pure_step E l d =
     (case leEntry l of
        Command c \<Rightarrow> (case exec E c d of Inl e \<Rightarrow> d | Inr (r, d', b) \<Rightarrow> d')
      | _ \<Rightarrow> d)"

definition pure_log :: "fsmEnv \<Rightarrow> log_entry list \<Rightarrow> Buckets" where
  "pure_log E es = fold (pure_step E) es emptyBuckets"

fun deliver :: "fsmEnv \<Rightarrow> disk list \<Rightarrow> log_entry list \<Rightarrow> fsmState \<Rightarrow> fsmState" where
  "deliver E (dk # dks) (l # ls) f = deliver E dks ls (snd (Apply E dk l f))"
| "deliver E _ _ f = f"

definition life :: "fsmEnv \<Rightarrow> log_entry list \<Rightarrow> disk list list \<Rightarrow> fsmState" where
  "life E es rounds = fold (\<lambda>dks f. restart (deliver E dks es f)) rounds newFSM"

definition log_ok :: "log_entry list \<Rightarrow> bool" where
  "log_ok es \<longleftrightarrow> sorted_wrt (<) (map leIndex es) \<and> (\<forall>l \<in> set es. 0 < leIndex l \<and> (\<forall>n. leEntry l \<noteq> UnknownType n))"

definition log_upto :: "log_entry list \<Rightarrow> nat \<Rightarrow> log_entry list" where
  "log_upto es n = filter (\<lambda>l. leIndex l \<le> n) es"

text \<open>The buckets hold the log up to the index the node, and up to the one the database, claims.\<close>

definition synced :: "fsmEnv \<Rightarrow> log_entry list \<Rightarrow> fsmState \<Rightarrow> bool" where
  "synced E es f \<longleftrightarrow> metaApplied f \<le> applied f \<and>
     db f = pure_log E (log_upto es (applied f)) \<and> db f = pure_log E (log_upto es (metaApplied f))"

lemma synced_restart: "synced E es f \<Longrightarrow> synced E es (restart f)"
  by (auto simp: synced_def restart_def)

lemma synced_new:
  assumes "log_ok es"
  shows "synced E es newFSM"
proof -
  have "log_upto es 0 = []" using assms by (auto simp: log_upto_def log_ok_def filter_empty_conv)
  then show ?thesis by (simp add: synced_def newFSM_def pure_log_def)
qed

lemma log_upto_next:
  assumes "log_ok (pre @ l # post)" and "\<forall>x \<in> set pre. leIndex x \<le> n" and "n < leIndex l"
  shows "log_upto (pre @ l # post) (leIndex l) = log_upto (pre @ l # post) n @ [l]"
proof -
  have lt: "leIndex x < leIndex l" if "x \<in> set pre" for x
    using assms(1) that by (auto simp: log_ok_def sorted_wrt_append)
  have gt: "leIndex l < leIndex x" if "x \<in> set post" for x
    using assms(1) that by (auto simp: log_ok_def sorted_wrt_append)
  have "filter (\<lambda>x. leIndex x \<le> leIndex l) post = []" "filter (\<lambda>x. leIndex x \<le> n) post = []"
    unfolding filter_empty_conv not_le using gt assms(3) by (blast intro: less_trans)+
  moreover have "filter (\<lambda>x. leIndex x \<le> leIndex l) pre = pre" "filter (\<lambda>x. leIndex x \<le> n) pre = pre"
    unfolding filter_id_conv using lt assms(2) less_imp_le by blast+
  ultimately show ?thesis using assms(3) by (simp add: log_upto_def)
qed

lemma pure_log_snoc: "pure_log E (es @ [l]) = pure_step E l (pure_log E es)"
  by (simp add: pure_log_def)

lemma synced_Apply:
  assumes "log_ok (pre @ l # post)" and "synced E (pre @ l # post) f"
    and "\<not> halted f \<longrightarrow> (\<forall>x \<in> set pre. leIndex x \<le> applied f)"
    and "Apply E dk l f = (r, f')"
  shows "synced E (pre @ l # post) f' \<and> (\<not> halted f' \<longrightarrow> \<not> halted f \<and> leIndex l \<le> applied f' \<and> applied f \<le> applied f')"
  using assms(4)
proof (cases rule: Apply_cases)
  case skipped
  then show ?thesis using assms(2) by (auto simp: synced_def keeps_def)
next
  case stopped
  then show ?thesis using assms(2) by (auto simp: synced_def keeps_def)
next
  case consumed
  have nh: "\<not> halted f"
    using assms(4) consumed(2,3,4) by (auto simp: Apply_def split: if_splits)
  have nx: "log_upto (pre @ l # post) (leIndex l) = log_upto (pre @ l # post) (applied f) @ [l]"
    using log_upto_next [OF assms(1) _ consumed(2)] assms(3) nh by blast
  have "pure_step E l (db f) = db f"
    using consumed(5) by (auto simp: pure_step_def refused_def split: entry.splits)
  then have "db f' = pure_log E (log_upto (pre @ l # post) (leIndex l))"
    using consumed(1) assms(2) unfolding nx pure_log_snoc by (simp add: synced_def keeps_def)
  then show ?thesis
    using consumed nh assms(2) by (auto simp: synced_def keeps_def)
next
  case performed
  have nh: "\<not> halted f"
    using assms(4) performed by (auto simp: Apply_def applies_def split: if_splits)
  have lt: "applied f < leIndex l" using performed by (simp add: applies_def)
  have nx: "log_upto (pre @ l # post) (leIndex l) = log_upto (pre @ l # post) (applied f) @ [l]"
    using log_upto_next [OF assms(1) _ lt] assms(3) nh by blast
  have "db f' = pure_step E l (db f)" using performed by (auto simp: applies_def pure_step_def)
  then have "db f' = pure_log E (log_upto (pre @ l # post) (leIndex l))"
    using assms(2) unfolding nx pure_log_snoc by (simp add: synced_def)
  then show ?thesis using performed nh by (auto simp: synced_def applies_def)
qed

lemma synced_deliver:
  assumes "log_ok (pre @ ls)" and "synced E (pre @ ls) f"
    and "\<not> halted f \<longrightarrow> (\<forall>x \<in> set pre. leIndex x \<le> applied f)"
  shows "synced E (pre @ ls) (deliver E dks ls f)"
  using assms
proof (induction E dks ls f arbitrary: pre rule: deliver.induct)
  case (1 E dk dks l ls f)
  obtain r f' where a: "Apply E dk l f = (r, f')" by fastforce
  note s = synced_Apply [OF 1(2,3,4) a]
  have "\<not> halted f' \<longrightarrow> (\<forall>x \<in> set (pre @ [l]). leIndex x \<le> applied f')"
    using s 1(4) by (auto intro: order_trans)
  then show ?case using 1(1) [of "pre @ [l]"] 1(2) s by (simp add: a)
qed simp_all

lemma synced_life:
  assumes "log_ok es"
  shows "synced E es (life E es rounds) \<and> \<not> halted (life E es rounds)"
proof (induction rounds rule: rev_induct)
  case Nil
  then show ?case using synced_new [OF assms] by (simp add: life_def newFSM_def)
next
  case (snoc dks rounds)
  have "synced E es (deliver E dks es (life E es rounds))"
    using synced_deliver [of "[]" es E "life E es rounds" dks] assms snoc by simp
  then show ?case using synced_restart by (simp add: life_def) (simp add: restart_def)
qed

lemma good_deliver:
  assumes "log_ok (pre @ ls)" and "synced E (pre @ ls) f" and "\<not> halted f"
    and "\<forall>x \<in> set pre. leIndex x \<le> applied f"
    and "length dks = length ls" and "\<forall>dk \<in> set dks. beginOK dk \<and> commitOK dk"
  shows "\<not> halted (deliver E dks ls f) \<and> (\<forall>x \<in> set (pre @ ls). leIndex x \<le> applied (deliver E dks ls f))"
  using assms
proof (induction E dks ls f arbitrary: pre rule: deliver.induct)
  case (1 E dk dks l ls f)
  obtain r f' where a: "Apply E dk l f = (r, f')" by fastforce
  have nh: "\<not> halted f'"
    using a
  proof (cases rule: Apply_cases)
    case stopped
    then show ?thesis using 1(2,7) by (auto simp: log_ok_def)
  qed (use 1(4) in \<open>auto simp: applies_def\<close>)
  note s = synced_Apply [OF 1(2,3) _ a]
  have "\<forall>x \<in> set (pre @ [l]). leIndex x \<le> applied f'"
    using s nh 1(4,5) by (auto intro: order_trans)
  moreover have "synced E ((pre @ [l]) @ ls) f'" using s 1(4,5) by simp
  moreover have "log_ok ((pre @ [l]) @ ls)" "length dks = length ls" "\<forall>dk \<in> set dks. beginOK dk \<and> commitOK dk"
    using 1(2,6,7) by simp_all
  ultimately have "\<not> halted (deliver E dks ls f') \<and>
      (\<forall>x \<in> set ((pre @ [l]) @ ls). leIndex x \<le> applied (deliver E dks ls f'))"
    using 1(1) [of "pre @ [l]"] nh unfolding a snd_conv by blast
  then show ?case by (simp add: a)
qed simp_all

text \<open>
  C2. Every entry exactly once: take any log of known entry types, let a node live through any number of
  rounds, each delivering any prefix of the log from the start while the disk fails, stalls or commits
  as it likes and each ending in a crash and restart; once the whole log is then delivered with a
  working disk, the node has not stopped and its database is exactly the effect of each entry once, in
  log order.
\<close>

theorem replay_exactly_once:
  assumes "log_ok es" and "length dks = length es" and "\<forall>dk \<in> set dks. beginOK dk \<and> commitOK dk"
  shows "db (deliver E dks es (life E es rounds)) = pure_log E es \<and> \<not> halted (deliver E dks es (life E es rounds))"
proof -
  let ?f = "life E es rounds" let ?g = "deliver E dks es ?f"
  have s: "synced E es ?f" "\<not> halted ?f" using synced_life [OF assms(1)] by blast+
  have g: "\<not> halted ?g" "\<forall>x \<in> set es. leIndex x \<le> applied ?g"
    using good_deliver [of "[]" es E ?f dks] assms s by auto
  have "synced E es ?g" using synced_deliver [of "[]" es E ?f dks] assms(1) s by simp
  moreover have "log_upto es (applied ?g) = es" using g(2) by (simp add: log_upto_def filter_id_conv)
  ultimately show ?thesis using g(1) by (simp add: synced_def)
qed

definition exLog :: "log_entry list" where
  "exLog = [\<lparr>leIndex = 1, leEntry = Command (OpReadmitMember \<lparr>mrID = ''a'', mrAt = 1\<rparr>)\<rparr>,
            \<lparr>leIndex = 2, leEntry = Command (OpRemoveMember \<lparr>mrID = ''b'', mrAt = 2\<rparr>)\<rparr>]"

theorem replay_exactly_once_witness:
  "db (deliver exEnv [exDisk, exDisk] exLog (life exEnv exLog [[exDisk], [exDisk, exDisk]])) = pure_log exEnv exLog"
  using replay_exactly_once [of exLog "[exDisk, exDisk]" exEnv "[[exDisk], [exDisk, exDisk]]"]
  by (simp add: log_ok_def exLog_def exDisk_def)

end
