(* ===== verification/Meta_Links.thy ===== *)
theory Meta_Links
  imports Fanout_Graph Meta_Exec
begin

text \<open>
  The fan-out invariant of the metastore: every entry keeps it, so every state a node can reach has it.
  The only thing asked of the proposers is that a created topic carries a name and no link of its own.
\<close>

definition tmap :: "Buckets \<Rightarrow> topics" where
  "tmap d = om_get (bTopics d)"

definition links_ok :: "Buckets \<Rightarrow> bool" where
  "links_ok d \<longleftrightarrow> om_wf (bTopics d) \<and> fan_ok (tmap d)"

lemma links_ok_empty [simp]: "links_ok emptyBuckets"
  by (simp add: links_ok_def tmap_def emptyBuckets_def fan_ok_def target_of_def)

lemma tmap_put: "tmap (putTopicRecord t d) = (tmap d)(tName t \<mapsto> t)"
  by (auto simp: tmap_def putTopicRecord_def)

lemma wf_put: "om_wf (bTopics d) \<Longrightarrow> om_wf (bTopics (putTopicRecord t d))"
  by (simp add: putTopicRecord_def)

lemma tmap_delete: "tmap (deleteTopicRecords n d) = (tmap d)(n := None)"
  by (auto simp: tmap_def deleteTopicRecords_def)

lemma wf_delete: "om_wf (bTopics d) \<Longrightarrow> om_wf (bTopics (deleteTopicRecords n d))"
  by (simp add: deleteTopicRecords_def)

lemma links_ok_put:
  assumes "links_ok d" and "fan_ok ((tmap d)(tName t \<mapsto> t))"
  shows "links_ok (putTopicRecord t d)"
  using assms by (simp add: links_ok_def tmap_put wf_put)

lemma links_ok_same: "links_ok d \<Longrightarrow> bTopics d' = bTopics d \<Longrightarrow> links_ok d'"
  by (simp add: links_ok_def tmap_def)

lemma links_okD:
  assumes "links_ok d"
  shows "fan_ok (tmap d)" "om_wf (bTopics d)"
  using assms by (simp_all add: links_ok_def)

lemma getTopic_tmap: "getTopicRecord d n = Inr t \<longleftrightarrow> tmap d n = Some t"
  by (simp add: tmap_def)

section \<open>Create and config updates\<close>

lemma links_createTopic:
  assumes "links_ok d" and "createTopicTx t d = Inr (x, d')" and "fresh_topic t"
  shows "links_ok d'"
proof -
  have "tmap d (tName t) = None" "d' = putTopicRecord t d"
    using assms(2) by (auto simp: createTopicTx_def tmap_def om_mem_def split: if_splits)
  then show ?thesis using links_ok_put [OF assms(1)] fan_ok_new [OF links_okD(1) [OF assms(1)] _ assms(3)] by simp
qed

lemma checkDelay_Inr: "checkDelayAgainstRetention delay ret = Inr u \<longleftrightarrow> delay_fits delay ret"
  by (auto simp: checkDelayAgainstRetention_def delay_fits_def)

lemma checkRemoteSource_Inr: "checkRemoteSourceRetention ret = Inr u \<longleftrightarrow> floor_ok ret"
  by (auto simp: checkRemoteSourceRetention_def floor_ok_def)

lemma check_child_delays_Inr:
  "check_child_delays d ret cs h = Inr h' \<Longrightarrow>
   (\<forall>c \<in> set cs. \<forall>ct. tmap d c = Some ct \<longrightarrow> delay_fits (tFanoutDelayMs ct) ret \<and> (IsRemoteChild ct \<longrightarrow> h')) \<and> (h \<longrightarrow> h')"
  by (induction d ret cs h rule: check_child_delays.induct)
    (auto simp: bind_sum_Inr checkDelay_Inr tmap_def split: option.splits)

lemma floor_not_shrunk: "floor_ok cur \<Longrightarrow> \<not> retentionShrinks cur next \<Longrightarrow> floor_ok next"
  by (auto simp: floor_ok_def retentionShrinks_def split: if_splits)

lemma checkConfigUpdate_edges:
  assumes "links_ok d" and "tmap d n = Some t" and "checkConfigUpdate d t t' = Inr u" and "same_link t t'"
    and "c \<in> set (tChildren t)" and "tmap d c = Some ct"
  shows "edge_ok t' ct"
proof -
  have ch: "tChildren t' = tChildren t" using assms(4) by (simp add: same_link_def)
  have par: "IsParent t'"
    using fan_ok_node [OF links_okD(1) [OF assms(1)] assms(2)] assms(5) same_link_roles(2) [OF assms(4)]
    by (auto simp: node_ok_def)
  obtain h where h: "check_child_delays d (tRetentionMs t') (tChildren t) False = Inr h"
    and f: "h \<and> retentionShrinks (tRetentionMs t) (tRetentionMs t') \<Longrightarrow> floor_ok (tRetentionMs t')"
    using assms(3) par ch
    by (auto simp: checkConfigUpdate_def bind_sum_Inr checkRemoteSource_Inr split: if_splits)
  have "edge_ok t ct"
    using childE [OF links_okD(1) [OF assms(1)] assms(2,5)] assms(6) by auto
  then show ?thesis
    using check_child_delays_Inr [OF h] assms(5,6) f floor_not_shrunk by (auto simp: edge_ok_def)
qed

lemma links_rewrite:
  assumes "links_ok d" and "tmap d n = Some t" and "checkConfigUpdate d t t' = Inr u"
    and "same_link t t'" and "tRemote t' = tRemote t" and "tAttachEpoch t' = tAttachEpoch t"
    and "tAttachOffsets t' = tAttachOffsets t"
  shows "links_ok (putTopicRecord t' d)"
proof (rule links_ok_put [OF assms(1)])
  note fan = links_okD(1) [OF assms(1)]
  have lf: "link_fields_ok t" and nm: "tName t' = n"
    using fan_ok_node [OF fan assms(2)] assms(4) by (auto simp: node_ok_def same_link_def)
  have "link_fields_ok t'"
  proof (cases "IsRemoteChild t")
    case True
    then have "t' = t" using assms(3) by (auto simp: checkConfigUpdate_def split: if_splits)
    then show ?thesis using lf by simp
  next
    case False
    then have "tRemote t = None" using lf by (auto simp: link_fields_ok_def IsRemoteChild_def)
    then show ?thesis
      using lf assms(4-7) same_link_roles(1) [OF assms(4)] by (auto simp: link_fields_ok_def same_link_def)
  qed
  then show "fan_ok ((tmap d)(tName t' \<mapsto> t'))"
    unfolding nm using checkConfigUpdate_edges [OF assms(1-4)] by (intro fan_ok_rewrite [OF fan assms(2,4)])
qed

lemma same_link_keep: "tName t = tName current \<Longrightarrow> same_link current (keep_link current t)"
  by (simp add: same_link_def keep_link_def)

lemma links_updateTopic:
  assumes "links_ok d" and "updateTopicTx t d = Inr (x, d')"
  shows "links_ok d'"
proof -
  obtain cur u where c: "tmap d (tName t) = Some cur" "checkConfigUpdate d cur (keep_link cur t) = Inr u"
    "d' = putTopicRecord (keep_link cur t) d"
    using assms(2) by (auto simp: updateTopicTx_def bind_sum_Inr tmap_def Let_def)
  have "tName t = tName cur" using fan_ok_node [OF links_okD(1) [OF assms(1)] c(1)] by (simp add: node_ok_def)
  then show ?thesis
    unfolding c(3) by (intro links_rewrite [OF assms(1) c(1,2)]) (simp_all add: same_link_keep, simp_all add: keep_link_def)
qed

lemma links_updateTopicIf:
  assumes "links_ok d" and "updateTopicIfTx p d = Inr (x, d')"
  shows "links_ok d'"
proof -
  obtain cur u t' where c: "tmap d (tName (uiTopic p)) = Some cur" "checkConfigUpdate d cur t' = Inr u"
    "d' = putTopicRecord t' d" and t': "t' = (keep_link cur (uiTopic p))\<lparr>tOwner := tOwner cur, tCreatedAt := tCreatedAt cur,
        tVisibilityTimeoutMs := tVisibilityTimeoutMs cur\<rparr>"
    using assms(2) by (auto simp: updateTopicIfTx_def bind_sum_Inr tmap_def Let_def split: if_splits)
  have "tName (uiTopic p) = tName cur"
    using fan_ok_node [OF links_okD(1) [OF assms(1)] c(1)] by (simp add: node_ok_def)
  then have "same_link cur t'" by (simp add: t' same_link_def keep_link_def)
  then show ?thesis
    unfolding c(3) by (intro links_rewrite [OF assms(1) c(1,2)]) (simp_all add: t' keep_link_def)
qed

section \<open>Attach and detach\<close>

lemma putSchema_topics [simp]: "bTopics (putSchema n v s d) = bTopics d"
  by (simp add: putSchema_def)

lemma fold_putSchema_topics [simp]: "bTopics (fold (\<lambda>c. putSchema (f c) (g c) (h c)) cs d) = bTopics d"
  by (induction cs arbitrary: d) simp_all

lemma reconcile_topics: "reconcileSchemasForAttach E p c rules d = Inr (a, d') \<Longrightarrow> bTopics d' = bTopics d"
  by (auto simp: reconcileSchemasForAttach_def Let_def bind_sum_Inr split: if_splits)

lemma attachE:
  assumes "attachChildTx E p rules d = Inr (a, d')"
  obtains pt ct d1 where "clParent p \<noteq> clChild p" "tmap d (clParent p) = Some pt" "tmap d (clChild p) = Some ct"
    "\<not> IsChild pt" "\<not> IsParent ct" "\<not> IsChild ct" "length (tChildren pt) < MaxChildrenPerParent"
    "0 \<le> clDelayMs p" "clDelayMs p \<le> MaxFanoutDelayMs" "delay_fits (clDelayMs p) (tRetentionMs pt)"
    "reconcileSchemasForAttach E (clParent p) (clChild p) rules d = Inr (a, d1)"
    "d' = putTopicRecord (ct\<lparr>tRole := RoleChild, tParent := clParent p, tAttachEpoch := clEpoch p,
        tFanoutDelayMs := clDelayMs p, tAttachOffsets := clOffsets p\<rparr>) (putTopicRecord (with_child (clChild p) pt) d1)"
  using assms
  by (auto simp: attachChildTx_def bind_sum_Inr tmap_def checkDelay_Inr Let_def with_child_def not_le
      split: if_splits)

lemma links_attach:
  assumes "links_ok d" and "attachChildTx E p rules d = Inr (a, d')"
  shows "links_ok d'"
  using assms(2)
proof (cases rule: attachE)
  case (1 pt ct d1)
  let ?c = "ct\<lparr>tRole := RoleChild, tParent := clParent p, tAttachEpoch := clEpoch p,
        tFanoutDelayMs := clDelayMs p, tAttachOffsets := clOffsets p\<rparr>"
  note fan = links_okD(1) [OF assms(1)]
  have n: "node_ok (clParent p) pt" "node_ok (clChild p) ct" using fan_ok_node [OF fan] 1(2,3) by blast+
  then have nm: "tName (with_child (clChild p) pt) = clParent p" "tName ?c = clChild p"
    by (simp_all add: node_ok_def with_child_def)
  have rem: "tRemote ct = None" using n(2) 1(6) by (auto simp: node_ok_def link_fields_ok_def)
  then have nr: "\<not> IsRemoteChild ?c" by (simp add: IsRemoteChild_def)
  have "node_ok (clChild p) ?c"
    using n(2) 1(5,6,8,9) rem by (auto simp: node_ok_def link_fields_ok_def role_defs)
  then have "fan_ok ((tmap d)(clParent p \<mapsto> with_child (clChild p) pt, clChild p \<mapsto> ?c))"
    using 1 nr by (intro fan_ok_attach [OF fan]) (auto simp: unlinked_def IsChild_role edge_ok_def)
  moreover have "tmap d' = (tmap d)(clParent p \<mapsto> with_child (clChild p) pt, clChild p \<mapsto> ?c)"
    using reconcile_topics [OF 1(11)] nm by (simp only: 1(12) tmap_put) (simp add: tmap_def)
  ultimately show ?thesis
    using links_okD(2) [OF assms(1)] reconcile_topics [OF 1(11)] unfolding links_ok_def
    by (simp add: 1(12) wf_put)
qed

lemma links_detach:
  assumes "links_ok d" and "detachTx p c d = Inr (s, d')"
  shows "links_ok d'"
proof -
  note fan = links_okD(1) [OF assms(1)]
  obtain pt ct where t: "tmap d p = Some pt" "tmap d c = Some ct" and ch: "IsChild ct" "tParent ct = p"
    and d': "d' = (if IsRemoteChild ct then deleteTopicRecords c (putTopicRecord (unlinkChild c pt) d)
      else putTopicRecord (standalone ct) (putTopicRecord (unlinkChild c pt) d))"
    using assms(2) by (auto simp: detachTx_def detachChildTx_def bind_sum_Inr tmap_def Let_def split: if_splits)
  have nm: "tName (unlinkChild c pt) = p" "tName (standalone ct) = c"
    using fan_ok_node [OF fan] t by (simp_all add: node_ok_def unlinkChild_simps standalone_def)
  have "tmap d' = ((tmap d)(p \<mapsto> unlinkChild c pt))(c := freed ct)"
    by (simp add: d' tmap_put tmap_delete nm freed_def)
  moreover have "fan_ok (((tmap d)(p \<mapsto> unlinkChild c pt))(c := freed ct))"
    using fan_ok_detach [OF fan t ch] by blast
  ultimately show ?thesis
    using links_okD(2) [OF assms(1)] by (simp add: links_ok_def d' wf_put wf_delete)
qed

section \<open>Delete\<close>

lemma dissolve_children_tmap:
  assumes "distinct cs" and "\<forall>c \<in> set cs. \<exists>ct. tmap d c = Some ct \<and> tName ct = c \<and> tParent ct = name"
    and "dissolve_children name cs (ls, ss, d) = (ls', ss', d')"
  shows "tmap d' = (\<lambda>x. if x \<in> set cs then (case tmap d x of None \<Rightarrow> None | Some ct \<Rightarrow> freed ct) else tmap d x)"
  using assms
proof (induction cs arbitrary: ls ss d)
  case (Cons c cs)
  obtain ct where ct: "tmap d c = Some ct" "tName ct = c" "tParent ct = name" using Cons.prems(2) by auto
  define d1 where "d1 = (if IsRemoteChild ct then deleteTopicRecords c d else putTopicRecord (standalone ct) d)"
  have t1: "tmap d1 = (tmap d)(c := freed ct)"
    using ct(2) by (simp add: d1_def tmap_delete tmap_put freed_def standalone_def)
  have step: "\<exists>ls1 ss1. dissolve_children name cs (ls1, ss1, d1) = (ls', ss', d')"
    using Cons.prems(3) ct by (auto simp: d1_def tmap_def split: if_splits)
  have rest: "\<forall>x \<in> set cs. \<exists>xt. tmap d1 x = Some xt \<and> tName xt = x \<and> tParent xt = name"
    using Cons.prems(1,2) by (auto simp: t1)
  show ?case
    using step Cons.IH [OF _ rest] Cons.prems(1) ct(1) by (auto simp: t1 fun_eq_iff)
qed simp

lemma dissolve_children_wf:
  "dissolve_children name cs (ls, ss, d) = (ls', ss', d') \<Longrightarrow> om_wf (bTopics d) \<Longrightarrow> om_wf (bTopics d')"
  by (induction cs arbitrary: ls ss d) (auto simp: wf_put wf_delete split: option.splits if_splits)

lemma deleteE:
  assumes "links_ok d" and "deleteTopicTx n d = Inr (ls, d')"
  obtains (top) t where "tmap d n = Some t" "\<not> IsChild t" "tmap d' = dissolved (tmap d) n t" "om_wf (bTopics d')"
  | (child) t pt where "tmap d n = Some t" "IsChild t" "tmap d (tParent t) = Some pt"
      "tmap d' = ((tmap d)(tParent t \<mapsto> unlinkChild n pt))(n := None)" "om_wf (bTopics d')"
proof -
  note fan = links_okD(1) [OF assms(1)] and wf = links_okD(2) [OF assms(1)]
  obtain d1 where dis: "dissolveFanoutLinks n d = Inr (ls, d1)" and d': "d' = deleteTopicRecords n d1"
    using assms(2) by (auto simp: deleteTopicTx_def bind_sum_Inr split: if_splits)
  obtain t where t: "tmap d n = Some t" using dis by (auto simp: dissolveFanoutLinks_def bind_sum_Inr tmap_def)
  show thesis
  proof (cases "IsChild t")
    case False
    note nt = fan_ok_node [OF fan t]
    obtain ls' ss' where ds: "dissolve_children n (tChildren t) ([], [], d) = (ls', ss', d1)"
      using dis t False nt
      by (cases "dissolve_children n (tChildren t) ([], [], d)")
        (auto simp: dissolveFanoutLinks_def bind_sum_Inr tmap_def node_ok_def split: if_splits)
    have kids: "\<forall>c \<in> set (tChildren t). \<exists>ct. tmap d c = Some ct \<and> tName ct = c \<and> tParent ct = n"
    proof
      fix c assume "c \<in> set (tChildren t)"
      then obtain ct where ct: "tmap d c = Some ct" "tParent ct = n" using childE [OF fan t] by metis
      then show "\<exists>ct. tmap d c = Some ct \<and> tName ct = c \<and> tParent ct = n" using fan_ok_node [OF fan ct(1)] by (auto simp: node_ok_def)
    qed
    have "tmap d' = dissolved (tmap d) n t"
      using dissolve_children_tmap [OF node_okD(4) [OF nt] kids ds] by (auto simp: d' tmap_delete dissolved_def fun_eq_iff)
    then show thesis
      using t False dissolve_children_wf [OF ds wf] by (intro top) (simp_all add: d' wf_delete)
  next
    case True
    obtain pt where pt: "tmap d (tParent t) = Some pt" "n \<in> set (tChildren pt)" by (rule parentE [OF fan t True])
    have np: "\<not> IsParent t" using True role_excl by blast
    have ne: "tParent t \<noteq> ''''" and nm: "tName pt = tParent t"
      using fan_ok_node [OF fan pt(1)] by (auto simp: node_ok_def)
    have d1: "d1 = putTopicRecord (unlinkChild n pt) d"
      using dis t True np ne pt(1) by (auto simp: dissolveFanoutLinks_def bind_sum_Inr tmap_def)
    show thesis
      using t True pt(1) wf nm
      by (intro child) (simp_all add: d' d1 tmap_delete tmap_put wf_put wf_delete unlinkChild_simps)
  qed
qed

lemma links_delete:
  assumes "links_ok d" and "deleteTopicTx n d = Inr (ls, d')"
  shows "links_ok d'"
  using assms
proof (cases rule: deleteE)
  case (top t)
  then show ?thesis using fan_ok_dissolve [OF links_okD(1) [OF assms(1)] top(1,2)] by (simp add: links_ok_def)
next
  case (child t pt)
  then show ?thesis
    using fan_ok_detach [OF links_okD(1) [OF assms(1)] child(3,1,2) refl] by (simp add: links_ok_def)
qed

section \<open>Create in one entry\<close>

lemma createWithE:
  assumes "createTopicWithTx E p d = Inr (out, d')"
  obtains (plain) "tmap d (tName (cwTopic p)) = None" "cwLink p = None"
      "bTopics d' = bTopics (putTopicRecord (cwTopic p) d)"
  | (linked) link d3 a where "tmap d (tName (cwTopic p)) = None" "cwLink p = Some link"
      "bTopics d3 = bTopics (putTopicRecord (cwTopic p) d)"
      "attachChildTx E \<lparr>clParent = lkParent link, clChild = tName (cwTopic p), clEpoch = lkEpoch link,
         clDelayMs = lkDelayMs link, clOffsets = lkOffsets link\<rparr> strictRules d3 = Inr (a, d')"
      "\<exists>parent. tmap d3 (lkParent link) = Some parent \<and> tID parent = lkParentID link"
proof -
  have new: "tmap d (tName (cwTopic p)) = None"
    using assms by (auto simp: createTopicWithTx_def Let_def tmap_def om_mem_def split: if_splits)
  show thesis
  proof (cases "cwLink p")
    case None
    then show thesis
      using assms new
      by (intro plain) (auto simp: createTopicWithTx_def Let_def bind_sum_Inr deletePrefix_def split: if_splits)
  next
    case (Some link)
    define d1 where "d1 = putTopicRecord (cwTopic p) d"
    define d2 where "d2 = d1\<lparr>bAssignments := om_filter (\<lambda>k. fst k \<noteq> tName (cwTopic p)) (bAssignments d1),
      bSchemas := om_filter (\<lambda>k. fst k \<noteq> tName (cwTopic p)) (bSchemas d1)\<rparr>"
    define d3 where "d3 = (if cwSchema p \<noteq> '''' then putSchema (tName (cwTopic p)) 1 (cwSchema p) d2 else d2)"
    have b3: "bTopics d3 = bTopics d1" by (simp add: d3_def d2_def)
    have "\<exists>a parent. attachChildTx E \<lparr>clParent = lkParent link, clChild = tName (cwTopic p), clEpoch = lkEpoch link,
         clDelayMs = lkDelayMs link, clOffsets = lkOffsets link\<rparr> strictRules d3 = Inr (a, d') \<and>
         om_get (bTopics d3) (lkParent link) = Some parent \<and> tID parent = lkParentID link"
      using assms Some unfolding createTopicWithTx_def deletePrefix_def Let_def d1_def [symmetric] prod.case
        d2_def [symmetric] d3_def
      by (auto simp: bind_sum_Inr split: if_splits)
    then show thesis using linked [OF new Some b3 [unfolded d1_def]] unfolding tmap_def by blast
  qed
qed

lemma links_createWith:
  assumes "links_ok d" and "createTopicWithTx E p d = Inr (out, d')" and "fresh_topic (cwTopic p)"
  shows "links_ok d'"
proof -
  have new: "links_ok (putTopicRecord (cwTopic p) d)" if "tmap d (tName (cwTopic p)) = None"
    using links_ok_put [OF assms(1)] fan_ok_new [OF links_okD(1) [OF assms(1)] that assms(3)] by simp
  show ?thesis
    using assms(2)
  proof (cases rule: createWithE)
    case plain
    then show ?thesis using links_ok_same [OF new] by simp
  next
    case (linked link d3 a)
    then show ?thesis using links_attach [OF links_ok_same [OF new linked(3)]] by simp
  qed
qed

section \<open>Remote children\<close>

lemma stubs_mem:
  assumes "om_wf (bTopics d)"
  shows "t \<in> set (stubs d) \<longleftrightarrow> IsRemoteChild t \<and> (\<exists>n. tmap d n = Some t)"
  using om_wf_get [OF assms] by (force simp: stubs_def tmap_def image_iff)

lemma stubLinkingTarget_none:
  assumes "links_ok d" and "stubLinkingTarget d rn rt = ''''"
  shows "target_of (tmap d) n \<noteq> Some (rn, rt)"
proof
  assume "target_of (tmap d) n = Some (rn, rt)"
  then obtain t l where t: "tmap d n = Some t" "IsRemoteChild t" "tRemote t = Some l" "rlName l = rn" "rlTopic l = rt"
    by (auto simp: target_of_def split: option.splits if_splits)
  let ?P = "\<lambda>t. case tRemote t of None \<Rightarrow> False | Some l \<Rightarrow> rlName l = rn \<and> rlTopic l = rt"
  have "t \<in> set (stubs d)" using stubs_mem [OF links_okD(2) [OF assms(1)]] t by blast
  then have "find ?P (stubs d) \<noteq> None" using t by (auto simp: find_None_iff)
  then obtain x where x: "find ?P (stubs d) = Some x" by blast
  then have "x \<in> set (stubs d)" by (auto simp: find_Some_iff)
  then obtain m where "tmap d m = Some x" using stubs_mem [OF links_okD(2) [OF assms(1)]] by blast
  then have "tName x \<noteq> ''''" using fan_ok_node [OF links_okD(1) [OF assms(1)]] by (auto simp: node_ok_def)
  then show False using assms(2) x by (simp add: stubLinkingTarget_def)
qed

lemma EffectiveLanes_range: "MinRemoteLanes \<le> EffectiveLanes l \<and> EffectiveLanes l \<le> MaxRemoteLanes"
  by (simp add: EffectiveLanes_def MinRemoteLanes_def MaxRemoteLanes_def)

lemma links_attachRemote:
  assumes "links_ok d" and "attachRemoteChildTx op d = Inr (x, d')"
  shows "links_ok d'"
proof -
  note fan = links_okD(1) [OF assms(1)]
  obtain pt where chk: "checkAttachRemoteChildOp op = Inr ()" and pt: "tmap d (arParent op) = Some pt" "\<not> IsChild pt"
    and new: "tmap d (arStub op) = None" and len: "length (tChildren pt) < MaxChildrenPerParent"
    and cnt: "countRemoteChildren d pt < MaxRemoteChildrenPerParent"
    and ret: "floor_ok (tRetentionMs pt)" "delay_fits (arDelayMs op) (tRetentionMs pt)"
    and tgt: "stubLinkingTarget d (rlName (arRemote op)) (rlTopic (arRemote op)) = ''''"
    and d': "d' = putTopicRecord (stubOf op) (putTopicRecord (with_child (arStub op) pt) d)"
    using assms(2)
    by (auto simp: attachRemoteChildTx_def bind_sum_Inr tmap_def om_mem_def checkDelay_Inr checkRemoteSource_Inr
        Let_def with_child_def not_le split: if_splits)
  have op: "arParent op \<noteq> arStub op" "arStub op \<noteq> ''''" "0 \<le> arDelayMs op" "arDelayMs op \<le> MaxFanoutDelayMs"
    using chk by (auto simp: checkAttachRemoteChildOp_def split: if_splits)
  have stub: "IsChild (stubOf op)" "tParent (stubOf op) = arParent op" "tName (stubOf op) = arStub op"
    "tFanoutDelayMs (stubOf op) = arDelayMs op"
    "map_option (\<lambda>l. (rlName l, rlTopic l)) (tRemote (stubOf op)) = Some (rlName (arRemote op), rlTopic (arRemote op))"
    by (simp_all add: stubOf_def IsChild_role)
  have "node_ok (arStub op) (stubOf op)"
    using op EffectiveLanes_range [of "arRemote op"]
    by (auto simp: node_ok_def link_fields_ok_def stubOf_def role_defs)
  moreover have "length (filter (is_remote (tmap d)) (tChildren pt)) < MaxRemoteChildrenPerParent"
    using cnt by (simp add: countRemoteChildren_def is_remote_def [abs_def] tmap_def)
  moreover have "target_of (tmap d) n \<noteq> map_option (\<lambda>l. (rlName l, rlTopic l)) (tRemote (stubOf op))" for n
    unfolding stub(5) by (rule stubLinkingTarget_none [OF assms(1) tgt])
  ultimately have "fan_ok ((tmap d)(arParent op \<mapsto> with_child (arStub op) pt, arStub op \<mapsto> stubOf op))"
    using pt op(1) new len ret stub(1,2,4)
    by (intro fan_ok_attach [OF fan]) (simp_all only: unlinked_def edge_ok_def option.case simp_thms)
  moreover have "tName (with_child (arStub op) pt) = arParent op"
    using fan_ok_node [OF fan pt(1)] by (simp add: node_ok_def with_child_def)
  ultimately show ?thesis
    using links_okD(2) [OF assms(1)] stub(3) by (simp add: links_ok_def d' tmap_put wf_put)
qed

lemma setLanes_Inr:
  "setLanes p l = Inr l' \<Longrightarrow> MinRemoteLanes \<le> rlLanes l \<and> rlLanes l \<le> MaxRemoteLanes \<Longrightarrow>
   MinRemoteLanes \<le> rlLanes l' \<and> rlLanes l' \<le> MaxRemoteLanes \<and> rlName l' = rlName l \<and> rlTopic l' = rlTopic l \<and> rlSkip l' = rlSkip l"
  by (auto simp: setLanes_def split: option.splits if_splits)

lemma setPause_Inr:
  "setPause E p l = Inr l' \<Longrightarrow> rlName l' = rlName l \<and> rlTopic l' = rlTopic l \<and> rlLanes l' = rlLanes l \<and> rlSkip l' = rlSkip l"
  by (auto simp: setPause_def bind_sum_Inr split: option.splits if_splits)

lemma setSkip_Inr:
  "setSkip p l = Inr l' \<Longrightarrow> skips_ok (rlSkip l) \<Longrightarrow>
   skips_ok (rlSkip l') \<and> rlName l' = rlName l \<and> rlTopic l' = rlTopic l \<and> rlLanes l' = rlLanes l"
  by (auto simp: setSkip_def WithSkip_ok split: option.splits if_splits)

lemma links_setState:
  assumes "links_ok d" and "setRemoteChildStateTx E op d = Inr (x, d')"
  shows "links_ok d'"
proof -
  note fan = links_okD(1) [OF assms(1)]
  obtain stub l1 l3 l4 where s: "tmap d (rsStub op) = Some stub" "IsRemoteChild stub"
    and l: "setPause E (rsPause op) (the (tRemote stub)) = Inr l1"
      "setLanes (rsLanes op) (l1\<lparr>rlTargetID := opt_or (rsTargetID op) (rlTargetID l1)\<rparr>) = Inr l3"
      "setSkip (rsSkip op) l3 = Inr l4"
    and d': "d' = putTopicRecord (stub\<lparr>tRemote := Some l4\<rparr>) d"
    using assms(2) by (auto simp: setRemoteChildStateTx_def bind_sum_Inr tmap_def Let_def split: if_splits)
  obtain l0 where l0: "tRemote stub = Some l0" using s(2) by (auto simp: IsRemoteChild_def)
  have nok: "node_ok (rsStub op) stub" by (rule fan_ok_node [OF fan s(1)])
  have ok: "MinRemoteLanes \<le> rlLanes l0 \<and> rlLanes l0 \<le> MaxRemoteLanes" "skips_ok (rlSkip l0)"
    using nok l0 by (auto simp: node_ok_def link_fields_ok_def)
  have l4: "rlName l4 = rlName l0" "rlTopic l4 = rlTopic l0" "MinRemoteLanes \<le> rlLanes l4" "rlLanes l4 \<le> MaxRemoteLanes"
    "skips_ok (rlSkip l4)"
    using setPause_Inr [OF l(1)] setLanes_Inr [OF l(2)] setSkip_Inr [OF l(3)] ok l0 by simp_all
  have nm: "tName (stub\<lparr>tRemote := Some l4\<rparr>) = rsStub op" using nok by (simp add: node_ok_def)
  have sl: "same_link stub (stub\<lparr>tRemote := Some l4\<rparr>)" using l0 l4 by (simp add: same_link_def)
  have lf: "link_fields_ok (stub\<lparr>tRemote := Some l4\<rparr>)"
    using nok l0 l4 s(2) by (auto simp: node_ok_def link_fields_ok_def IsRemoteChild_def IsChild_role)
  have "edge_ok (stub\<lparr>tRemote := Some l4\<rparr>) ct" if "c \<in> set (tChildren stub)" "tmap d c = Some ct" for c ct
    using that child_no_children [OF nok] s(2) by (simp add: IsRemoteChild_def)
  then have "fan_ok ((tmap d)(rsStub op \<mapsto> stub\<lparr>tRemote := Some l4\<rparr>))"
    by (rule fan_ok_rewrite [OF fan s(1) sl lf])
  then show ?thesis
    unfolding d' using links_ok_put [OF assms(1), of "stub\<lparr>tRemote := Some l4\<rparr>"] nm by simp
qed

section \<open>Releasing a deleted user's topics\<close>

lemma links_owner:
  assumes "links_ok d" and "tmap d n = Some t"
  shows "links_ok (putTopicRecord (t\<lparr>tOwner := x\<rparr>) d)"
proof (rule links_ok_put [OF assms(1)])
  note fan = links_okD(1) [OF assms(1)]
  have nok: "node_ok n t" by (rule fan_ok_node [OF fan assms(2)])
  have "edge_ok (t\<lparr>tOwner := x\<rparr>) ct" if "c \<in> set (tChildren t)" "tmap d c = Some ct" for c ct
    using childE [OF fan assms(2) that(1)] that(2) by (auto simp: edge_ok_def)
  then have "fan_ok ((tmap d)(n \<mapsto> t\<lparr>tOwner := x\<rparr>))"
    using nok by (intro fan_ok_rewrite [OF fan assms(2)]) (auto simp: same_link_def node_ok_def link_fields_ok_def IsChild_role split: option.splits)
  then show "fan_ok ((tmap d)(tName (t\<lparr>tOwner := x\<rparr>) \<mapsto> t\<lparr>tOwner := x\<rparr>))"
    using nok by (simp add: node_ok_def)
qed

lemma links_release_fold:
  assumes "links_ok d" and "distinct (map tName ts)" and "\<forall>t \<in> set ts. tmap d (tName t) = Some t"
  shows "links_ok (fold (\<lambda>t. putTopicRecord (t\<lparr>tOwner := x\<rparr>)) ts d)"
  using assms
proof (induction ts arbitrary: d)
  case (Cons t ts)
  have "links_ok (putTopicRecord (t\<lparr>tOwner := x\<rparr>) d)"
    using Cons.prems(3) by (intro links_owner [OF Cons.prems(1), of "tName t"]) simp
  moreover have "tmap (putTopicRecord (t\<lparr>tOwner := x\<rparr>) d) (tName s) = Some s" if "s \<in> set ts" for s
  proof -
    have "tName s \<noteq> tName t" using Cons.prems(2) that by (metis distinct.simps(2) image_eqI list.simps(9) set_map)
    then show ?thesis using Cons.prems(3) that by (simp add: tmap_put)
  qed
  moreover have "distinct (map tName ts)" using Cons.prems(2) by simp
  ultimately show ?case unfolding fold_Cons comp_def by (intro Cons.IH) blast+
qed simp

lemma owned_topics:
  assumes "links_ok d"
  shows "distinct (map tName (topicsOwnedBy d u))" and "\<forall>t \<in> set (topicsOwnedBy d u). tmap d (tName t) = Some t"
proof -
  note wf = links_okD(2) [OF assms]
  have key: "tName t = k" if "(k, t) \<in> set (bTopics d)" for k t
    using that om_wf_get [OF wf] fan_ok_node [OF links_okD(1) [OF assms]] by (auto simp: node_ok_def tmap_def)
  then have "map tName (map snd (bTopics d)) = om_keys (bTopics d)"
    by (auto simp: om_keys_def)
  then have "distinct (map tName (map snd (bTopics d)))" using om_wf_distinct [OF wf] by simp
  then show "distinct (map tName (topicsOwnedBy d u))" unfolding topicsOwnedBy_def by (rule distinct_map_filter)
  show "\<forall>t \<in> set (topicsOwnedBy d u). tmap d (tName t) = Some t"
    using key om_wf_get [OF wf] by (auto simp: topicsOwnedBy_def tmap_def)
qed

lemma links_deleteUserRelease:
  assumes "links_ok d" and "deleteUserReleaseTopicsTx u d = Inr (r, d')"
  shows "links_ok d'"
proof -
  define d1 where "d1 = d\<lparr>bUsers := om_del u (bUsers d)\<rparr>"
  have d1: "bTopics d1 = bTopics d" by (simp add: d1_def)
  have d': "d' = fold (\<lambda>t. putTopicRecord (t\<lparr>tOwner := ''''\<rparr>)) (topicsOwnedBy d1 u) d1"
    using assms(2) unfolding d1_def
    by (auto simp: deleteUserReleaseTopicsTx_def bind_sum_Inr deleteUserRecord_def releaseOwnedTopics_def Let_def
        split: option.splits if_splits)
  have ok: "links_ok d1" by (rule links_ok_same [OF assms(1) d1])
  show ?thesis unfolding d' by (rule links_release_fold [OF ok owned_topics [OF ok]])
qed

section \<open>Every entry\<close>

text \<open>
  What is asked of the two entries that create a topic: the record has a name and no link fields of its
  own (role, parent, children, attachment, remote target). The proposers build such records;
  \<^verbatim>\<open>applyCreateTopic\<close> and \<^verbatim>\<open>applyCreateTopicWith\<close> store what they are given and do not check it, so an entry
  made by hand can carry a link with one end.
\<close>

definition proposable :: "command \<Rightarrow> bool" where
  "proposable c = (case c of
      OpCreateTopic t \<Rightarrow> fresh_topic t
    | OpCreateTopicWith p \<Rightarrow> fresh_topic (cwTopic p)
    | _ \<Rightarrow> True)"

lemma eff_Inr: "eff fn bump d = Inr (r, d', b) \<longleftrightarrow> (\<exists>x. fn d = Inr (x, d') \<and> r = Inr () \<and> b = bump x)"
  by (auto simp: eff_def split: sum.splits)

lemma eff_refusable_Inr:
  "eff_refusable fn bump d = Inr (r, d', b) \<longleftrightarrow>
   (fn d = Inr (None, d') \<and> r = Inr () \<and> b = bump) \<or> (\<exists>e. fn d = Inr (Some e, d') \<and> r = Inl e \<and> b = (\<lambda>v. v))"
  by (auto simp: eff_refusable_def split: sum.splits option.splits)

text \<open>The entries that leave the topic records alone.\<close>

lemma topics_putSchema: "putSchemaTx p d = Inr (x, d') \<Longrightarrow> bTopics d' = bTopics d"
  by (auto simp: putSchemaTx_def bind_sum_Inr Let_def split: if_splits)

lemma topics_putSchemaIf: "putSchemaIfTx E p d = Inr (x, d') \<Longrightarrow> bTopics d' = bTopics d"
  by (auto simp: putSchemaIfTx_def bind_sum_Inr Let_def split: if_splits)

lemmas topics_cluster_defs = assignPartitionTx_def assignPartitionIfAbsentTx_def pruneAssignmentTx_def
  setAssignmentTargetTx_def completeMoveTx_def abortMoveTx_def putAssignment_def memberJoinTx_def putMember_def
  setMemberDrainingTx_def memberHeartbeatTx_def memberDeadTx_def markMemberDeadIfTx_def removeMemberTx_def
  readmitMemberTx_def

lemmas topics_user_defs = putNewUserTx_def updateUserTx_def mutateUserTx_def deleteUserRecord_def

lemma topics_putRemote: "putRemoteTx p d = Inr (x, d') \<Longrightarrow> bTopics d' = bTopics d"
  by (auto simp: putRemoteTx_def Let_def split: option.splits prod.splits)

lemma topics_updateRemote: "updateRemoteTx E p d = Inr (x, d') \<Longrightarrow> bTopics d' = bTopics d"
  by (auto simp: updateRemoteTx_def Let_def split: option.splits prod.splits sum.splits)

lemma topics_deleteRemote: "deleteRemoteTx p d = Inr (x, d') \<Longrightarrow> bTopics d' = bTopics d"
  by (auto simp: deleteRemoteTx_def split: sum.splits if_splits)

lemma deleteTopicIf_plain: "deleteTopicIfTx p d = Inr r \<Longrightarrow> deleteTopicTx (diName p) d = Inr r"
  by (auto simp: deleteTopicIfTx_def bind_sum_Inr)

lemma attachChildIf_plain: "attachChildIfTx E p d = Inr r \<Longrightarrow> attachChildTx E (aiLink p) strictRules d = Inr r"
  by (auto simp: attachChildIfTx_def bind_sum_Inr)

lemma detachChildIf_plain: "detachChildIfTx p d = Inr r \<Longrightarrow> detachTx (dtParent p) (dtChild p) d = Inr r"
  by (auto simp: detachChildIfTx_def bind_sum_Inr)

lemma exec_links:
  assumes "proposable c" and "links_ok d" and "exec E c d = Inr (r, d', b)"
  shows "links_ok d'"
proof (cases c)
  case (OpCreateTopic p)
  then show ?thesis using assms links_createTopic by (auto simp: eff_Inr proposable_def)
next
  case (OpUpdateTopic p)
  then show ?thesis using assms links_updateTopic by (auto simp: eff_Inr)
next
  case (OpDeleteTopic p)
  then show ?thesis using assms links_delete by (auto simp: eff_Inr)
next
  case (OpAttachChild p)
  then show ?thesis using assms links_attach by (auto simp: eff_Inr)
next
  case (OpDetachChild p)
  then show ?thesis using assms links_detach by (auto simp: eff_Inr)
next
  case (OpCreateTopicWith p)
  then show ?thesis using assms links_createWith by (auto simp: eff_Inr proposable_def split: if_splits)
next
  case (OpUpdateTopicIf p)
  then show ?thesis using assms links_updateTopicIf by (auto simp: eff_Inr)
next
  case (OpDeleteTopicIf p)
  then show ?thesis using assms by (auto simp: eff_Inr dest!: deleteTopicIf_plain intro: links_delete)
next
  case (OpAttachChildIf p)
  then show ?thesis using assms by (auto simp: eff_Inr dest!: attachChildIf_plain intro: links_attach)
next
  case (OpDetachChildIf p)
  then show ?thesis using assms by (auto simp: eff_Inr dest!: detachChildIf_plain intro: links_detach)
next
  case (OpDeleteUserReleaseTopics p)
  then show ?thesis using assms links_deleteUserRelease by (auto simp: eff_Inr)
next
  case (OpAttachRemoteChild p)
  then show ?thesis using assms links_attachRemote by (auto simp: eff_Inr)
next
  case (OpSetRemoteChildState p)
  then show ?thesis using assms links_setState by (auto simp: eff_Inr)
next
  case (OpPutSchema p)
  then show ?thesis using assms links_ok_same topics_putSchema by (fastforce simp: eff_Inr)
next
  case (OpPutSchemaIf p)
  then show ?thesis using assms links_ok_same topics_putSchemaIf by (fastforce simp: eff_Inr)
next
  case (OpPutRemote p)
  then show ?thesis using assms links_ok_same topics_putRemote by (fastforce simp: eff_refusable_Inr split: if_splits)
next
  case (OpUpdateRemote p)
  then show ?thesis using assms links_ok_same topics_updateRemote by (fastforce simp: eff_refusable_Inr split: if_splits)
next
  case (OpDeleteRemote p)
  then show ?thesis using assms links_ok_same topics_deleteRemote by (fastforce simp: eff_refusable_Inr)
qed (use assms links_ok_same in \<open>force simp: eff_Inr topics_cluster_defs topics_user_defs bind_sum_Inr Let_def
      split: if_splits option.splits\<close>)+

text \<open>
  C4. The fan-out links of the metastore are always well formed. Assume every entry that creates a topic
  carries a named record without link fields (\<open>proposable\<close>), which the proposers ensure and \<^verbatim>\<open>applyCreateTopic\<close>
  does not check. Then, whatever entries a node applies, in whatever order, with whatever crashes and disk
  failures in between: roles are exclusive and flat (a parent is never a child), every link is recorded at
  both ends and a child has exactly one parent,
  a parent has at most 108 children of which at most 16 are remote, it retains records long enough for
  every child's delay plus an hour and, with a remote child, for at least 24 hours, and no two remote
  children send to the same remote topic.
\<close>

theorem fanout_links_well_formed:
  assumes "\<forall>c \<in> commands evs. proposable c" and "T = om_get (bTopics (db (node_run E evs)))" and "T n = Some t"
  shows "\<not> (IsParent t \<and> IsChild t) \<and> tName t = n \<and> distinct (tChildren t) \<and> length (tChildren t) \<le> 108 \<and>
    (IsParent t \<longleftrightarrow> tChildren t \<noteq> []) \<and>
    (\<forall>c \<in> set (tChildren t). \<exists>ct. T c = Some ct \<and> IsChild ct \<and> tParent ct = n \<and>
       (tFanoutDelayMs ct \<le> 0 \<or> tRetentionMs t = 0 \<or> tFanoutDelayMs ct + 3600000 \<le> tRetentionMs t) \<and>
       (IsRemoteChild ct \<longrightarrow> tRetentionMs t = 0 \<or> 86400000 \<le> tRetentionMs t)) \<and>
    (IsChild t \<longrightarrow> (\<exists>p. T (tParent t) = Some p \<and> IsParent p \<and> n \<in> set (tChildren p))) \<and>
    length (filter (is_remote T) (tChildren t)) \<le> 16 \<and>
    (\<forall>m. target_of T n \<noteq> None \<and> target_of T n = target_of T m \<longrightarrow> n = m)"
proof -
  have "links_ok (db (node_run E evs))"
    by (rule node_run_invariant [where C = "{c. proposable c}"]) (use assms(1) exec_links in auto)
  then have fan: "fan_ok T" using links_okD(1) by (simp add: tmap_def assms(2))
  note ok = fan_okD [OF fan assms(3)] and nok = fan_ok_node [OF fan assms(3)]
  have up: "IsChild t \<longrightarrow> (\<exists>p. T (tParent t) = Some p \<and> IsParent p \<and> n \<in> set (tChildren p))"
    using parentE [OF fan assms(3)] by metis
  have down: "\<forall>c \<in> set (tChildren t). \<exists>ct. T c = Some ct \<and> IsChild ct \<and> tParent ct = n \<and>
       (tFanoutDelayMs ct \<le> 0 \<or> tRetentionMs t = 0 \<or> tFanoutDelayMs ct + 3600000 \<le> tRetentionMs t) \<and>
       (IsRemoteChild ct \<longrightarrow> tRetentionMs t = 0 \<or> 86400000 \<le> tRetentionMs t)"
    using ok by (force simp: topic_ok_def edge_ok_def delay_fits_def floor_ok_def MinRetentionMs_def
        MinRemoteSourceRetentionMs_def)
  show ?thesis
  proof (intro conjI up down)
    show "\<not> (IsParent t \<and> IsChild t)" by (rule role_excl)
    show "tName t = n" "distinct (tChildren t)" "IsParent t \<longleftrightarrow> tChildren t \<noteq> []"
      using node_okD [OF nok] by blast+
    show "length (tChildren t) \<le> 108" using node_okD(5) [OF nok] by (simp add: MaxChildrenPerParent_def)
    show "length (filter (is_remote T) (tChildren t)) \<le> 16"
      using ok by (simp add: topic_ok_def MaxRemoteChildrenPerParent_def)
    show "\<forall>m. target_of T n \<noteq> None \<and> target_of T n = target_of T m \<longrightarrow> n = m"
      using fan unfolding fan_ok_def by blast
  qed
qed


text \<open>Two created topics, the second attached to the first.\<close>

definition exTopic :: "string \<Rightarrow> Topic" where
  "exTopic n = \<lparr>tName = n, tID = n, tPartitions = 1, tRetentionMs = 0, tVisibilityTimeoutMs = 30000,
     tMaxInFlightPerPartition = 100, tMaxAckedAheadPerPartition = 100, tCreatedAt = 0, tOwner = '''', tRole = '''',
     tChildren = [], tParent = '''', tAttachEpoch = '''', tFanoutDelayMs = 0, tAttachOffsets = [], tRemote = None\<rparr>"

definition exEvents :: "event list" where
  "exEvents = [Deliver exDisk \<lparr>leIndex = 1, leEntry = Command (OpCreateTopic (exTopic ''p''))\<rparr>,
     Deliver exDisk \<lparr>leIndex = 2, leEntry = Command (OpCreateTopic (exTopic ''c''))\<rparr>, Restart,
     Deliver exDisk \<lparr>leIndex = 3, leEntry = Command (OpAttachChild
       \<lparr>clParent = ''p'', clChild = ''c'', clEpoch = ''e'', clDelayMs = 0, clOffsets = []\<rparr>)\<rparr>]"

theorem fanout_links_well_formed_witness:
  "\<exists>ct. om_get (bTopics (db (node_run exEnv exEvents))) ''c'' = Some ct \<and> IsChild ct \<and> tParent ct = ''p''"
proof -
  let ?T = "om_get (bTopics (db (node_run exEnv exEvents)))"
  let ?p = "(exTopic ''p'')\<lparr>tRole := RoleParent, tChildren := [''c'']\<rparr>"
  have "\<forall>c \<in> commands exEvents. proposable c"
    by (auto simp: commands_def exEvents_def proposable_def fresh_topic_def exTopic_def)
  moreover have "?T ''p'' = Some ?p" by code_simp
  ultimately show ?thesis using fanout_links_well_formed [OF _ refl, of exEvents exEnv "''p''" ?p] by auto
qed

end
