(* ===== verification/Announcing_Store.thy ===== *)
theory Announcing_Store
  imports Prelude
begin

text \<open>
  The contract between the metadata store and its caches. A write has two moments: its transaction
  commits, and a little later its version bumps become visible. A store \<^emph>\<open>announces\<close> its changes when the
  bumps give every key that reads differently a higher version. Caches rely on nothing else: a value
  loaded no earlier than some version was read is current as long as that version stands.
\<close>

record ('d, 's) store =
  sDb :: 'd
  sVers :: 's
  sPending :: "('d \<times> ('s \<Rightarrow> 's)) option"

definition store_commit :: "('c \<Rightarrow> 'd \<Rightarrow> ('d \<times> ('s \<Rightarrow> 's)) option) \<Rightarrow> 'c \<Rightarrow> ('d, 's) store \<Rightarrow> ('d, 's) store" where
  "store_commit txn c st =
     (case sPending st of
        Some _ \<Rightarrow> st
      | None \<Rightarrow> (case txn c (sDb st) of
                  None \<Rightarrow> st
                | Some (d, b) \<Rightarrow> st\<lparr>sDb := d, sPending := Some (sDb st, b)\<rparr>))"

definition store_bump :: "('d, 's) store \<Rightarrow> ('d, 's) store" where
  "store_bump st = (case sPending st of None \<Rightarrow> st | Some (old, b) \<Rightarrow> st\<lparr>sVers := b (sVers st), sPending := None\<rparr>)"

text \<open>What a reader of \<open>k\<close> may see as the current value: while a write is not announced, either side of it.\<close>

definition current :: "('d \<Rightarrow> 'k \<Rightarrow> 'v) \<Rightarrow> ('d, 's) store \<Rightarrow> 'k \<Rightarrow> 'v set" where
  "current read st k =
     (case sPending st of None \<Rightarrow> {read (sDb st) k} | Some (old, b) \<Rightarrow> {read (sDb st) k, read old k})"

lemma current_db [simp]: "read (sDb st) k \<in> current read st k"
  by (auto simp: current_def split: option.splits)

lemma current_quiet: "sPending st = None \<Longrightarrow> current read st k = {read (sDb st) k}"
  by (simp add: current_def)

locale announcing_store =
  fixes read :: "'d \<Rightarrow> 'k \<Rightarrow> 'v" and ver :: "'s \<Rightarrow> 'k \<Rightarrow> nat"
    and txn :: "'c \<Rightarrow> 'd \<Rightarrow> ('d \<times> ('s \<Rightarrow> 's)) option" and dok :: "'d \<Rightarrow> bool" and sok :: "'s \<Rightarrow> bool"
  assumes txn_dok: "dok d \<Longrightarrow> txn c d = Some (d', b) \<Longrightarrow> dok d'"
    and bump_sok: "dok d \<Longrightarrow> txn c d = Some (d', b) \<Longrightarrow> sok s \<Longrightarrow> sok (b s)"
    and bump_mono: "dok d \<Longrightarrow> txn c d = Some (d', b) \<Longrightarrow> sok s \<Longrightarrow> ver s k \<le> ver (b s) k"
    and bump_announces: "dok d \<Longrightarrow> txn c d = Some (d', b) \<Longrightarrow> sok s \<Longrightarrow> read d' k \<noteq> read d k \<Longrightarrow> ver s k < ver (b s) k"
begin

definition store_ok :: "('d, 's) store \<Rightarrow> bool" where
  "store_ok st \<longleftrightarrow> dok (sDb st) \<and> sok (sVers st) \<and>
     (\<forall>old b. sPending st = Some (old, b) \<longrightarrow> dok old \<and> (\<exists>c. txn c old = Some (sDb st, b)))"

text \<open>\<open>stamped st k v x\<close>: if \<open>k\<close> still has version \<open>v\<close>, then \<open>x\<close> is current.\<close>

definition stamped :: "('d, 's) store \<Rightarrow> 'k \<Rightarrow> nat \<Rightarrow> 'v \<Rightarrow> bool" where
  "stamped st k v x \<longleftrightarrow> v \<le> ver (sVers st) k \<and> (ver (sVers st) k = v \<longrightarrow> x \<in> current read st k)"

lemma store_ok_commit: "store_ok st \<Longrightarrow> store_ok (store_commit txn c st)"
  unfolding store_commit_def by (auto simp: store_ok_def split: option.splits dest: txn_dok)

lemma store_ok_bump: "store_ok st \<Longrightarrow> store_ok (store_bump st)"
  unfolding store_bump_def by (auto simp: store_ok_def split: option.splits intro: bump_sok)

lemma ver_commit [simp]: "sVers (store_commit txn c st) = sVers st"
  by (simp add: store_commit_def split: option.splits)

lemma ver_bump_mono: "store_ok st \<Longrightarrow> ver (sVers st) k \<le> ver (sVers (store_bump st)) k"
  unfolding store_bump_def by (auto simp: store_ok_def split: option.splits intro: bump_mono)

lemma current_commit: "current read st k \<subseteq> current read (store_commit txn c st) k"
  by (auto simp: store_commit_def current_def split: option.splits)

lemma stamped_commit: "stamped st k v x \<Longrightarrow> stamped (store_commit txn c st) k v x"
  using current_commit by (fastforce simp: stamped_def)

lemma current_bump:
  assumes "store_ok st" and "ver (sVers (store_bump st)) k = ver (sVers st) k"
  shows "current read (store_bump st) k = current read st k"
proof (cases "sPending st")
  case None
  then show ?thesis by (simp add: store_bump_def)
next
  case (Some p)
  obtain old b where p: "p = (old, b)" by fastforce
  obtain c where c: "dok old" "txn c old = Some (sDb st, b)" "sok (sVers st)"
    using assms(1) Some p by (auto simp: store_ok_def)
  have "read (sDb st) k = read old k"
    using bump_announces [OF c, of k] assms(2) Some p by (auto simp: store_bump_def)
  then show ?thesis using Some p by (simp add: store_bump_def current_def)
qed

lemma stamped_bump:
  assumes "store_ok st" and "stamped st k v x"
  shows "stamped (store_bump st) k v x"
proof -
  have le: "ver (sVers st) k \<le> ver (sVers (store_bump st)) k" by (rule ver_bump_mono [OF assms(1)])
  have "x \<in> current read (store_bump st) k" if "ver (sVers (store_bump st)) k = v"
  proof -
    have "ver (sVers st) k = v" using le assms(2) that by (simp add: stamped_def)
    then show ?thesis using current_bump [OF assms(1)] assms(2) that by (simp add: stamped_def)
  qed
  then show ?thesis using le assms(2) by (auto simp: stamped_def)
qed

lemma stamped_read: "v \<le> ver (sVers st) k \<Longrightarrow> stamped st k v (read (sDb st) k)"
  by (simp add: stamped_def)

lemma stamped_current: "stamped st k v x \<Longrightarrow> ver (sVers st) k = v \<Longrightarrow> x \<in> current read st k"
  by (simp add: stamped_def)

end

text \<open>A client that reads a view of the data, each view under the version of one key.\<close>

locale announcing_view = announcing_store read ver txn dok sok
  for read :: "'d \<Rightarrow> 'k \<Rightarrow> 'v" and ver :: "'s \<Rightarrow> 'k \<Rightarrow> nat"
    and txn :: "'c \<Rightarrow> 'd \<Rightarrow> ('d \<times> ('s \<Rightarrow> 's)) option" and dok :: "'d \<Rightarrow> bool" and sok :: "'s \<Rightarrow> bool" +
  fixes view :: "'d \<Rightarrow> 'e \<Rightarrow> 'x" and key :: "'e \<Rightarrow> 'k"
  assumes view_read: "read d' (key e) = read d (key e) \<Longrightarrow> view d' e = view d e"

sublocale announcing_view \<subseteq> views: announcing_store view "\<lambda>s e. ver s (key e)" txn dok sok
proof unfold_locales
  fix d c d' b s e
  assume "dok d" "txn c d = Some (d', b)" "sok s" "view d' e \<noteq> view d e"
  then show "ver s (key e) < ver (b s) (key e)" using bump_announces view_read by metis
qed (rule txn_dok bump_sok bump_mono; assumption)+

end
