(* ===== verification/Meta_Announce.thy ===== *)
theory Meta_Announce
  imports Meta_Exec Announcing_Store
begin

text \<open>
  What the caches rely on: whenever an entry changes what a reader of some domain sees (a topic record,
  a topic's assignment rows, a topic's schemas, the routing view of the members, the users, the
  remotes), the version bumps that follow the commit give that domain's key a version never read before.
\<close>

section \<open>What readers see\<close>

type_synonym routing_view = "(string \<times> string \<times> string \<times> string) option"

datatype reading =
    RTopic "Topic option"
  | RAssignments "((string \<times> int) \<times> Assignment) list"
  | RSchemas "((string \<times> int) \<times> string) list"
  | RRouting "string \<Rightarrow> routing_view"
  | RUsers "(string, User) omap"
  | RRemotes "(string, RemoteRecord) omap"

definition routing_of :: "Buckets \<Rightarrow> string \<Rightarrow> routing_view" where
  "routing_of d i = map_option (\<lambda>m. (mID m, mAddr m, mClusterAddr m, mStatus m)) (om_get (bMembers d) i)"

fun reads :: "Buckets \<Rightarrow> dv_key \<Rightarrow> reading" where
  "reads d (KTopic n) = RTopic (om_get (bTopics d) n)"
| "reads d (KAssignment n) = RAssignments (om_filter (\<lambda>k. fst k = n) (bAssignments d))"
| "reads d (KSchema n) = RSchemas (om_filter (\<lambda>k. fst k = n) (bSchemas d))"
| "reads d KRouting = RRouting (routing_of d)"
| "reads d KUsers = RUsers (bUsers d)"
| "reads d KRemotes = RRemotes (bRemotes d)"

definition same_outside :: "dv_key set \<Rightarrow> Buckets \<Rightarrow> Buckets \<Rightarrow> bool" where
  "same_outside K d d' \<longleftrightarrow> (\<forall>k. k \<notin> K \<longrightarrow> reads d' k = reads d k)"

text \<open>The rows are stored under the key they name.\<close>

definition keyed_ok :: "Buckets \<Rightarrow> bool" where
  "keyed_ok d \<longleftrightarrow> om_wf (bTopics d) \<and> (\<forall>n t. om_get (bTopics d) n = Some t \<longrightarrow> tName t = n) \<and>
     (\<forall>k a. om_get (bAssignments d) k = Some a \<longrightarrow> k = (aTopic a, aPartition a))"

lemma keyed_ok_empty [simp]: "keyed_ok emptyBuckets"
  by (simp add: keyed_ok_def emptyBuckets_def)

lemma keyed_topic: "keyed_ok d \<Longrightarrow> om_get (bTopics d) n = Some t \<Longrightarrow> tName t = n"
  by (simp add: keyed_ok_def)

lemma keyed_row: "keyed_ok d \<Longrightarrow> om_get (bAssignments d) (n, i) = Some a \<Longrightarrow> aTopic a = n \<and> aPartition a = i"
  unfolding keyed_ok_def by fastforce

lemma filter_om_put: "\<not> P k \<Longrightarrow> om_filter P (om_put k v m) = om_filter P m"
  by (induction k v m rule: om_put.induct) (auto simp: om_filter_def)

lemma filter_om_del: "\<not> P k \<Longrightarrow> om_filter P (om_del k m) = om_filter P m"
  by (induction m) (auto simp: om_filter_def om_del_def)

lemma filter_om_filter: "om_filter P (om_filter Q m) = om_filter (\<lambda>k. P k \<and> Q k) m"
  by (induction m) (auto simp: om_filter_def)

lemma filter_prefix [simp]:
  "n \<noteq> x \<Longrightarrow> om_filter (\<lambda>k. fst k = n \<and> fst k \<noteq> x) m = om_filter (\<lambda>k. fst k = n) m"
  by (rule arg_cong [where f = "\<lambda>P. om_filter P m"]) auto

lemma same_outside_refl [simp]: "same_outside K d d"
  by (simp add: same_outside_def)

lemma same_outside_trans: "same_outside K d d' \<Longrightarrow> same_outside K' d' d'' \<Longrightarrow> same_outside (K \<union> K') d d''"
  by (auto simp: same_outside_def)

lemma same_outside_mono: "same_outside K d d' \<Longrightarrow> K \<subseteq> K' \<Longrightarrow> same_outside K' d d'"
  by (auto simp: same_outside_def)

lemma same_outsideI:
  assumes "\<And>n. KTopic n \<notin> K \<Longrightarrow> om_get (bTopics d') n = om_get (bTopics d) n"
    and "\<And>n. KAssignment n \<notin> K \<Longrightarrow> om_filter (\<lambda>k. fst k = n) (bAssignments d') = om_filter (\<lambda>k. fst k = n) (bAssignments d)"
    and "\<And>n. KSchema n \<notin> K \<Longrightarrow> om_filter (\<lambda>k. fst k = n) (bSchemas d') = om_filter (\<lambda>k. fst k = n) (bSchemas d)"
    and "KRouting \<notin> K \<Longrightarrow> routing_of d' = routing_of d"
    and "KUsers \<notin> K \<Longrightarrow> bUsers d' = bUsers d" and "KRemotes \<notin> K \<Longrightarrow> bRemotes d' = bRemotes d"
  shows "same_outside K d d'"
  unfolding same_outside_def
proof (intro allI impI)
  fix k assume "k \<notin> K"
  then show "reads d' k = reads d k" by (cases k) (simp_all add: assms)
qed

lemma same_put: "same_outside {KTopic (tName t)} d (putTopicRecord t d)"
  by (rule same_outsideI) (auto simp: putTopicRecord_def routing_of_def)

lemma same_put_as: "tName t = n \<Longrightarrow> same_outside {KTopic n} d (putTopicRecord t d)"
  using same_put by blast

lemma same_delete: "same_outside {KTopic n, KAssignment n, KSchema n} d (deleteTopicRecords n d)"
  by (rule same_outsideI) (auto simp: deleteTopicRecords_def deletePrefix_def filter_om_filter routing_of_def)

lemma same_putSchema: "same_outside {KSchema n} d (putSchema n v s d)"
  by (rule same_outsideI) (auto simp: putSchema_def filter_om_put routing_of_def)

lemma same_putAssignment: "same_outside {KAssignment (aTopic a)} d (putAssignment a d)"
  by (rule same_outsideI) (auto simp: putAssignment_def filter_om_put routing_of_def)

lemma same_users: "same_outside {KUsers} d (d\<lparr>bUsers := us\<rparr>)"
  by (rule same_outsideI) (auto simp: routing_of_def)

lemma same_remotes: "same_outside {KRemotes} d (d\<lparr>bRemotes := rs, bKeys := ks\<rparr>)"
  by (rule same_outsideI) (auto simp: routing_of_def)

lemma keyed_put [simp]: "keyed_ok d \<Longrightarrow> keyed_ok (putTopicRecord t d)"
  by (auto simp: keyed_ok_def putTopicRecord_def)

lemma keyed_delete [simp]: "keyed_ok d \<Longrightarrow> keyed_ok (deleteTopicRecords n d)"
  by (auto simp: keyed_ok_def deleteTopicRecords_def deletePrefix_def)

lemma keyed_putAssignment [simp]: "keyed_ok d \<Longrightarrow> keyed_ok (putAssignment a d)"
  by (auto simp: keyed_ok_def putAssignment_def)

lemma keyed_same: "keyed_ok d \<Longrightarrow> bTopics d' = bTopics d \<Longrightarrow> bAssignments d' = bAssignments d \<Longrightarrow> keyed_ok d'"
  by (simp add: keyed_ok_def)

lemma keyed_putSchema [simp]: "keyed_ok d \<Longrightarrow> keyed_ok (putSchema n v s d)"
  by (erule keyed_same) (simp_all add: putSchema_def)

section \<open>Announced changes\<close>

text \<open>\<open>announced d d' b\<close>: the bumps \<open>b\<close> move every key whose reading \<open>d'\<close> changes.\<close>

definition announced :: "Buckets \<Rightarrow> Buckets \<Rightarrow> (metadataDomainVersions \<Rightarrow> metadataDomainVersions) \<Rightarrow> bool" where
  "announced d d' b \<longleftrightarrow> keyed_ok d' \<and> (\<exists>K. same_outside K d d' \<and> (\<forall>v. dv_inv v \<longrightarrow> moved v (b v) K))"

lemma announcedI:
  assumes "keyed_ok d'" and "same_outside K d d'" and "\<And>v. dv_inv v \<Longrightarrow> moved v (b v) K"
  shows "announced d d' b"
  using assms by (auto simp: announced_def)

lemma moved_seq:
  assumes "\<And>v. dv_inv v \<Longrightarrow> moved v (b v) K" and "\<And>v. dv_inv v \<Longrightarrow> moved v (b' v) K'" and "dv_inv v"
  shows "moved v (b' (b v)) (K \<union> K')"
proof -
  have m: "moved v (b v) K" by (rule assms(1) [OF assms(3)])
  then have "dv_inv (b v)" by (simp add: moved_def)
  from moved_trans [OF m assms(2) [OF this]] show ?thesis .
qed

lemma announced_seq:
  assumes "announced d d1 b" and "keyed_ok d1 \<Longrightarrow> announced d1 d2 b'"
  shows "announced d d2 (\<lambda>v. b' (b v))"
proof -
  obtain K where K: "keyed_ok d1" "same_outside K d d1" "\<And>v. dv_inv v \<Longrightarrow> moved v (b v) K"
    using assms(1) by (auto simp: announced_def)
  obtain K' where K': "keyed_ok d2" "same_outside K' d1 d2" "\<And>v. dv_inv v \<Longrightarrow> moved v (b' v) K'"
    using assms(2) [OF K(1)] by (auto simp: announced_def)
  show ?thesis
    by (rule announcedI [OF K'(1) same_outside_trans [OF K(2) K'(2)] moved_seq [OF K(3) K'(3)]])
qed

lemma announced_none: "keyed_ok d \<Longrightarrow> announced d d (\<lambda>v. v)"
  by (rule announcedI [where K = "{}"]) (simp_all add: moved_refl)

lemma announced_quiet:
  assumes "keyed_ok d'" and "same_outside {} d d'"
  shows "announced d d' (\<lambda>v. v)"
  by (rule announcedI [OF assms]) (simp add: moved_refl)

lemma announced_topic: "keyed_ok d \<Longrightarrow> announced d (putTopicRecord t d) (bumpTopic (tName t))"
  by (rule announcedI [OF _ same_put moved_bumpTopic]) simp_all

lemma announced_schema: "keyed_ok d \<Longrightarrow> announced d (putSchema n v s d) (bumpSchema n)"
  by (rule announcedI [OF _ same_putSchema moved_bumpSchema]) simp_all

lemma announced_assignment: "keyed_ok d \<Longrightarrow> announced d (putAssignment a d) (bumpAssignment (aTopic a))"
  by (rule announcedI [OF _ same_putAssignment moved_bumpAssignment]) simp_all

lemma announced_delete: "keyed_ok d \<Longrightarrow> announced d (deleteTopicRecords n d) (retireTopic n)"
  by (rule announcedI [OF _ same_delete moved_retireTopic]) simp_all

lemma announced_users: "keyed_ok d \<Longrightarrow> announced d (d\<lparr>bUsers := us\<rparr>) bumpUsers"
  by (rule announcedI [OF _ same_users moved_bumpUsers]) (auto intro: keyed_same)

lemma announced_remotes: "keyed_ok d \<Longrightarrow> announced d (d\<lparr>bRemotes := rs, bKeys := ks\<rparr>) bumpRemotes"
  by (rule announcedI [OF _ same_remotes moved_bumpRemotes]) (auto intro: keyed_same)

text \<open>Bumping more than what changed is harmless.\<close>

lemma announced_more:
  assumes "announced d d' b" and "\<And>v. dv_inv v \<Longrightarrow> moved v (b' v) {}"
  shows "announced d d' (\<lambda>v. b' (b v))" and "announced d d' (\<lambda>v. b (b' v))"
proof -
  obtain K where K: "keyed_ok d'" "same_outside K d d'" "\<And>v. dv_inv v \<Longrightarrow> moved v (b v) K"
    using assms(1) by (auto simp: announced_def)
  show "announced d d' (\<lambda>v. b' (b v))"
    using moved_seq [OF K(3) assms(2)] by (intro announcedI [OF K(1,2)]) simp
  show "announced d d' (\<lambda>v. b (b' v))"
    using moved_seq [OF assms(2) K(3)] by (intro announcedI [OF K(1,2)]) simp
qed


section \<open>Every entry announces its changes\<close>

lemma bumps_only: "moved v v' K \<Longrightarrow> moved v v' {}"
  by (simp add: moved_def)

lemma announced_bump: "keyed_ok d \<Longrightarrow> announced d d (dv_step op)"
  by (rule announcedI [where K = "{}"]) (auto intro: bumps_only moved_step)

lemma announced_fold:
  assumes "keyed_ok d" and "\<And>x d. keyed_ok d \<Longrightarrow> announced d (f x d) (b x)"
  shows "announced d (fold f xs d) (fold b xs)"
  using assms(1)
proof (induction xs arbitrary: d)
  case Nil
  then show ?case using announced_none by (simp add: id_def)
next
  case (Cons x xs)
  have "announced d (fold f xs (f x d)) (\<lambda>v. fold b xs (b x v))"
    by (rule announced_seq [OF assms(2) [OF Cons.prems]]) (rule Cons.IH)
  then show ?case by (simp add: comp_def)
qed

lemma announced_append:
  assumes "announced d d1 (fold b xs)" and "keyed_ok d1 \<Longrightarrow> announced d1 d2 (fold b ys)"
  shows "announced d d2 (fold b (xs @ ys))"
  using announced_seq [OF assms] by (simp add: comp_def)

text \<open>Bumps of different domains may come in any order: only the keys they move matter.\<close>

definition moves :: "(metadataDomainVersions \<Rightarrow> metadataDomainVersions) \<Rightarrow> dv_key set \<Rightarrow> bool" where
  "moves b K \<longleftrightarrow> (\<forall>v. dv_inv v \<longrightarrow> moved v (b v) K)"

lemma moves_seq: "moves b K \<Longrightarrow> moves b' K' \<Longrightarrow> moves (\<lambda>v. b' (b v)) (K \<union> K')"
  using moved_seq unfolding moves_def by blast

lemma moves_mono: "moves b K \<Longrightarrow> K' \<subseteq> K \<Longrightarrow> moves b K'"
  by (auto simp: moves_def moved_def)

lemma moves_id: "moves (\<lambda>v. v) {}"
  by (simp add: moves_def moved_refl)

lemma moves_ops:
  "moves (bumpTopic n) {KTopic n}" "moves (bumpAssignment n) {KAssignment n}" "moves (bumpSchema n) {KSchema n}"
  "moves bumpUsers {KUsers}" "moves bumpRoutingMembers {KRouting}" "moves bumpRemotes {KRemotes}"
  "moves (retireTopic n) {KTopic n, KAssignment n, KSchema n}" "moves (retireAssignments n) {KAssignment n}"
  by (simp_all add: moves_def moved_bumpTopic moved_bumpAssignment moved_bumpSchema moved_bumpUsers
      moved_bumpRoutingMembers moved_bumpRemotes moved_retireTopic moved_retireAssignments)

lemma moves_fold:
  assumes "\<And>x. moves (b x) (K x)"
  shows "moves (fold b xs) (\<Union> (K ` set xs))"
proof (induction xs)
  case Nil
  then show ?case using moves_id by (simp add: id_def)
next
  case (Cons x xs)
  then show ?case using moves_seq [OF assms Cons.IH] by (simp add: comp_def)
qed

lemma announced_moves: "keyed_ok d' \<Longrightarrow> same_outside K d d' \<Longrightarrow> moves b K \<Longrightarrow> announced d d' b"
  by (auto simp: announced_def moves_def)

lemma same_fold_putSchema: "same_outside (KSchema ` set cs) d (fold (\<lambda>c. putSchema c v s) cs d)"
proof (induction cs arbitrary: d)
  case (Cons c cs)
  from same_outside_trans [OF same_putSchema Cons.IH] show ?case by simp
qed simp

lemma keyed_fold_putSchema: "keyed_ok d \<Longrightarrow> keyed_ok (fold (\<lambda>c. putSchema c v s) cs d)"
  by (induction cs arbitrary: d) auto

lemma announced_put_schemas:
  assumes "keyed_ok d"
  shows "announced d (fold (\<lambda>c. putSchema c v s) cs (putSchema n v s d)) (bump_schemas n cs)"
  unfolding bump_schemas_def
proof (rule announced_seq [OF announced_schema [OF assms]])
  assume "keyed_ok (putSchema n v s d)"
  then show "announced (putSchema n v s d) (fold (\<lambda>c. putSchema c v s) cs (putSchema n v s d)) (fold bumpSchema cs)"
    by (rule announced_fold) (rule announced_schema)
qed

lemma announced_putSchema:
  assumes "keyed_ok d" and "putSchemaTx p d = Inr (cs, d')"
  shows "announced d d' (bump_schemas (spTopic p) cs)"
  using assms announced_put_schemas by (auto simp: putSchemaTx_def bind_sum_Inr Let_def split: if_splits)

lemma announced_putSchemaIf:
  assumes "keyed_ok d" and "putSchemaIfTx E p d = Inr (cs, d')"
  shows "announced d d' (bump_schemas (piTopic p) cs)"
  using assms announced_put_schemas by (auto simp: putSchemaIfTx_def bind_sum_Inr Let_def split: if_splits)

text \<open>Attach and detach.\<close>

lemma same_fold_adopt: "same_outside {KSchema n} d (fold (\<lambda>v. putSchema n v (f v)) vs d)"
proof (induction vs arbitrary: d)
  case (Cons v vs)
  from same_outside_trans [OF same_putSchema [of n d v "f v"] Cons.IH] show ?case by simp
qed simp

lemma keyed_fold_adopt: "keyed_ok d \<Longrightarrow> keyed_ok (fold (\<lambda>v. putSchema n v (f v)) vs d)"
  by (induction vs arbitrary: d) auto

lemma topics_fold_adopt: "bTopics (fold (\<lambda>v. putSchema n v (f v)) vs d) = bTopics d"
  by (induction vs arbitrary: d) (simp_all add: putSchema_def)

lemma reconcile_effect:
  assumes "keyed_ok d" and "reconcileSchemasForAttach E p c rules d = Inr (adopted, d')"
  shows "keyed_ok d' \<and> same_outside (if adopted then {KSchema c} else {}) d d' \<and> bTopics d' = bTopics d"
  using assms by (auto simp: reconcileSchemasForAttach_def Let_def bind_sum_Inr same_fold_adopt keyed_fold_adopt
      topics_fold_adopt split: if_splits)

lemma attach_effect:
  assumes "keyed_ok d" and "attachChildTx E p rules d = Inr (adopted, d')"
  shows "keyed_ok d' \<and>
    same_outside ({KTopic (clParent p), KTopic (clChild p)} \<union> (if adopted then {KSchema (clChild p)} else {})) d d'"
proof -
  obtain parent child d1 where
    a: "om_get (bTopics d) (clParent p) = Some parent" "om_get (bTopics d) (clChild p) = Some child"
      "reconcileSchemasForAttach E (clParent p) (clChild p) rules d = Inr (adopted, d1)"
    and d': "d' = putTopicRecord (child\<lparr>tRole := RoleChild, tParent := clParent p, tAttachEpoch := clEpoch p,
               tFanoutDelayMs := clDelayMs p, tAttachOffsets := clOffsets p\<rparr>)
             (putTopicRecord (parent\<lparr>tRole := RoleParent, tChildren := tChildren parent @ [clChild p]\<rparr>) d1)"
    using assms(2) by (auto simp: attachChildTx_def bind_sum_Inr Let_def split: if_splits)
  note r = reconcile_effect [OF assms(1) a(3)]
  note names = keyed_topic [OF assms(1) a(1)] keyed_topic [OF assms(1) a(2)]
  have "same_outside ((if adopted then {KSchema (clChild p)} else {}) \<union> {KTopic (clParent p)} \<union> {KTopic (clChild p)}) d d'"
    unfolding d' using r names same_put
    by (intro same_outside_trans [OF same_outside_trans [OF _ same_put_as] same_put_as]) simp_all
  then show ?thesis using r by (auto simp: d' elim: same_outside_mono)
qed

lemma moves_attached:
  "moves (bumpAttached p c adopted) ({KTopic p, KTopic c} \<union> (if adopted then {KSchema c} else {}))"
proof -
  have t: "moves (\<lambda>v. bumpTopic c (bumpTopic p v)) ({KTopic p} \<union> {KTopic c})"
    by (rule moves_seq [OF moves_ops(1) moves_ops(1)])
  from moves_seq [OF this moves_ops(3) [of c]] t show ?thesis
    unfolding bumpAttached_def Let_def by (auto elim: moves_mono)
qed

lemma announced_attach:
  assumes "keyed_ok d" and "attachChildTx E p rules d = Inr (adopted, d')"
  shows "announced d d' (bumpAttached (clParent p) (clChild p) adopted)"
  using attach_effect [OF assms] moves_attached announced_moves by blast

lemma announced_detach:
  assumes "keyed_ok d" and "detachTx p c d = Inr (stub, d')"
  shows "announced d d' (bumpDetached p c stub)"
proof -
  obtain parent child where a: "om_get (bTopics d) p = Some parent" "om_get (bTopics d) c = Some child"
    and e: "detachChildTx p c parent child d = Inr (stub, d')"
    using assms(2) by (auto simp: detachTx_def bind_sum_Inr)
  define d1 where "d1 = putTopicRecord (unlinkChild c parent) d"
  have n: "tName (unlinkChild c parent) = p" "tName (standalone child) = c"
    using keyed_topic [OF assms(1)] a by (simp_all add: unlinkChild_def standalone_def Let_def)
  have one: "announced d d1 (bumpTopic p)" using announced_topic [OF assms(1)] n(1) unfolding d1_def by metis
  have "announced d1 d' (if stub then retireTopic c else bumpTopic c)" if "keyed_ok d1"
    using e announced_delete [OF that, of c] announced_topic [OF that, of "standalone child"] n(2)
    by (auto simp: detachChildTx_def d1_def Let_def split: if_splits)
  from announced_seq [OF one this] show ?thesis
    by (cases stub) (simp_all add: bumpDetached_def [abs_def] Let_def)
qed


text \<open>Delete: the topic, the gones that go with it, and the topics it unlinks.\<close>

definition dead_keys :: "string \<Rightarrow> dv_key set" where
  "dead_keys n = {KTopic n, KAssignment n, KSchema n}"

definition gone_keys :: "string list \<Rightarrow> string list \<Rightarrow> dv_key set" where
  "gone_keys linked gones = KTopic ` set linked \<union> \<Union> (dead_keys ` set gones)"

lemma dissolve_effect:
  assumes "dissolve_children name cs (L, S, d) = (L', S', d')" and "keyed_ok d"
  shows "keyed_ok d' \<and> set L \<subseteq> set L' \<and> set S \<subseteq> set S' \<and> same_outside (gone_keys L' S') d d'"
  using assms
proof (induction name cs "(L, S, d)" arbitrary: L S d rule: dissolve_children.induct)
  case (2 name c cs L S d)
  show ?case
  proof (cases "om_get (bTopics d) c")
    case None
    then show ?thesis using 2(1) [OF None] 2(4,5) by simp
  next
    case (Some child)
    show ?thesis
    proof (cases "IsRemoteChild child \<and> tParent child = name")
      case True
      then have r: "keyed_ok d' \<and> set L \<subseteq> set L' \<and> set (S @ [c]) \<subseteq> set S' \<and> same_outside (gone_keys L' S') (deleteTopicRecords c d) d'"
        using 2(2) [OF Some True] 2(4,5) Some by simp
      have "same_outside (dead_keys c \<union> gone_keys L' S') d d'"
        unfolding dead_keys_def using same_outside_trans [OF same_delete] r by blast
      moreover have "dead_keys c \<union> gone_keys L' S' = gone_keys L' S'" using r by (auto simp: gone_keys_def)
      ultimately show ?thesis using r by simp
    next
      case False
      have "dissolve_children name cs (L @ [c], S, putTopicRecord (standalone child) d) = (L', S', d')"
        using 2(4) unfolding dissolve_children.simps Some option.case if_not_P [OF False] .
      from 2(3) [OF Some False this] 2(5)
      have r: "keyed_ok d' \<and> set (L @ [c]) \<subseteq> set L' \<and> set S \<subseteq> set S' \<and>
          same_outside (gone_keys L' S') (putTopicRecord (standalone child) d) d'"
        by simp
      have "tName (standalone child) = c" using keyed_topic [OF 2(5) Some] by (simp add: standalone_def)
      then have "same_outside ({KTopic c} \<union> gone_keys L' S') d d'"
        using same_outside_trans [OF same_put_as] r by blast
      moreover have "{KTopic c} \<union> gone_keys L' S' = gone_keys L' S'" using r by (auto simp: gone_keys_def)
      ultimately show ?thesis using r by simp
    qed
  qed
qed simp

lemma dissolveLinks_effect:
  assumes "keyed_ok d" and "dissolveFanoutLinks name d = Inr ((linked, gones), d')"
  shows "keyed_ok d' \<and> same_outside (gone_keys linked gones) d d'"
proof -
  obtain t where t: "om_get (bTopics d) name = Some t"
    using assms(2) by (auto simp: dissolveFanoutLinks_def bind_sum_Inr)
  obtain L G d1 where
    s: "(if IsParent t then dissolve_children name (tChildren t) ([], [], d) else ([], [], d)) = (L, G, d1)"
    by (rule prod_cases3)
  have e: "G = gones \<and> ((linked = L \<and> d' = d1) \<or>
      (\<exists>parent. om_get (bTopics d1) (tParent t) = Some parent \<and> linked = L @ [tParent t] \<and>
         d' = putTopicRecord (unlinkChild name parent) d1))"
    using assms(2) unfolding dissolveFanoutLinks_def bind_sum_Inr getTopicRecord_Inr t
    by (auto simp: s Let_def split: if_splits option.splits)
  have d1: "keyed_ok d1 \<and> same_outside (gone_keys L gones) d d1"
    using s e dissolve_effect [OF _ assms(1)] assms(1) by (auto split: if_splits)
  note e = conjunct2 [OF e]
  from e show ?thesis
  proof (elim disjE exE conjE)
    fix parent assume p: "om_get (bTopics d1) (tParent t) = Some parent" "linked = L @ [tParent t]"
      "d' = putTopicRecord (unlinkChild name parent) d1"
    have "tName (unlinkChild name parent) = tParent t"
      using keyed_topic [OF _ p(1)] d1 by (simp add: unlinkChild_def Let_def)
    then have "same_outside (gone_keys L gones \<union> {KTopic (tParent t)}) d d'"
      using same_outside_trans [OF _ same_put_as] d1 p(3) by blast
    then show ?thesis using d1 p by (auto simp: gone_keys_def elim!: same_outside_mono)
  qed (use d1 in simp)
qed

lemma moves_retired: "moves (retireDeletedTopic n (linked, gones)) (dead_keys n \<union> gone_keys linked gones)"
proof -
  have "moves (\<lambda>v. fold bumpTopic linked (fold retireTopic gones (retireTopic n v)))
      ((dead_keys n \<union> \<Union> (dead_keys ` set gones)) \<union> \<Union> ((\<lambda>n. {KTopic n}) ` set linked))"
    unfolding dead_keys_def by (intro moves_seq moves_fold moves_ops)
  then show ?thesis
    unfolding retireDeletedTopic_def [abs_def] Let_def fst_conv snd_conv by (rule moves_mono) (auto simp: gone_keys_def)
qed

lemma announced_deleteTopic:
  assumes "keyed_ok d" and "deleteTopicTx n d = Inr (ls, d')"
  shows "announced d d' (retireDeletedTopic n ls)"
proof -
  obtain linked gones where ls: "ls = (linked, gones)" by fastforce
  obtain d1 where s: "dissolveFanoutLinks n d = Inr ((linked, gones), d1)" and d': "d' = deleteTopicRecords n d1"
    using assms(2) ls by (auto simp: deleteTopicTx_def bind_sum_Inr split: if_splits)
  note e = dissolveLinks_effect [OF assms(1) s]
  have "same_outside (gone_keys linked gones \<union> dead_keys n) d d'"
    unfolding d' dead_keys_def using same_outside_trans [OF _ same_delete] e by blast
  then have "same_outside (dead_keys n \<union> gone_keys linked gones) d d'" by (simp add: Un_commute)
  then show ?thesis unfolding ls using e moves_retired by (intro announced_moves) (simp_all add: d')
qed

text \<open>Create in one entry.\<close>

lemma moves_created:
  "moves (bumpCreated p out)
     ({KTopic (tName (cwTopic p))} \<union> (if rowsCleared out then {KAssignment (tName (cwTopic p))} else {}) \<union>
      (if schemaChanged out then {KSchema (tName (cwTopic p))} else {}) \<union>
      (case cwLink p of None \<Rightarrow> {} | Some link \<Rightarrow> {KTopic (lkParent link)}))"
proof -
  let ?n = "tName (cwTopic p)"
  define b1 where "b1 = (\<lambda>v. if rowsCleared out then bumpAssignment ?n v else v)"
  define b2 where "b2 = (\<lambda>v. if schemaChanged out then bumpSchema ?n v else v)"
  define b3 where "b3 = (\<lambda>v. case cwLink p of None \<Rightarrow> v | Some link \<Rightarrow> bumpTopic (lkParent link) v)"
  have "moves b1 (if rowsCleared out then {KAssignment ?n} else {})"
    using moves_ops(2) moves_id by (simp add: b1_def)
  moreover have "moves b2 (if schemaChanged out then {KSchema ?n} else {})"
    using moves_ops(3) moves_id by (simp add: b2_def)
  moreover have "moves b3 (case cwLink p of None \<Rightarrow> {} | Some link \<Rightarrow> {KTopic (lkParent link)})"
    using moves_ops(1) moves_id by (simp add: b3_def split: option.splits)
  moreover have "bumpCreated p out = (\<lambda>v. b3 (b2 (b1 (bumpTopic ?n v))))"
    by (rule ext) (simp add: bumpCreated_def Let_def b1_def b2_def b3_def split: option.splits)
  ultimately show ?thesis by (simp only:) (intro moves_seq moves_ops)
qed

lemma clear_prefix:
  assumes "x \<noteq> n \<or> om_filter (\<lambda>k. fst k = n) m = []"
  shows "om_filter (\<lambda>k. fst k = x) (om_filter (\<lambda>k. fst k \<noteq> n) m) = om_filter (\<lambda>k. fst k = x) m"
proof (cases "x = n")
  case True
  then have "om_filter (\<lambda>k. fst k = n) m = []" using assms by simp
  then have "om_filter (\<lambda>k. fst k \<noteq> n) m = m" by (auto simp: om_filter_def filter_empty_conv filter_id_conv)
  then show ?thesis by simp
next
  case False
  then show ?thesis by (simp add: filter_om_filter)
qed

lemma clear_rows_effect:
  assumes "keyed_ok d"
    and "d' = d\<lparr>bAssignments := om_filter (\<lambda>k. fst k \<noteq> n) (bAssignments d), bSchemas := om_filter (\<lambda>k. fst k \<noteq> n) (bSchemas d)\<rparr>"
  shows "keyed_ok d' \<and> same_outside
    ((if 0 < length (om_filter (\<lambda>k. fst k = n) (bAssignments d)) then {KAssignment n} else {}) \<union>
     (if 0 < length (om_filter (\<lambda>k. fst k = n) (bSchemas d)) then {KSchema n} else {})) d d'"
proof
  show "keyed_ok d'" using assms by (auto simp: keyed_ok_def)
  show "same_outside ((if 0 < length (om_filter (\<lambda>k. fst k = n) (bAssignments d)) then {KAssignment n} else {}) \<union>
     (if 0 < length (om_filter (\<lambda>k. fst k = n) (bSchemas d)) then {KSchema n} else {})) d d'"
  proof (rule same_outsideI)
    fix x
    assume "KAssignment x \<notin> (if 0 < length (om_filter (\<lambda>k. fst k = n) (bAssignments d)) then {KAssignment n} else {}) \<union>
       (if 0 < length (om_filter (\<lambda>k. fst k = n) (bSchemas d)) then {KSchema n} else {})"
    then show "om_filter (\<lambda>k. fst k = x) (bAssignments d') = om_filter (\<lambda>k. fst k = x) (bAssignments d)"
      using clear_prefix [of x n "bAssignments d"] by (simp add: assms(2) split: if_splits)
  next
    fix x
    assume "KSchema x \<notin> (if 0 < length (om_filter (\<lambda>k. fst k = n) (bAssignments d)) then {KAssignment n} else {}) \<union>
       (if 0 < length (om_filter (\<lambda>k. fst k = n) (bSchemas d)) then {KSchema n} else {})"
    then show "om_filter (\<lambda>k. fst k = x) (bSchemas d') = om_filter (\<lambda>k. fst k = x) (bSchemas d)"
      using clear_prefix [of x n "bSchemas d"] by (simp add: assms(2) split: if_splits)
  qed (simp_all add: assms(2) routing_of_def [abs_def])
qed


lemma announced_createWith:
  assumes "keyed_ok d" and "createTopicWithTx E p d = Inr (out, d')"
  shows "announced d d' (bumpCreated p out)"
proof -
  let ?n = "tName (cwTopic p)"
  define d1 where "d1 = putTopicRecord (cwTopic p) d"
  define d2 where "d2 = d1\<lparr>bAssignments := om_filter (\<lambda>k. fst k \<noteq> ?n) (bAssignments d1),
      bSchemas := om_filter (\<lambda>k. fst k \<noteq> ?n) (bSchemas d1)\<rparr>"
  define rows where "rows = (0 < length (om_filter (\<lambda>k. fst k = ?n) (bAssignments d1)))"
  define changed where "changed = (cwSchema p \<noteq> '''' \<or> 0 < length (om_filter (\<lambda>k. fst k = ?n) (bSchemas d1)))"
  define d3 where "d3 = (if cwSchema p \<noteq> '''' then putSchema ?n 1 (cwSchema p) d2 else d2)"
  let ?K = "{KTopic ?n} \<union> (if rows then {KAssignment ?n} else {}) \<union> (if changed then {KSchema ?n} else {})"
  have k1: "keyed_ok d1" unfolding d1_def using assms(1) by simp
  note c = clear_rows_effect [OF k1 d2_def]
  have k3: "keyed_ok d3" using c by (simp add: d3_def)
  have s2: "same_outside ({KTopic ?n} \<union> (if rows then {KAssignment ?n} else {}) \<union>
      (if 0 < length (om_filter (\<lambda>k. fst k = ?n) (bSchemas d1)) then {KSchema ?n} else {})) d d2"
    using same_outside_trans [OF same_put [of "cwTopic p" d, folded d1_def] conjunct2 [OF c]]
    by (simp add: rows_def Un_assoc)
  have s3: "same_outside ?K d d3"
  proof (cases "cwSchema p = ''''")
    case True
    then show ?thesis using s2 by (simp add: d3_def changed_def)
  next
    case False
    show ?thesis
      unfolding d3_def if_P [OF False]
      by (rule same_outside_mono [OF same_outside_trans [OF s2 same_putSchema]]) (use False in \<open>auto simp: changed_def\<close>)
  qed
  have e: "(cwLink p = None \<and> out = \<lparr>rowsCleared = rows, schemaChanged = changed\<rparr> \<and> d' = d3) \<or>
    (\<exists>link adopted. cwLink p = Some link \<and> out = \<lparr>rowsCleared = rows, schemaChanged = changed \<or> adopted\<rparr> \<and>
       attachChildTx E \<lparr>clParent = lkParent link, clChild = ?n, clEpoch = lkEpoch link, clDelayMs = lkDelayMs link,
         clOffsets = lkOffsets link\<rparr> strictRules d3 = Inr (adopted, d'))"
    using assms(2) unfolding createTopicWithTx_def deletePrefix_def Let_def d1_def [symmetric] prod.case
      d2_def [symmetric] d3_def rows_def changed_def
    by (auto simp: bind_sum_Inr split: if_splits option.splits)
  then show ?thesis
  proof (elim disjE exE conjE)
    assume "cwLink p = None" "out = \<lparr>rowsCleared = rows, schemaChanged = changed\<rparr>" "d' = d3"
    then show ?thesis using announced_moves [OF k3 s3] moves_created [of p out] by simp
  next
    fix link adopted
    assume l: "cwLink p = Some link" "out = \<lparr>rowsCleared = rows, schemaChanged = changed \<or> adopted\<rparr>"
      and a: "attachChildTx E \<lparr>clParent = lkParent link, clChild = ?n, clEpoch = lkEpoch link, clDelayMs = lkDelayMs link,
         clOffsets = lkOffsets link\<rparr> strictRules d3 = Inr (adopted, d')"
    note t = attach_effect [OF k3 a, simplified]
    have "same_outside ({KTopic ?n} \<union> (if rowsCleared out then {KAssignment ?n} else {}) \<union>
        (if schemaChanged out then {KSchema ?n} else {}) \<union> {KTopic (lkParent link)}) d d'"
      by (rule same_outside_mono [OF same_outside_trans [OF s3 conjunct2 [OF t]]]) (auto simp: l split: if_splits)
    then show ?thesis using t moves_created [of p out] l by (intro announced_moves) simp_all
  qed
qed

text \<open>Members and assignments.\<close>

lemma announced_members:
  assumes "keyed_ok d" and "bTopics d' = bTopics d" "bAssignments d' = bAssignments d" "bSchemas d' = bSchemas d"
    "bUsers d' = bUsers d" "bRemotes d' = bRemotes d"
    and "\<not> changed \<Longrightarrow> routing_of d' = routing_of d"
  shows "announced d d' (bumpRoutingIf changed)"
proof (rule announced_moves)
  show "keyed_ok d'" using assms by (auto intro: keyed_same)
  show "same_outside (if changed then {KRouting} else {}) d d'"
    by (rule same_outsideI) (use assms in \<open>auto split: if_splits\<close>)
  show "moves (bumpRoutingIf changed) (if changed then {KRouting} else {})"
    using moves_ops(5) moves_id by (cases changed) (simp_all add: bumpRoutingIf_def [abs_def])
qed

lemma routing_put:
  assumes "om_get (bMembers d) i = Some m" and "bMembers d' = om_put i m' (bMembers d)"
    and "mID m' = mID m" "mAddr m' = mAddr m" "mClusterAddr m' = mClusterAddr m" "mStatus m' = mStatus m"
  shows "routing_of d' = routing_of d"
  using assms by (auto simp: routing_of_def fun_eq_iff)

lemma bumpRoutingIf_False: "bumpRoutingIf False = (\<lambda>v. v)"
  by (simp add: bumpRoutingIf_def [abs_def])

lemma announced_join:
  assumes "keyed_ok d" and "memberJoinTx m d = Inr (changed, d')"
  shows "announced d d' (bumpRoutingIf changed)"
proof (cases "om_get (bMembers d) (mID m)")
  case None
  then show ?thesis using assms by (intro announced_members) (auto simp: memberJoinTx_def putMember_def split: if_splits)
next
  case (Some c)
  show ?thesis
  proof (rule announced_members [OF assms(1)])
    assume "\<not> changed"
    then show "routing_of d' = routing_of d"
      using assms(2) Some
      by (intro routing_put [OF Some, where m' = "m\<lparr>mDraining := mDraining c\<rparr>"])
        (auto simp: memberJoinTx_def putMember_def sameRoutingMember_def Let_def split: if_splits)
  qed (use assms(2) Some in \<open>auto simp: memberJoinTx_def putMember_def Let_def split: if_splits\<close>)
qed

lemma announced_memberDead:
  assumes "keyed_ok d" and "om_get (bMembers d) i = Some m"
  shows "announced d (d\<lparr>bMembers := om_put i (m\<lparr>mStatus := MemberDead\<rparr>) (bMembers d)\<rparr>) (bumpRoutingIf (mStatus m \<noteq> MemberDead))"
  by (rule announced_members [OF assms(1)]) (auto intro: routing_put [OF assms(2)])

lemma announced_member_quiet:
  assumes "keyed_ok d" and "om_get (bMembers d) i = Some m"
    and "mID m' = mID m" "mAddr m' = mAddr m" "mClusterAddr m' = mClusterAddr m" "mStatus m' = mStatus m"
  shows "announced d (d\<lparr>bMembers := om_put i m' (bMembers d)\<rparr>) (\<lambda>v. v)"
  using announced_members [OF assms(1), where changed = False and d' = "d\<lparr>bMembers := om_put i m' (bMembers d)\<rparr>"]
    routing_put [OF assms(2) _ assms(3-6)] by (simp add: bumpRoutingIf_False)

lemma announced_remove:
  assumes "keyed_ok d" and "removeMemberTx p d = Inr (changed, d')"
  shows "announced d d' (bumpRoutingIf changed)"
  by (rule announced_members [OF assms(1)])
    (use assms(2) in \<open>auto simp: removeMemberTx_def routing_of_def fun_eq_iff om_mem_def\<close>)

lemma announced_readmit:
  assumes "keyed_ok d"
  shows "announced d (d\<lparr>bRemovedMembers := x\<rparr>) (\<lambda>v. v)"
  using announced_members [OF assms, where changed = False and d' = "d\<lparr>bRemovedMembers := x\<rparr>"]
  by (simp add: bumpRoutingIf_False routing_of_def [abs_def])

lemma announced_row_kept: "keyed_ok d \<Longrightarrow> announced d d (bumpAssignmentIf n False)"
  using announced_none by (simp add: bumpAssignmentIf_def [abs_def])

lemma announced_row_put:
  assumes "keyed_ok d" and "om_get (bAssignments d) (n, i) = Some a" and "aTopic a' = aTopic a"
  shows "announced d (putAssignment a' d) (bumpAssignmentIf n True)"
  using announced_assignment [OF assms(1), of a'] keyed_row [OF assms(1,2)] assms(3)
  by (simp add: bumpAssignmentIf_def [abs_def])

lemma announced_moves_entries:
  assumes "keyed_ok d"
  shows "setAssignmentTargetTx p d = Inr (c, d') \<Longrightarrow> announced d d' (bumpAssignmentIf (atTopic p) c)"
    and "completeMoveTx q d = Inr (c, d') \<Longrightarrow> announced d d' (bumpAssignmentIf (cmTopic q) c)"
    and "abortMoveTx r d = Inr (c, d') \<Longrightarrow> announced d d' (bumpAssignmentIf (amTopic r) c)"
  using assms
  by (auto simp: setAssignmentTargetTx_def completeMoveTx_def abortMoveTx_def readAssignment_def bind_sum_Inr
      split: option.splits if_splits intro: announced_row_kept announced_row_put)

lemma announced_prune:
  assumes "keyed_ok d" and "pruneAssignmentTx p d = Inr (gone, d')"
  shows "announced d d' (if gone then retireAssignments (paTopic p) else bumpAssignment (paTopic p))"
proof (rule announced_moves)
  have d': "d' = d\<lparr>bAssignments := om_del (paTopic p, paPartition p) (bAssignments d)\<rparr>"
    using assms(2) by (auto simp: pruneAssignmentTx_def Let_def split: if_splits option.splits)
  show "keyed_ok d'" using assms(1) by (auto simp: d' keyed_ok_def)
  show "same_outside {KAssignment (paTopic p)} d d'"
    by (rule same_outsideI) (auto simp: d' routing_of_def filter_om_del)
  show "moves (if gone then retireAssignments (paTopic p) else bumpAssignment (paTopic p)) {KAssignment (paTopic p)}"
    using moves_ops by simp
qed


text \<open>Users and remotes.\<close>

lemma release_keyed:
  assumes "keyed_ok d"
  shows "announced d (fold (\<lambda>t. putTopicRecord (t\<lparr>tOwner := x\<rparr>)) ts d) (fold bumpTopic (map tName ts))"
proof -
  have "announced e (putTopicRecord (t\<lparr>tOwner := x\<rparr>) e) (bumpTopic (tName t))" if "keyed_ok e" for t e
    using announced_topic [OF that, of "t\<lparr>tOwner := x\<rparr>"] by simp
  from announced_fold [OF assms this] show ?thesis by (simp add: fold_map comp_def)
qed

lemma announced_release:
  assumes "keyed_ok d" and "deleteUserReleaseTopicsTx u d = Inr (released, d')"
  shows "announced d d' (\<lambda>v. fold bumpTopic released (bumpUsers v))"
proof -
  define d1 where "d1 = d\<lparr>bUsers := om_del u (bUsers d)\<rparr>"
  have "released = map tName (topicsOwnedBy d1 u)"
    and "d' = fold (\<lambda>t. putTopicRecord (t\<lparr>tOwner := ''''\<rparr>)) (topicsOwnedBy d1 u) d1"
    using assms(2) by (auto simp: deleteUserReleaseTopicsTx_def deleteUserRecord_def releaseOwnedTopics_def Let_def
        bind_sum_Inr d1_def split: option.splits if_splits)
  then show ?thesis
    using announced_seq [OF announced_users [OF assms(1)] release_keyed] unfolding d1_def by simp
qed

lemma announced_keys: "keyed_ok d \<Longrightarrow> announced d (d\<lparr>bKeys := ks\<rparr>) (\<lambda>v. v)"
  by (rule announced_quiet [OF keyed_same same_outsideI]) (auto simp: routing_of_def)

lemma putRemote_commits:
  assumes "keyed_ok d" and "putRemoteTx p d = Inr (None, d')"
  shows "announced d d' bumpRemotes"
  using assms announced_remotes by (auto simp: putRemoteTx_def Let_def split: option.splits prod.splits)

lemma announced_remotes_only: "keyed_ok d \<Longrightarrow> announced d (d\<lparr>bRemotes := rs\<rparr>) bumpRemotes"
  using announced_remotes [of d "bKeys d" rs] by simp

lemma announced_keys_remotes: "keyed_ok d \<Longrightarrow> announced d (d\<lparr>bKeys := ks, bRemotes := rs\<rparr>) bumpRemotes"
  using announced_remotes [of d ks rs] by (cases d) simp

lemma updateRemote_commits:
  assumes "keyed_ok d" and "updateRemoteTx E p d = Inr (None, d')"
  shows "announced d d' bumpRemotes"
  using assms(2) announced_remotes_only [OF assms(1)] announced_keys_remotes [OF assms(1)]
  by (auto simp: updateRemoteTx_def Let_def split: option.splits prod.splits sum.splits)

lemma announced_refusable:
  assumes "keyed_ok d" and "eff_refusable fn bumpRemotes d = Inr (r, d', b)"
    and "\<And>d'. fn d = Inr (None, d') \<Longrightarrow> announced d d' bumpRemotes"
    and "\<And>e d'. fn d = Inr (Some e, d') \<Longrightarrow> d' = d\<lparr>bKeys := bKeys d'\<rparr>"
  shows "announced d d' b"
proof -
  have "(fn d = Inr (None, d') \<and> b = bumpRemotes) \<or> (\<exists>e. fn d = Inr (Some e, d') \<and> b = (\<lambda>v. v))"
    using assms(2) by (auto simp: eff_refusable_def split: sum.splits option.splits)
  then show ?thesis using assms(3,4) announced_keys [OF assms(1), of "bKeys d'"] by metis
qed

text \<open>Single topic records.\<close>

lemma announced_topic_as: "keyed_ok d \<Longrightarrow> tName t = n \<Longrightarrow> announced d (putTopicRecord t d) (bumpTopic n)"
  using announced_topic by blast

lemma announced_config:
  assumes "keyed_ok d"
  shows "createTopicTx t d = Inr (x, d') \<Longrightarrow> announced d d' (bumpTopic (tName t))"
    and "updateTopicTx t d = Inr (x, d') \<Longrightarrow> announced d d' (bumpTopic (tName t))"
    and "updateTopicIfTx p d = Inr (x, d') \<Longrightarrow> announced d d' (bumpTopic (tName (uiTopic p)))"
    and "setRemoteChildStateTx E q d = Inr (x, d') \<Longrightarrow> announced d d' (bumpTopic (rsStub q))"
  using assms keyed_topic [OF assms]
  by (auto simp: createTopicTx_def updateTopicTx_def updateTopicIfTx_def setRemoteChildStateTx_def keep_link_def Let_def
      bind_sum_Inr split: if_splits intro!: announced_topic_as)

lemma announced_attachRemote:
  assumes "keyed_ok d" and "attachRemoteChildTx p d = Inr (x, d')"
  shows "announced d d' (\<lambda>v. bumpTopic (arStub p) (bumpTopic (arParent p) v))"
proof -
  obtain parent where p: "om_get (bTopics d) (arParent p) = Some parent"
    and d': "d' = putTopicRecord (stubOf p) (putTopicRecord (parent\<lparr>tRole := RoleParent, tChildren := tChildren parent @ [arStub p]\<rparr>) d)"
    using assms(2) by (auto simp: attachRemoteChildTx_def Let_def bind_sum_Inr split: if_splits)
  show ?thesis
    unfolding d'
  proof (rule announced_seq [OF announced_topic_as [OF assms(1)] announced_topic_as])
    show "tName (parent\<lparr>tRole := RoleParent, tChildren := tChildren parent @ [arStub p]\<rparr>) = arParent p"
      using keyed_topic [OF assms(1) p] by simp
    show "tName (stubOf p) = arStub p" by (simp add: stubOf_def)
  qed
qed


lemma eff_commits: "eff fn bump d = Inr (r, d', b) \<longleftrightarrow> (\<exists>x. fn d = Inr (x, d') \<and> r = Inr () \<and> b = bump x)"
  by (auto simp: eff_def split: sum.splits)

lemma incarnation_checked:
  "deleteTopicIfTx p d = Inr x \<Longrightarrow> deleteTopicTx (diName p) d = Inr x"
  "attachChildIfTx E q d = Inr y \<Longrightarrow> attachChildTx E (aiLink q) strictRules d = Inr y"
  "detachChildIfTx s d = Inr y \<Longrightarrow> detachTx (dtParent s) (dtChild s) d = Inr y"
  by (auto simp: deleteTopicIfTx_def attachChildIfTx_def detachChildIfTx_def bind_sum_Inr)

text \<open>
  Whatever an entry changes, it announces; and the rows stay stored under the keys they name.
\<close>

lemma exec_announces:
  assumes "keyed_ok d" and "exec E c d = Inr (r, d', b)"
  shows "announced d d' b"
proof (cases c)
  case (OpPutRemote p)
  then show ?thesis
    using assms putRemote_commits putRemote_refuses_keys by (auto split: if_splits intro: announced_refusable)
next
  case (OpUpdateRemote p)
  then show ?thesis
    using assms updateRemote_commits updateRemote_refuses_keys by (auto split: if_splits intro: announced_refusable)
next
  case (OpDeleteRemote p)
  have "announced d e bumpRemotes" if "deleteRemoteTx p d = Inr (None, e)" for e
    using that announced_remotes_only [OF assms(1)] by (auto simp: deleteRemoteTx_def split: sum.splits if_splits)
  moreover have "e = d\<lparr>bKeys := bKeys e\<rparr>" if "deleteRemoteTx p d = Inr (Some x, e)" for e x
    using deleteRemote_refuses [OF that] by simp
  ultimately show ?thesis using assms OpDeleteRemote by (auto intro: announced_refusable)
next
  case (OpCreateTopic p)
  then show ?thesis using assms(2) by (auto simp: eff_commits intro: announced_config(1) [OF assms(1)])
next
  case (OpUpdateTopic p)
  then show ?thesis using assms(2) by (auto simp: eff_commits intro: announced_config(2) [OF assms(1)])
next
  case (OpDeleteTopic p)
  then show ?thesis using assms(2) by (auto simp: eff_commits intro: announced_deleteTopic [OF assms(1)])
next
  case (OpPutSchema p)
  then show ?thesis using assms(2) by (auto simp: eff_commits intro: announced_putSchema [OF assms(1)])
next
  case (OpMemberJoin p)
  then show ?thesis using assms(2) by (auto simp: eff_commits intro: announced_join [OF assms(1)])
next
  case (OpAttachChild p)
  then show ?thesis using assms(2) by (auto simp: eff_commits intro: announced_attach [OF assms(1)])
next
  case (OpDetachChild p)
  then show ?thesis using assms(2) by (auto simp: eff_commits intro: announced_detach [OF assms(1)])
next
  case (OpSetAssignmentTarget p)
  then show ?thesis using assms(2) by (auto simp: eff_commits intro: announced_moves_entries(1) [OF assms(1)])
next
  case (OpCompleteMove p)
  then show ?thesis using assms(2) by (auto simp: eff_commits intro: announced_moves_entries(2) [OF assms(1)])
next
  case (OpAbortMove p)
  then show ?thesis using assms(2) by (auto simp: eff_commits intro: announced_moves_entries(3) [OF assms(1)])
next
  case (OpRemoveMember p)
  then show ?thesis using assms(2) by (auto simp: eff_commits intro: announced_remove [OF assms(1)])
next
  case (OpUpdateTopicIf p)
  then show ?thesis using assms(2) by (auto simp: eff_commits intro: announced_config(3) [OF assms(1)])
next
  case (OpPutSchemaIf p)
  then show ?thesis using assms(2) by (auto simp: eff_commits intro: announced_putSchemaIf [OF assms(1)])
next
  case (OpPruneAssignment p)
  then show ?thesis using assms(2) by (auto simp: eff_commits intro: announced_prune [OF assms(1)])
next
  case (OpDeleteUserReleaseTopics p)
  then show ?thesis using assms(2) by (auto simp: eff_commits intro: announced_release [OF assms(1)])
next
  case (OpAttachRemoteChild p)
  then show ?thesis using assms(2) by (auto simp: eff_commits intro: announced_attachRemote [OF assms(1)])
next
  case (OpSetRemoteChildState p)
  then show ?thesis using assms(2) by (auto simp: eff_commits intro: announced_config(4) [OF assms(1)])
next
  case (OpDeleteTopicIf p)
  then show ?thesis using assms(2)
    by (auto simp: eff_commits dest!: incarnation_checked(1) intro: announced_deleteTopic [OF assms(1)])
next
  case (OpAttachChildIf p)
  then show ?thesis using assms(2)
    by (auto simp: eff_commits dest!: incarnation_checked(2) intro: announced_attach [OF assms(1)])
next
  case (OpDetachChildIf p)
  then show ?thesis using assms(2)
    by (auto simp: eff_commits dest!: incarnation_checked(3) intro: announced_detach [OF assms(1)])
next
  case (OpCreateTopicWith p)
  then show ?thesis using assms(2)
    by (auto simp: eff_commits split: if_splits intro: announced_createWith [OF assms(1)])
next
  case (OpAssignPartition p)
  then show ?thesis using assms(2)
    by (auto simp: eff_commits assignPartitionTx_def intro: announced_assignment [OF assms(1)])
next
  case (OpReadmitMember p)
  then show ?thesis using assms(2)
    by (auto simp: eff_commits readmitMemberTx_def intro: announced_readmit [OF assms(1)])
next
  case (OpAssignPartitionIfAbsent p)
  then show ?thesis
    using assms(2) announced_assignment [OF assms(1), of "\<lparr>aTopic = iaTopic p, aPartition = iaPartition p, aOwnerID = iaOwnerID p, aTargetID = ''''\<rparr>"]
    by (auto simp: eff_commits assignPartitionIfAbsentTx_def bind_sum_Inr split: if_splits)
next
  case (OpMemberHeartbeat p)
  then show ?thesis using assms(2)
    by (auto simp: eff_commits memberHeartbeatTx_def split: option.splits intro: announced_member_quiet [OF assms(1)])
next
  case (OpSetMemberDraining p)
  then show ?thesis using assms(2)
    by (auto simp: eff_commits setMemberDrainingTx_def split: option.splits intro: announced_member_quiet [OF assms(1)])
next
  case (OpMemberDead p)
  then show ?thesis using assms(2)
    by (auto simp: eff_commits memberDeadTx_def split: option.splits if_splits intro: announced_memberDead [OF assms(1)])
next
  case (OpMarkMemberDeadIf p)
  then show ?thesis using assms(2)
    by (auto simp: eff_commits markMemberDeadIfTx_def split: option.splits if_splits intro: announced_memberDead [OF assms(1)])
next
  case (OpCreateUser p)
  then show ?thesis using assms(2)
    by (auto simp: eff_commits putNewUserTx_def split: option.splits if_splits intro: announced_users [OF assms(1)])
next
  case (OpSeedRootUser p)
  then show ?thesis using assms(2)
    by (auto simp: eff_commits putNewUserTx_def split: option.splits if_splits intro: announced_users [OF assms(1)])
next
  case (OpUpdateUser p)
  then show ?thesis using assms(2)
    by (auto simp: eff_commits updateUserTx_def Let_def split: option.splits if_splits intro: announced_users [OF assms(1)])
next
  case (OpDeleteUser p)
  then show ?thesis using assms(2)
    by (auto simp: eff_commits deleteUserRecord_def split: option.splits if_splits intro: announced_users [OF assms(1)])
next
  case (OpSetUserPassword p)
  then show ?thesis using assms(2)
    by (auto simp: eff_commits mutateUserTx_def bind_sum_Inr split: option.splits if_splits intro: announced_users [OF assms(1)])
next
  case (OpSetUserGrants p)
  then show ?thesis using assms(2)
    by (auto simp: eff_commits mutateUserTx_def bind_sum_Inr split: option.splits if_splits intro: announced_users [OF assms(1)])
qed


section \<open>The store as its readers see it\<close>

definition exec_tx ::
    "fsmEnv \<Rightarrow> command \<Rightarrow> Buckets \<Rightarrow> (Buckets \<times> (metadataDomainVersions \<Rightarrow> metadataDomainVersions)) option" where
  "exec_tx E c d = (case exec E c d of Inl e \<Rightarrow> None | Inr (r, d', b) \<Rightarrow> Some (d', b))"

lemma exec_tx_Some: "exec_tx E c d = Some (d', b) \<longleftrightarrow> (\<exists>r. exec E c d = Inr (r, d', b))"
  by (auto simp: exec_tx_def split: sum.splits)

lemma announcedD:
  assumes "announced d d' b"
  shows "keyed_ok d'" "dv_inv s \<Longrightarrow> dv_inv (b s)" "dv_inv s \<Longrightarrow> version_of s k \<le> version_of (b s) k"
    "dv_inv s \<Longrightarrow> reads d' k \<noteq> reads d k \<Longrightarrow> version_of s k < version_of (b s) k"
proof -
  obtain K where K: "keyed_ok d'" "same_outside K d d'" "\<And>v. dv_inv v \<Longrightarrow> moved v (b v) K"
    using assms by (auto simp: announced_def)
  show "keyed_ok d'" by (rule K(1))
  show "dv_inv s \<Longrightarrow> dv_inv (b s)" "dv_inv s \<Longrightarrow> version_of s k \<le> version_of (b s) k"
    using K(3) by (auto simp: moved_def)
  assume s: "dv_inv s" and "reads d' k \<noteq> reads d k"
  then have "k \<in> K" using K(2) by (auto simp: same_outside_def)
  then show "version_of s k < version_of (b s) k"
    using K(3) [OF s] version_of_le [OF s, of k] by (auto simp: moved_def intro: le_less_trans)
qed

interpretation meta: announcing_store reads version_of "exec_tx E" keyed_ok dv_inv for E
  by unfold_locales (auto simp: exec_tx_Some dest: exec_announces announcedD)

definition store_of :: "fsmState \<Rightarrow> (Buckets, metadataDomainVersions) store" where
  "store_of f = \<lparr>sDb = db f, sVers = versions f, sPending = None\<rparr>"

text \<open>For its readers one \<^verbatim>\<open>Apply\<close> is nothing at all, or one commit followed by its announcement.\<close>

lemma Apply_announces:
  assumes "Apply E dk l f = (r, f')"
  shows "store_of f' = store_of f \<or>
    (\<exists>c. leEntry l = Command c \<and> store_of f' = store_bump (store_commit (exec_tx E) c (store_of f)))"
  using assms
proof (cases rule: Apply_cases)
  case performed
  then show ?thesis
    by (auto simp: applies_def store_of_def store_commit_def store_bump_def exec_tx_def)
qed (auto simp: keeps_def store_of_def)

end
