(* ===== verification/Metadata_Cache.thy ===== *)
theory Metadata_Cache
  imports Meta_Announce
begin

text \<open>
  The broker's metadata caches (\<^verbatim>\<open>src/internal/broker/messaging/metadata_cache.go\<close>): topic records, assignment
  sets and routing members, read through \<^verbatim>\<open>lookupCached\<close>. A lookup is a little machine whose steps are the
  atomic actions of the source: one read of the version, one look into the map under the read lock, one
  read transaction of the store, one update of the map under the write lock. Any number of lookups
  interleave with each other, with the writes of the metastore (committed first, announced later) and with
  forgets of deleted topics.
\<close>

section \<open>The forget fence\<close>

definition fenceWindow :: nat where "fenceWindow = 256"

record forgetFence =
  fcount :: nat
  fkeys :: "string list"

definition newFence :: forgetFence where
  "newFence = \<lparr>fcount = 0, fkeys = replicate fenceWindow ''''\<rparr>"

definition fence_begin :: "forgetFence option \<Rightarrow> nat" where
  "fence_begin f = (case f of None \<Rightarrow> 0 | Some f \<Rightarrow> fcount f)"

fun clean_loop :: "string list \<Rightarrow> string \<Rightarrow> nat \<Rightarrow> nat \<Rightarrow> bool" where
  "clean_loop keys key token 0 = True"
| "clean_loop keys key token (Suc n) =
     (if Suc n > token then
        if keys ! (Suc n mod fenceWindow) = key then False else clean_loop keys key token n
      else True)"

definition fence_clean :: "forgetFence option \<Rightarrow> string \<Rightarrow> nat \<Rightarrow> bool" where
  "fence_clean f key token =
     (case f of
        None \<Rightarrow> True
      | Some f \<Rightarrow>
          let n = fcount f; token' = (if n - token > fenceWindow then n - fenceWindow else token)
          in clean_loop (fkeys f) key token' n)"

definition fence_forget :: "string \<Rightarrow> forgetFence \<Rightarrow> forgetFence" where
  "fence_forget key f =
     (let n = fcount f + 1 in f\<lparr>fkeys := (fkeys f)[n mod fenceWindow := key], fcount := n\<rparr>)"

section \<open>What the caches hold\<close>

record assignmentSet =
  asValues :: "Assignment list"
  asByPart :: "(int, Assignment) omap"
  asOwned :: "int list"

record routingMember =
  rmStatus :: string
  rmAddr :: string

definition ownerPartitions :: "Assignment list \<Rightarrow> string \<Rightarrow> int list" where
  "ownerPartitions rows ownerID = map aPartition (filter (\<lambda>a. aOwnerID a = ownerID) rows)"

definition newAssignmentSet :: "Assignment list \<Rightarrow> string \<Rightarrow> assignmentSet" where
  "newAssignmentSet rows selfID =
     \<lparr>asValues = rows, asByPart = fold (\<lambda>a. om_put (aPartition a) a) rows [],
      asOwned = (if selfID \<noteq> '''' then sort (ownerPartitions rows selfID) else [])\<rparr>"

text \<open>The store's reads. The assignment rows come in the order of their textual keys.\<close>

definition GetTopic :: "Buckets \<Rightarrow> string \<Rightarrow> Topic result" where
  "GetTopic d name =
     (case om_get (bTopics d) name of None \<Rightarrow> Inl ErrNotFound | Some t \<Rightarrow> Inr (t\<lparr>tRole := EffectiveRole t\<rparr>))"

definition ListAssignments :: "Buckets \<Rightarrow> string \<Rightarrow> Assignment list" where
  "ListAssignments d name =
     map snd (sort_key (\<lambda>(k, a). assignmentKey (fst k) (snd k)) (om_filter (\<lambda>k. fst k = name) (bAssignments d)))"

definition GetMember :: "Buckets \<Rightarrow> string \<Rightarrow> Member result" where
  "GetMember d podID = (case om_get (bMembers d) podID of None \<Rightarrow> Inl ErrNotFound | Some m \<Rightarrow> Inr m)"

definition loadTopic :: "Buckets \<Rightarrow> string \<Rightarrow> Topic result" where
  "loadTopic d name = (case GetTopic d name of Inl e \<Rightarrow> Inl (if e = ErrNotFound then ErrTopicNotFound else e) | Inr t \<Rightarrow> Inr t)"

definition loadAssignments :: "string \<Rightarrow> Buckets \<Rightarrow> string \<Rightarrow> assignmentSet result" where
  "loadAssignments selfID d name =
     (let rows = ListAssignments d name in if rows = [] then Inl ErrNoAssignments else Inr (newAssignmentSet rows selfID))"

definition loadRoutingMember :: "Buckets \<Rightarrow> string \<Rightarrow> routingMember result" where
  "loadRoutingMember d ident = bind_sum (GetMember d ident) (\<lambda>m. Inr \<lparr>rmStatus = mStatus m, rmAddr = mAddr m\<rparr>)"

text \<open>The three maps of the engine as one map from tagged keys to tagged values.\<close>

datatype cache_key = TopicEntry string | AssignmentEntry string | MemberEntry string

datatype cache_value = TopicValue Topic | AssignmentValue assignmentSet | MemberValue routingMember

fun cache_load :: "string \<Rightarrow> Buckets \<Rightarrow> cache_key \<Rightarrow> cache_value result" where
  "cache_load selfID d (TopicEntry n) = bind_sum (loadTopic d n) (\<lambda>t. Inr (TopicValue t))"
| "cache_load selfID d (AssignmentEntry n) = bind_sum (loadAssignments selfID d n) (\<lambda>s. Inr (AssignmentValue s))"
| "cache_load selfID d (MemberEntry i) = bind_sum (loadRoutingMember d i) (\<lambda>m. Inr (MemberValue m))"

fun domain_key :: "cache_key \<Rightarrow> dv_key" where
  "domain_key (TopicEntry n) = KTopic n"
| "domain_key (AssignmentEntry n) = KAssignment n"
| "domain_key (MemberEntry i) = KRouting"

fun dropOnError :: "cache_key \<Rightarrow> err \<Rightarrow> bool" where
  "dropOnError (TopicEntry n) e \<longleftrightarrow> e = ErrTopicNotFound"
| "dropOnError (AssignmentEntry n) e \<longleftrightarrow> e = ErrNoAssignments"
| "dropOnError (MemberEntry i) e \<longleftrightarrow> True"

fun fence_key :: "cache_key \<Rightarrow> string option" where
  "fence_key (TopicEntry n) = Some n"
| "fence_key (AssignmentEntry n) = Some n"
| "fence_key (MemberEntry i) = None"

section \<open>A lookup, action by action\<close>

datatype lookup_pc =
    Probe nat
  | Hit nat cache_value
  | Miss nat
  | Loading nat nat
  | Loaded nat nat "cache_value result"
  | Dropping err
  | Storing nat nat cache_value
  | Finished "cache_value result"

record Engine =
  selfID :: string
  metastore :: "(Buckets, metadataDomainVersions) store"
  viewReady :: bool
  cache :: "cache_key \<Rightarrow> (cache_value \<times> nat) option"
  cacheForgets :: forgetFence
  lookups :: "nat \<Rightarrow> (cache_key \<times> lookup_pc) option"

definition currentVersion :: "Engine \<Rightarrow> cache_key \<Rightarrow> nat" where
  "currentVersion e k = version_of (sVers (metastore e)) (domain_key k)"

definition fence_for :: "Engine \<Rightarrow> cache_key \<Rightarrow> forgetFence option" where
  "fence_for e k = map_option (\<lambda>_. cacheForgets e) (fence_key k)"

text \<open>\<^verbatim>\<open>ListAssignments\<close> refuses until the replica has caught up with the leader once.\<close>

definition load_now :: "Engine \<Rightarrow> cache_key \<Rightarrow> cache_value result" where
  "load_now e k =
     (case k of
        AssignmentEntry n \<Rightarrow> if viewReady e then cache_load (selfID e) (sDb (metastore e)) k else Inl ErrUnavailable
      | _ \<Rightarrow> cache_load (selfID e) (sDb (metastore e)) k)"

fun lookupCached :: "cache_key \<Rightarrow> lookup_pc \<Rightarrow> Engine \<Rightarrow> lookup_pc \<times> Engine" where
  "lookupCached k (Probe version) e =
     (case cache e k of
        Some (x, v) \<Rightarrow> (if v = version then Hit version x else Miss version, e)
      | None \<Rightarrow> (Miss version, e))"
| "lookupCached k (Hit version x) e =
     (if currentVersion e k = version then Finished (Inr x) else Probe (currentVersion e k), e)"
| "lookupCached k (Miss version) e = (Loading version (fence_begin (fence_for e k)), e)"
| "lookupCached k (Loading version token) e = (Loaded version token (load_now e k), e)"
| "lookupCached k (Loaded version token r) e =
     (if currentVersion e k \<noteq> version then Probe (currentVersion e k)
      else case r of
             Inl err \<Rightarrow> if dropOnError k err then Dropping err else Finished (Inl err)
           | Inr x \<Rightarrow> Storing version token x, e)"
| "lookupCached k (Dropping err) e = (Finished (Inl err), e\<lparr>cache := (cache e)(k := None)\<rparr>)"
| "lookupCached k (Storing version token x) e =
     (Finished (Inr x),
      if (case fence_key k of None \<Rightarrow> True | Some n \<Rightarrow> fence_clean (fence_for e k) n token)
      then e\<lparr>cache := (cache e)(k \<mapsto> (x, version))\<rparr> else e)"
| "lookupCached k (Finished r) e = (Finished r, e)"

datatype engine_event =
    Entry command
  | Announce
  | ViewReady
  | Call nat cache_key
  | Step nat
  | Forget string
  | ForgetSchemaLoad string

definition ForgetTopic :: "string \<Rightarrow> Engine \<Rightarrow> Engine" where
  "ForgetTopic n e =
     e\<lparr>cacheForgets := fence_forget n (cacheForgets e),
       cache := (cache e)(TopicEntry n := None, AssignmentEntry n := None)\<rparr>"

definition forgetSchemaLoad :: "string \<Rightarrow> Engine \<Rightarrow> Engine" where
  "forgetSchemaLoad n e = e\<lparr>cacheForgets := fence_forget n (cacheForgets e)\<rparr>"

fun engine_step :: "fsmEnv \<Rightarrow> engine_event \<Rightarrow> Engine \<Rightarrow> Engine" where
  "engine_step E (Entry c) e = e\<lparr>metastore := store_commit (exec_tx E) c (metastore e)\<rparr>"
| "engine_step E Announce e = e\<lparr>metastore := store_bump (metastore e)\<rparr>"
| "engine_step E ViewReady e = e\<lparr>viewReady := True\<rparr>"
| "engine_step E (Call i k) e = e\<lparr>lookups := (lookups e)(i \<mapsto> (k, Probe (currentVersion e k)))\<rparr>"
| "engine_step E (Step i) e =
     (case lookups e i of
        None \<Rightarrow> e
      | Some (k, pc) \<Rightarrow> let (pc', e') = lookupCached k pc e in e'\<lparr>lookups := (lookups e)(i \<mapsto> (k, pc'))\<rparr>)"
| "engine_step E (Forget n) e = ForgetTopic n e"
| "engine_step E (ForgetSchemaLoad n) e = forgetSchemaLoad n e"

definition newEngine :: "string \<Rightarrow> Engine" where
  "newEngine self = \<lparr>selfID = self, metastore = store_of newFSM, viewReady = False, cache = (\<lambda>_. None),
     cacheForgets = newFence, lookups = (\<lambda>_. None)\<rparr>"

definition engine_run :: "fsmEnv \<Rightarrow> string \<Rightarrow> engine_event list \<Rightarrow> Engine" where
  "engine_run E self evs = fold (engine_step E) evs (newEngine self)"

end
