(* ===== verification/Cache_Linear.thy ===== *)
theory Cache_Linear
  imports Metadata_Cache
begin

text \<open>
  The metadata caches are linearizable up to announcement: every lookup returns what the store held when
  the lookup last checked the version or, while an entry is committed and not yet announced, what it held
  just before that entry. They need nothing of the store but the announcing contract.
\<close>

section \<open>The caches as a client of the store\<close>

lemma loadRoutingMember_routing:
  "loadRoutingMember d i = (case routing_of d i of None \<Rightarrow> Inl ErrNotFound | Some (_, addr, _, status) \<Rightarrow>
     Inr \<lparr>rmStatus = status, rmAddr = addr\<rparr>)"
  by (simp add: loadRoutingMember_def GetMember_def routing_of_def split: option.splits)

lemma cache_load_reads:
  assumes "reads d' (domain_key k) = reads d (domain_key k)"
  shows "cache_load self d' k = cache_load self d k"
  using assms
  by (cases k) (simp_all add: loadTopic_def GetTopic_def loadAssignments_def ListAssignments_def loadRoutingMember_routing)

interpretation engine: announcing_view reads version_of "exec_tx E" keyed_ok dv_inv "cache_load self" domain_key
  for E self
  by unfold_locales (rule cache_load_reads)

abbreviation entry_ok :: "Engine \<Rightarrow> cache_key \<Rightarrow> nat \<Rightarrow> cache_value result \<Rightarrow> bool" where
  "entry_ok e k v r \<equiv> engine.views.stamped (selfID e) (metastore e) k v r"

fun pc_ok :: "Engine \<Rightarrow> cache_key \<Rightarrow> lookup_pc \<Rightarrow> bool" where
  "pc_ok e k (Probe v) \<longleftrightarrow> v \<le> currentVersion e k"
| "pc_ok e k (Hit v x) \<longleftrightarrow> entry_ok e k v (Inr x)"
| "pc_ok e k (Miss v) \<longleftrightarrow> v \<le> currentVersion e k"
| "pc_ok e k (Loading v t) \<longleftrightarrow> v \<le> currentVersion e k"
| "pc_ok e k (Loaded v t r) \<longleftrightarrow> v \<le> currentVersion e k \<and> (r = Inl ErrUnavailable \<or> entry_ok e k v r)"
| "pc_ok e k (Dropping err) \<longleftrightarrow> True"
| "pc_ok e k (Storing v t x) \<longleftrightarrow> entry_ok e k v (Inr x)"
| "pc_ok e k (Finished r) \<longleftrightarrow> True"

definition engine_ok :: "fsmEnv \<Rightarrow> Engine \<Rightarrow> bool" where
  "engine_ok E e \<longleftrightarrow> meta.store_ok E (metastore e) \<and>
     (\<forall>k x v. cache e k = Some (x, v) \<longrightarrow> entry_ok e k v (Inr x)) \<and>
     (\<forall>i k pc. lookups e i = Some (k, pc) \<longrightarrow> pc_ok e k pc)"

lemma engine_ok_new: "engine_ok E (newEngine self)"
  by (simp add: engine_ok_def newEngine_def store_of_def newFSM_def meta.store_ok_def)

text \<open>A change of the store that keeps stamps keeps everything.\<close>

lemma engine_ok_store:
  assumes "engine_ok E e" and "meta.store_ok E st"
    and "\<And>k v r. entry_ok e k v r \<Longrightarrow> engine.views.stamped (selfID e) st k v r"
    and "\<And>k. version_of (sVers (metastore e)) k \<le> version_of (sVers st) k"
  shows "engine_ok E (e\<lparr>metastore := st\<rparr>)"
proof -
  have "pc_ok (e\<lparr>metastore := st\<rparr>) k pc" if "pc_ok e k pc" for k pc
    using that assms(3) assms(4) [of "domain_key k"]
    by (cases pc) (auto simp: currentVersion_def intro: order_trans)
  then show ?thesis using assms(1-3) by (auto simp: engine_ok_def)
qed


lemma engine_ok_commit: "engine_ok E e \<Longrightarrow> engine_ok E (e\<lparr>metastore := store_commit (exec_tx E) c (metastore e)\<rparr>)"
  by (rule engine_ok_store)
    (auto simp: engine_ok_def intro: meta.store_ok_commit engine.views.stamped_commit)

lemma engine_ok_announce: "engine_ok E e \<Longrightarrow> engine_ok E (e\<lparr>metastore := store_bump (metastore e)\<rparr>)"
  by (rule engine_ok_store)
    (auto simp: engine_ok_def intro: meta.store_ok_bump engine.views.stamped_bump meta.ver_bump_mono)

text \<open>Lookups and forgets leave the store alone; stamps depend on nothing else.\<close>

lemma pc_ok_cong:
  assumes "metastore e' = metastore e" "selfID e' = selfID e"
  shows "pc_ok e' k pc = pc_ok e k pc"
  using assms by (cases pc) (simp_all add: currentVersion_def)

lemma engine_ok_same_store:
  assumes "engine_ok E e" and "metastore e' = metastore e" "selfID e' = selfID e"
    and "\<And>k x v. cache e' k = Some (x, v) \<Longrightarrow> cache e k = Some (x, v) \<or> entry_ok e k v (Inr x)"
    and "\<And>i k pc. lookups e' i = Some (k, pc) \<Longrightarrow> lookups e i = Some (k, pc) \<or> pc_ok e k pc"
  shows "engine_ok E e'"
proof -
  have "entry_ok e' k v (Inr x)" if "cache e' k = Some (x, v)" for k x v
    using assms(4) [OF that] assms(1-3) by (auto simp: engine_ok_def)
  moreover have "pc_ok e' k pc" if "lookups e' i = Some (k, pc)" for i k pc
    using assms(5) [OF that] assms(1) pc_ok_cong [OF assms(2,3)] by (auto simp: engine_ok_def)
  ultimately show ?thesis using assms(1,2) by (auto simp: engine_ok_def)
qed

lemma stamped_load:
  assumes "v \<le> currentVersion e k"
  shows "load_now e k = Inl ErrUnavailable \<or> entry_ok e k v (load_now e k)"
proof -
  have "load_now e k = Inl ErrUnavailable \<or> load_now e k = cache_load (selfID e) (sDb (metastore e)) k"
    by (auto simp: load_now_def split: cache_key.splits)
  then show ?thesis using engine.views.stamped_read assms unfolding currentVersion_def by metis
qed

lemma lookupCached_frame:
  assumes "lookupCached k pc e = (pc', e')"
  shows "metastore e' = metastore e" "selfID e' = selfID e" "lookups e' = lookups e"
  using assms by (cases pc; auto split: option.splits if_splits)+

lemma lookupCached_ok:
  assumes "engine_ok E e" and "pc_ok e k pc" and "lookupCached k pc e = (pc', e')"
  shows "pc_ok e k pc'" and "\<And>k' x v. cache e' k' = Some (x, v) \<Longrightarrow> cache e k' = Some (x, v) \<or> entry_ok e k' v (Inr x)"
proof -
  show "pc_ok e k pc'"
    using assms
  proof (cases pc)
    case (Loading v t)
    then show ?thesis using assms stamped_load by auto
  qed (auto simp: engine_ok_def split: option.splits if_splits sum.splits)
  show "\<And>k' x v. cache e' k' = Some (x, v) \<Longrightarrow> cache e k' = Some (x, v) \<or> entry_ok e k' v (Inr x)"
    using assms(2,3) by (cases pc) (auto split: option.splits if_splits)
qed

lemma engine_ok_step: "engine_ok E e \<Longrightarrow> engine_ok E (engine_step E ev e)"
proof (cases ev)
  case (Step i)
  assume ok: "engine_ok E e"
  show ?thesis
  proof (cases "lookups e i")
    case None
    then show ?thesis using ok Step by simp
  next
    case (Some p)
    obtain k pc where p: "p = (k, pc)" by fastforce
    obtain pc' e' where l: "lookupCached k pc e = (pc', e')" by fastforce
    have pk: "pc_ok e k pc" using ok Some p by (auto simp: engine_ok_def)
    note s = lookupCached_ok [OF ok pk l] and f = lookupCached_frame [OF l]
    have "engine_ok E (e'\<lparr>lookups := (lookups e)(i \<mapsto> (k, pc'))\<rparr>)"
      by (rule engine_ok_same_store [OF ok]) (use s f in \<open>auto split: if_splits\<close>)
    then show ?thesis using Step Some p l by simp
  qed
next
  case (Call i k)
  assume ok: "engine_ok E e"
  show ?thesis
    unfolding Call engine_step.simps by (rule engine_ok_same_store [OF ok]) (auto split: if_splits)
next
  case (Forget n)
  assume ok: "engine_ok E e"
  show ?thesis
    unfolding Forget engine_step.simps ForgetTopic_def by (rule engine_ok_same_store [OF ok]) (auto split: if_splits)
next
  case (ForgetSchemaLoad n)
  assume ok: "engine_ok E e"
  show ?thesis
    unfolding ForgetSchemaLoad engine_step.simps forgetSchemaLoad_def by (rule engine_ok_same_store [OF ok]) auto
next
  case ViewReady
  assume ok: "engine_ok E e"
  show ?thesis
    unfolding ViewReady engine_step.simps by (rule engine_ok_same_store [OF ok]) auto
qed (simp_all add: engine_ok_commit engine_ok_announce)

lemma engine_ok_run: "engine_ok E (engine_run E self evs)"
  by (induction evs rule: rev_induct) (simp_all add: engine_run_def engine_ok_new engine_ok_step)

section \<open>Linearizability\<close>

text \<open>The answer a lookup has settled on, if any.\<close>

fun settled :: "lookup_pc \<Rightarrow> cache_value result option" where
  "settled (Finished r) = Some r"
| "settled (Storing v t x) = Some (Inr x)"
| "settled (Dropping err) = Some (Inl err)"
| "settled _ = None"

lemma selfID_step: "selfID (engine_step E ev e) = selfID e"
proof (cases ev)
  case (Step i)
  then show ?thesis
    using lookupCached_frame(2) by (cases "lookups e i") (auto split: prod.splits)
qed (simp_all add: ForgetTopic_def forgetSchemaLoad_def)

lemma selfID_run: "selfID (engine_run E self evs) = self"
  by (induction evs rule: rev_induct) (simp_all add: engine_run_def newEngine_def selfID_step)

text \<open>
  C3. The metadata caches are linearizable up to announcement. Take any interleaving of metadata entries
  (each committed first and announced later), lookups, forgets of deleted topics and the moment the
  replica catches up. When a lookup settles on its answer, there are three cases: the answer is what
  loading the key from the store at that very moment gives; or an entry is committed and not yet
  announced at that moment, and the answer is what loading the key gave just before that entry, even if
  the lookup began after the commit; or it is the refusal of a replica that has not caught up. So once
  an entry is announced no lookup settles on what it replaced. An answer once settled is the one returned.
\<close>

theorem lookup_linearizable:
  assumes "e = engine_run E self evs" and "lookups e i = Some (k, pc)" and "settled pc = None"
    and "lookupCached k pc e = (pc', e')" and "settled pc' = Some r"
  shows "(r = Inl ErrUnavailable \<or> r = cache_load self (sDb (metastore e)) k \<or>
      (\<exists>old b. sPending (metastore e) = Some (old, b) \<and> r = cache_load self old k)) \<and>
    settled (fst (lookupCached k pc' e')) = Some r"
proof -
  have ok: "engine_ok E e" unfolding assms(1) by (rule engine_ok_run)
  have self: "selfID e = self" unfolding assms(1) by (rule selfID_run)
  have pk: "pc_ok e k pc" using ok assms(2) by (auto simp: engine_ok_def)
  have "r = Inl ErrUnavailable \<or> r \<in> current (cache_load self) (metastore e) k"
    using assms(3-5) pk unfolding self [symmetric]
    by (cases pc) (auto simp: currentVersion_def split: option.splits if_splits sum.splits
        intro: engine.views.stamped_current)
  moreover have "settled (fst (lookupCached k pc' e')) = Some r"
    using assms(5) by (cases pc') auto
  ultimately show ?thesis by (auto simp: current_def split: option.splits)
qed


text \<open>A run for the examples: a topic is created and announced, and looked up.\<close>

definition exEngineTopic :: Topic where
  "exEngineTopic = \<lparr>tName = ''t'', tID = ''i'', tPartitions = 1, tRetentionMs = 0, tVisibilityTimeoutMs = 30000,
     tMaxInFlightPerPartition = 100, tMaxAckedAheadPerPartition = 100, tCreatedAt = 0, tOwner = '''',
     tRole = RoleStandalone, tChildren = [], tParent = '''', tAttachEpoch = '''', tFanoutDelayMs = 0,
     tAttachOffsets = [], tRemote = None\<rparr>"

definition exEngineRun :: "engine_event list" where
  "exEngineRun = [Entry (OpCreateTopic exEngineTopic), Announce, Call 0 (TopicEntry ''t''), Step 0, Step 0, Step 0]"

theorem lookup_linearizable_witness:
  "lookups (engine_run exEnv ''n'' exEngineRun) 0 = Some (TopicEntry ''t'', Loaded 1 0 (Inr (TopicValue exEngineTopic))) \<and>
   cache_load ''n'' (sDb (metastore (engine_run exEnv ''n'' exEngineRun))) (TopicEntry ''t'') = Inr (TopicValue exEngineTopic)"
proof -
  let ?e = "engine_run exEnv ''n'' exEngineRun"
  let ?x = "TopicValue exEngineTopic"
  have l: "lookups ?e 0 = Some (TopicEntry ''t'', Loaded 1 0 (Inr ?x))" by code_simp
  have v: "currentVersion ?e (TopicEntry ''t'') = 1" by code_simp
  have "lookupCached (TopicEntry ''t'') (Loaded 1 0 (Inr ?x)) ?e = (Storing 1 0 ?x, ?e)" using v by simp
  from lookup_linearizable [OF refl l _ this, of "Inr ?x"]
  have m: "Inr ?x = cache_load ''n'' (sDb (metastore ?e)) (TopicEntry ''t'') \<or>
      (\<exists>old b. sPending (metastore ?e) = Some (old, b) \<and> Inr ?x = cache_load ''n'' old (TopicEntry ''t''))" by simp
  have "sPending (metastore ?e) = None" by code_simp
  then show ?thesis using l m by simp
qed

section \<open>Lookups end\<close>

text \<open>How many more actions of its own a lookup needs while the version stands still.\<close>

fun rank :: "lookup_pc \<Rightarrow> nat" where
  "rank (Probe v) = 5"
| "rank (Miss v) = 4"
| "rank (Loading v t) = 3"
| "rank (Loaded v t r) = 2"
| "rank (Hit v x) = 1"
| "rank (Dropping err) = 1"
| "rank (Storing v t x) = 1"
| "rank (Finished r) = 0"

fun based_on :: "lookup_pc \<Rightarrow> nat option" where
  "based_on (Probe v) = Some v"
| "based_on (Hit v x) = Some v"
| "based_on (Miss v) = Some v"
| "based_on (Loading v t) = Some v"
| "based_on (Loaded v t r) = Some v"
| "based_on _ = None"

definition outdated :: "Engine \<Rightarrow> cache_key \<Rightarrow> lookup_pc \<Rightarrow> bool" where
  "outdated e k pc \<longleftrightarrow> (\<exists>v. based_on pc = Some v \<and> v \<noteq> currentVersion e k)"

lemma rank_step:
  assumes "lookupCached k pc e = (pc', e')" and "rank pc \<noteq> 0"
  shows "(rank pc' < rank pc \<and> (outdated e k pc' \<longrightarrow> outdated e k pc)) \<or>
    (outdated e k pc \<and> rank pc' = 5 \<and> \<not> outdated e k pc')"
  using assms by (cases pc) (auto simp: outdated_def split: option.splits if_splits sum.splits)

fun own_steps :: "nat \<Rightarrow> engine_event list \<Rightarrow> nat" where
  "own_steps i evs = length (filter (\<lambda>ev. ev = Step i) evs)"

definition announcements :: "engine_event list \<Rightarrow> nat" where
  "announcements evs = length (filter (\<lambda>ev. ev = Announce) evs)"

text \<open>The steps taken and still needed, against five for the start and for each announcement.\<close>

definition in_budget :: "Engine \<Rightarrow> nat \<Rightarrow> nat \<Rightarrow> nat \<Rightarrow> cache_key \<Rightarrow> bool" where
  "in_budget e i n a k \<longleftrightarrow>
     (\<exists>pc. lookups e i = Some (k, pc) \<and>
       (rank pc \<noteq> 0 \<longrightarrow> n + rank pc + (if outdated e k pc then 5 else 0) \<le> 5 * (a + 1)))"

lemma in_budget_frame:
  assumes "in_budget e i n a k" and "lookups e' i = lookups e i" and "currentVersion e' k = currentVersion e k"
  shows "in_budget e' i n a k"
  using assms by (auto simp: in_budget_def outdated_def)

lemma in_budget_announce:
  assumes "in_budget e i n a k"
  shows "in_budget (e\<lparr>metastore := st\<rparr>) i n (Suc a) k"
proof -
  obtain pc where pc: "lookups e i = Some (k, pc)"
    and b: "rank pc \<noteq> 0 \<longrightarrow> n + rank pc + (if outdated e k pc then 5 else 0) \<le> 5 * (a + 1)"
    using assms by (auto simp: in_budget_def)
  have "n + rank pc + (if x then 5 else 0) \<le> 5 * (Suc a + 1)" if "rank pc \<noteq> 0" for x
    using b that by (cases x; cases "outdated e k pc") simp_all
  then show ?thesis using pc unfolding in_budget_def by simp
qed

lemma in_budget_step:
  assumes "in_budget e i n a k"
  shows "in_budget (engine_step E (Step i) e) i (Suc n) a k"
proof -
  obtain pc where pc: "lookups e i = Some (k, pc)"
    and b: "rank pc \<noteq> 0 \<longrightarrow> n + rank pc + (if outdated e k pc then 5 else 0) \<le> 5 * (a + 1)"
    using assms by (auto simp: in_budget_def)
  obtain pc' e' where l: "lookupCached k pc e = (pc', e')" by fastforce
  let ?e = "e'\<lparr>lookups := (lookups e)(i \<mapsto> (k, pc'))\<rparr>"
  have same: "outdated ?e k pc' = outdated e k pc'"
    using lookupCached_frame(1) [OF l] by (simp add: outdated_def currentVersion_def)
  have "rank pc' = 0" if "rank pc = 0"
    using that l by (cases pc) auto
  then have "rank pc' \<noteq> 0 \<longrightarrow> Suc n + rank pc' + (if outdated e k pc' then 5 else 0) \<le> 5 * (a + 1)"
    using rank_step [OF l] b by (cases "rank pc = 0") (auto split: if_splits)
  then show ?thesis using pc l same by (simp add: in_budget_def)
qed

lemma other_step_frame:
  assumes "j \<noteq> i"
  shows "lookups (engine_step E (Step j) e) i = lookups e i" and "metastore (engine_step E (Step j) e) = metastore e"
  using assms lookupCached_frame by (cases "lookups e j"; auto split: prod.splits)+

lemma version_commit [simp]:
  "currentVersion (e\<lparr>metastore := store_commit (exec_tx E) c (metastore e)\<rparr>) k = currentVersion e k"
  by (simp add: currentVersion_def)

lemma in_budget_run:
  assumes "in_budget e i n a k" and "\<forall>k'. Call i k' \<notin> set evs"
  shows "in_budget (fold (engine_step E) evs e) i (n + own_steps i evs) (a + announcements evs) k"
  using assms
proof (induction evs arbitrary: e n a)
  case Nil
  then show ?case by (simp add: announcements_def)
next
  case (Cons ev evs)
  have nc: "\<forall>k'. Call i k' \<notin> set evs" using Cons.prems(2) by simp
  have "in_budget (engine_step E ev e) i (n + own_steps i [ev]) (a + announcements [ev]) k"
  proof (cases ev)
    case (Step j)
    then show ?thesis
      using in_budget_step [OF Cons.prems(1)] in_budget_frame [OF Cons.prems(1) other_step_frame(1) [of j i E e]]
        other_step_frame(2) [of j i E e]
      by (cases "j = i") (simp_all add: announcements_def currentVersion_def del: engine_step.simps)
  next
    case Announce
    then show ?thesis using in_budget_announce [OF Cons.prems(1)] by (simp add: announcements_def)
  next
    case (Call j k')
    then have "j \<noteq> i" using Cons.prems(2) by auto
    then show ?thesis
      using Call in_budget_frame [OF Cons.prems(1), of "engine_step E ev e"]
      by (simp add: announcements_def currentVersion_def)
  qed (use Cons.prems(1) in \<open>auto simp: announcements_def ForgetTopic_def forgetSchemaLoad_def currentVersion_def
      intro: in_budget_frame\<close>)
  from Cons.IH [OF this nc] show ?case by (simp add: announcements_def add.assoc split: if_splits)
qed

text \<open>
  C12. Lookups end. However the events interleave, a lookup that has taken five actions of its own for
  its start and five for every announcement since has returned: only a version that moves makes it go
  round again.
\<close>

theorem lookup_terminates:
  assumes "e = engine_step E (Call i k) (engine_run E self evs)" and "\<forall>k'. Call i k' \<notin> set later"
    and "5 * (announcements later + 1) \<le> own_steps i later"
  shows "\<exists>r. lookups (fold (engine_step E) later e) i = Some (k, Finished r)"
proof -
  have "in_budget e i 0 0 k" by (simp add: assms(1) in_budget_def outdated_def currentVersion_def)
  from in_budget_run [OF this assms(2), of E]
  obtain pc where pc: "lookups (fold (engine_step E) later e) i = Some (k, pc)"
    and b: "rank pc \<noteq> 0 \<longrightarrow> own_steps i later + rank pc \<le> 5 * (announcements later + 1)"
    by (auto simp: in_budget_def split: if_splits)
  have "rank pc = 0" using b assms(3) by linarith
  then show ?thesis using pc by (cases pc) auto
qed


theorem lookup_terminates_witness:
  "\<exists>r. lookups (fold (engine_step exEnv) (replicate 5 (Step 0))
     (engine_step exEnv (Call 0 (TopicEntry ''t'')) (engine_run exEnv ''n'' exEngineRun))) 0 = Some (TopicEntry ''t'', Finished r)"
  by (rule lookup_terminates [OF refl]) (simp_all add: announcements_def)

section \<open>Forgotten topics stay forgotten\<close>

lemma clean_loop_iff: "clean_loop keys key token n \<longleftrightarrow> (\<forall>j. token < j \<and> j \<le> n \<longrightarrow> keys ! (j mod fenceWindow) \<noteq> key)"
proof (induction n)
  case (Suc n)
  show ?case
  proof (cases "token < Suc n \<and> keys ! (Suc n mod fenceWindow) \<noteq> key")
    case True
    then show ?thesis using Suc by (auto simp: le_Suc_eq)
  next
    case False
    then show ?thesis by (auto intro: exI [of _ "Suc n"])
  qed
qed simp

lemma set_drop_nth: "x \<in> set (drop n xs) \<longleftrightarrow> (\<exists>i. n \<le> i \<and> i < length xs \<and> xs ! i = x)"
proof
  assume "x \<in> set (drop n xs)"
  then obtain j where "j < length xs - n" "xs ! (n + j) = x" by (auto simp: in_set_conv_nth)
  then show "\<exists>i. n \<le> i \<and> i < length xs \<and> xs ! i = x" by (intro exI [of _ "n + j"]) auto
next
  assume "\<exists>i. n \<le> i \<and> i < length xs \<and> xs ! i = x"
  then obtain i where "n \<le> i" "i < length xs" "xs ! i = x" by blast
  then show "x \<in> set (drop n xs)" by (auto simp: in_set_conv_nth intro!: exI [of _ "i - n"])
qed

lemma fence_fold:
  assumes "length (fkeys f) = fenceWindow" and "f' = fold fence_forget ks f"
  shows "fcount f' = fcount f + length ks \<and> length (fkeys f') = fenceWindow \<and>
    (\<forall>j. fcount f < j \<and> j \<le> fcount f' \<and> fcount f' < j + fenceWindow \<longrightarrow>
       fkeys f' ! (j mod fenceWindow) = ks ! (j - fcount f - 1))"
  using assms(2)
proof (induction ks arbitrary: f' rule: rev_induct)
  case Nil
  then show ?case using assms(1) by auto
next
  case (snoc key ks)
  define g where "g = fold fence_forget ks f"
  note ih = snoc.IH [OF g_def]
  have f': "f' = fence_forget key g" using snoc.prems by (simp add: g_def)
  have "fkeys f' ! (j mod fenceWindow) = (ks @ [key]) ! (j - fcount f - 1)"
    if j: "fcount f < j" "j \<le> Suc (fcount g)" "Suc (fcount g) < j + fenceWindow" for j
  proof (cases "j = Suc (fcount g)")
    case True
    have "Suc (fcount g) mod fenceWindow < length (fkeys g)" using ih by (simp add: fenceWindow_def)
    then show ?thesis using True ih by (simp add: f' fence_forget_def Let_def nth_append)
  next
    case False
    have "j mod fenceWindow \<noteq> Suc (fcount g) mod fenceWindow"
    proof
      assume "j mod fenceWindow = Suc (fcount g) mod fenceWindow"
      then have "fenceWindow dvd Suc (fcount g) - j" using j(2) by (metis mod_eq_dvd_iff_nat)
      then show False using j False by (auto dest: dvd_imp_le)
    qed
    then have "fkeys f' ! (j mod fenceWindow) = fkeys g ! (j mod fenceWindow)"
      by (simp add: f' fence_forget_def Let_def)
    also have "\<dots> = ks ! (j - fcount f - 1)" using ih j False by simp
    also have "\<dots> = (ks @ [key]) ! (j - fcount f - 1)"
    proof -
      have "j - fcount f - 1 < length ks" using conjunct1 [OF ih] j False by linarith
      then show ?thesis by (simp add: nth_append)
    qed
    finally show ?thesis .
  qed
  then show ?case using ih by (simp add: f' fence_forget_def Let_def)
qed

text \<open>
  C31. The fence is exact: a load that began at some moment may store its value unless its own topic was
  forgotten since, as far as the last 256 forgets tell; forgets of other topics never stop it. So a
  request racing a delete does not put back the entry the delete dropped.
\<close>

theorem fence_exact:
  assumes "f = fold fence_forget earlier newFence" and "f' = fold fence_forget ks f"
  shows "fence_clean (Some f') key (fence_begin (Some f)) \<longleftrightarrow> key \<notin> set (drop (length ks - fenceWindow) ks)"
proof -
  have len: "length (fkeys f) = fenceWindow"
    using fence_fold [OF _ assms(1)] by (simp add: newFence_def)
  note ff = fence_fold [OF len assms(2)]
  let ?t = "if length ks > fenceWindow then fcount f + length ks - fenceWindow else fcount f"
  have "fence_clean (Some f') key (fence_begin (Some f)) \<longleftrightarrow>
      (\<forall>j. ?t < j \<and> j \<le> fcount f + length ks \<longrightarrow> fkeys f' ! (j mod fenceWindow) \<noteq> key)"
    using ff by (simp add: fence_clean_def fence_begin_def Let_def clean_loop_iff)
  also have "\<dots> \<longleftrightarrow> (\<forall>j. ?t < j \<and> j \<le> fcount f + length ks \<longrightarrow> ks ! (j - fcount f - 1) \<noteq> key)"
  proof (rule all_cong1)
    fix j
    have "fkeys f' ! (j mod fenceWindow) = ks ! (j - fcount f - 1)" if "?t < j" "j \<le> fcount f + length ks"
    proof -
      have "fcount f < j \<and> fcount f + length ks < j + fenceWindow" using that by (auto split: if_splits)
      then show ?thesis using ff that by auto
    qed
    then show "(?t < j \<and> j \<le> fcount f + length ks \<longrightarrow> fkeys f' ! (j mod fenceWindow) \<noteq> key) =
        (?t < j \<and> j \<le> fcount f + length ks \<longrightarrow> ks ! (j - fcount f - 1) \<noteq> key)" by auto
  qed
  also have "\<dots> \<longleftrightarrow> (\<forall>i. length ks - fenceWindow \<le> i \<and> i < length ks \<longrightarrow> ks ! i \<noteq> key)"
  proof safe
    fix i assume a: "\<forall>j. ?t < j \<and> j \<le> fcount f + length ks \<longrightarrow> ks ! (j - fcount f - 1) \<noteq> ks ! i"
      and i: "length ks - fenceWindow \<le> i" "i < length ks"
    have "?t < fcount f + i + 1 \<and> fcount f + i + 1 \<le> fcount f + length ks" using i by auto
    from a [rule_format, OF this] show False by simp
  next
    fix j assume a: "\<forall>i. length ks - fenceWindow \<le> i \<and> i < length ks \<longrightarrow> ks ! i \<noteq> ks ! (j - fcount f - 1)"
      and j: "?t < j" "j \<le> fcount f + length ks"
    have "length ks - fenceWindow \<le> j - fcount f - 1 \<and> j - fcount f - 1 < length ks"
      using j by (auto split: if_splits)
    from a [rule_format, OF this] show False by simp
  qed
  also have "\<dots> \<longleftrightarrow> key \<notin> set (drop (length ks - fenceWindow) ks)"
    unfolding set_drop_nth by auto
  finally show ?thesis .
qed

theorem fence_exact_witness:
  "\<not> fence_clean (Some (fold fence_forget [''a'', ''b''] newFence)) ''b'' (fence_begin (Some newFence)) \<and>
   fence_clean (Some (fold fence_forget [''a'', ''b''] newFence)) ''c'' (fence_begin (Some newFence))"
  using fence_exact [of newFence "[]" _ "[''a'', ''b'']" "''b''", OF _ refl]
    fence_exact [of newFence "[]" _ "[''a'', ''b'']" "''c''", OF _ refl]
  by (simp add: fenceWindow_def)

end
