(* ===== verification/Authenticator.thy ===== *)
theory Authenticator
  imports Meta_Announce
begin

text \<open>
  Password verification with its per-node cache (\<^verbatim>\<open>src/internal/security/authenticator.go\<close>): the fast path,
  the slow path that re-reads the user and refreshes the cache entry, and the bcrypt comparison. Requests
  run side by side; a step is what the source does in one hold of the lock, one read of the store or one
  comparison. \<^verbatim>\<open>bcrypt\<close> and the keyed digest behind \<^verbatim>\<open>credToken\<close> (HMAC-SHA256) are parameters of which nothing is
  assumed. The token buckets only decide whether a comparison runs, so a step says whether it was admitted.
  \<^verbatim>\<open>GetUser\<close> reads the local store here and fails only with \<^verbatim>\<open>ErrNotFound\<close>: the return of its other errors,
  which answers the request and changes nothing, is left out. Each request runs its own comparison;
  the shared call of \<^verbatim>\<open>runBcrypt\<close> joins only requests with the same user name, token and stored hash.
\<close>

definition negativeTTL :: int where "negativeTTL = 60 * 10 ^ 9"
definition negativeCapPerUser :: nat where "negativeCapPerUser = 16"
definition maxCachedUsers :: nat where "maxCachedUsers = 4096"

record userEntry =
  ueVersion :: nat
  ueRecord :: User
  ueIdentity :: User
  ueVerifiedCred :: string
  ueHasVerified :: bool
  ueFailed :: "(string, int) omap"

text \<open>\<open>credToken\<close>: the keyed digest of the password, copied into a zeroed array of 32 bytes.\<close>

definition credToken :: "(string \<Rightarrow> string \<Rightarrow> string) \<Rightarrow> string \<Rightarrow> string \<Rightarrow> string" where
  "credToken mac credKey password = take 32 (mac credKey password @ replicate 32 (CHR 0x00))"

definition identityOf :: "User \<Rightarrow> User" where
  "identityOf rec = rec\<lparr>uPasswordHash := ''''\<rparr>"

definition newUserEntry :: userEntry where
  "newUserEntry = \<lparr>ueVersion = 0, ueRecord = emptyUser, ueIdentity = emptyUser, ueVerifiedCred = '''',
     ueHasVerified = False, ueFailed = []\<rparr>"

text \<open>Map iteration is in no order: the caller says which entry goes.\<close>

definition evictOneUserLocked :: "nat \<Rightarrow> (string, userEntry) omap \<Rightarrow> (string, userEntry) omap" where
  "evictOneUserLocked victim us = (if us = [] then us else om_del (fst (us ! (victim mod length us))) us)"

fun oldest :: "(string, int) omap \<Rightarrow> (string \<times> int) option" where
  "oldest [] = None"
| "oldest ((k, t) # m) =
     (case oldest m of None \<Rightarrow> Some (k, t) | Some (k', t') \<Rightarrow> if t' < t then Some (k', t') else Some (k, t))"

definition evictOldest :: "(string, int) omap \<Rightarrow> (string, int) omap" where
  "evictOldest m = (case oldest m of None \<Rightarrow> m | Some (k, _) \<Rightarrow> om_del k m)"

datatype auth_pc =
    Fast nat
  | SlowStart
  | SlowRead nat
  | DropCheck
  | DropLocked
  | Refresh nat User
  | Compare string
  | Conclude bool string
  | Answered "User result"

datatype admission = Admitted | Refused | Cancelled

record Authenticator =
  authStore :: "(Buckets, metadataDomainVersions) store"
  authUsers :: "(string, userEntry) omap"
  requests :: "nat \<Rightarrow> (string \<times> string \<times> auth_pc) option"

definition recently_failed :: "int \<Rightarrow> string \<Rightarrow> userEntry \<Rightarrow> bool" where
  "recently_failed now cred e = (case om_get (ueFailed e) cred of None \<Rightarrow> False | Some t \<Rightarrow> now - t < negativeTTL)"

definition verify_fast :: "int \<Rightarrow> string \<Rightarrow> string \<Rightarrow> nat \<Rightarrow> (string, userEntry) omap \<Rightarrow> auth_pc" where
  "verify_fast now username cred version us =
     (case om_get us username of
        None \<Rightarrow> SlowStart
      | Some e \<Rightarrow>
          if ueVersion e = version then
            if ueHasVerified e \<and> ueVerifiedCred e = cred then Answered (Inr (ueIdentity e))
            else if recently_failed now cred e then Answered (Inl ErrUnauthorized)
            else SlowStart
          else SlowStart)"

definition refreshed :: "nat \<Rightarrow> User \<Rightarrow> userEntry \<Rightarrow> userEntry" where
  "refreshed version rec e =
     (let e1 = (if uPasswordHash (ueRecord e) \<noteq> uPasswordHash rec then e\<lparr>ueHasVerified := False, ueFailed := []\<rparr> else e)
      in e1\<lparr>ueRecord := rec, ueIdentity := identityOf rec, ueVersion := version\<rparr>)"

definition verify_refresh ::
    "int \<Rightarrow> nat \<Rightarrow> string \<Rightarrow> string \<Rightarrow> nat \<Rightarrow> User \<Rightarrow> (string, userEntry) omap \<Rightarrow> auth_pc \<times> (string, userEntry) omap" where
  "verify_refresh now victim username cred version rec us =
     (let (e0, us0) = (case om_get us username of
              Some e \<Rightarrow> (e, us)
            | None \<Rightarrow> (newUserEntry, if length us \<ge> maxCachedUsers then evictOneUserLocked victim us else us));
          e = refreshed version rec e0;
          us' = om_put username e us0
      in if ueHasVerified e \<and> ueVerifiedCred e = cred then (Answered (Inr (ueIdentity e)), us')
         else if recently_failed now cred e then (Answered (Inl ErrUnauthorized), us')
         else (Compare (uPasswordHash rec), us'))"

definition verify_conclude ::
    "int \<Rightarrow> string \<Rightarrow> string \<Rightarrow> bool \<Rightarrow> string \<Rightarrow> (string, userEntry) omap \<Rightarrow> auth_pc \<times> (string, userEntry) omap" where
  "verify_conclude now username cred ok storedHash us =
     (case om_get us username of
        None \<Rightarrow> (Answered (Inl ErrUnauthorized), us)
      | Some e \<Rightarrow>
          if \<not> ok then
            (Answered (Inl ErrUnauthorized),
             om_put username (e\<lparr>ueFailed := om_put cred now
               (if length (ueFailed e) \<ge> negativeCapPerUser then evictOldest (ueFailed e) else ueFailed e)\<rparr>) us)
          else
            let e' = (if uPasswordHash (ueRecord e) = storedHash
                      then e\<lparr>ueVerifiedCred := cred, ueHasVerified := True\<rparr> else e)
            in (Answered (Inr (ueIdentity e')), om_put username e' us))"

text \<open>One step of a request; \<open>tok\<close> is \<^verbatim>\<open>credToken\<close>, \<open>bc\<close> is the bcrypt comparison.\<close>

fun verify_step ::
    "(string \<Rightarrow> string) \<Rightarrow> (string \<Rightarrow> string \<Rightarrow> bool) \<Rightarrow> int \<Rightarrow> nat \<Rightarrow> admission \<Rightarrow> string \<Rightarrow> string \<Rightarrow> auth_pc \<Rightarrow>
     Authenticator \<Rightarrow> auth_pc \<times> (string, userEntry) omap" where
  "verify_step tok bc now victim adm u pw (Fast v) a = (verify_fast now u (tok pw) v (authUsers a), authUsers a)"
| "verify_step tok bc now victim adm u pw SlowStart a = (SlowRead (dvUsers (sVers (authStore a))), authUsers a)"
| "verify_step tok bc now victim adm u pw (SlowRead v) a =
     (case om_get (bUsers (sDb (authStore a))) u of None \<Rightarrow> DropCheck | Some rec \<Rightarrow> Refresh v rec, authUsers a)"
| "verify_step tok bc now victim adm u pw DropCheck a =
     (if om_mem (authUsers a) u then DropLocked else Answered (Inl ErrUnauthorized), authUsers a)"
| "verify_step tok bc now victim adm u pw DropLocked a = (Answered (Inl ErrUnauthorized), om_del u (authUsers a))"
| "verify_step tok bc now victim adm u pw (Refresh v rec) a = verify_refresh now victim u (tok pw) v rec (authUsers a)"
| "verify_step tok bc now victim adm u pw (Compare h) a =
     (case adm of
        Admitted \<Rightarrow> Conclude (bc h pw) h
      | Refused \<Rightarrow> Answered (Inl ErrThrottled)
      | Cancelled \<Rightarrow> Answered (Inl (ErrExternal ''context'')), authUsers a)"
| "verify_step tok bc now victim adm u pw (Conclude ok h) a = verify_conclude now u (tok pw) ok h (authUsers a)"
| "verify_step tok bc now victim adm u pw (Answered r) a = (Answered r, authUsers a)"

datatype auth_event =
    AEntry command
  | AAnnounce
  | Login nat string string
  | AStep nat int nat admission

fun auth_step ::
    "fsmEnv \<Rightarrow> (string \<Rightarrow> string) \<Rightarrow> (string \<Rightarrow> string \<Rightarrow> bool) \<Rightarrow> auth_event \<Rightarrow> Authenticator \<Rightarrow> Authenticator" where
  "auth_step E tok bc (AEntry c) a = a\<lparr>authStore := store_commit (exec_tx E) c (authStore a)\<rparr>"
| "auth_step E tok bc AAnnounce a = a\<lparr>authStore := store_bump (authStore a)\<rparr>"
| "auth_step E tok bc (Login i u pw) a =
     a\<lparr>requests := (requests a)(i \<mapsto> (u, pw, Fast (dvUsers (sVers (authStore a)))))\<rparr>"
| "auth_step E tok bc (AStep i now victim adm) a =
     (case requests a i of
        None \<Rightarrow> a
      | Some (u, pw, pc) \<Rightarrow>
          let (pc', us) = verify_step tok bc now victim adm u pw pc a
          in a\<lparr>authUsers := us, requests := (requests a)(i \<mapsto> (u, pw, pc'))\<rparr>)"

definition newAuthenticator :: Authenticator where
  "newAuthenticator = \<lparr>authStore = store_of newFSM, authUsers = [], requests = (\<lambda>_. None)\<rparr>"

abbreviation auth_run ::
    "fsmEnv \<Rightarrow> (string \<Rightarrow> string) \<Rightarrow> (string \<Rightarrow> string \<Rightarrow> bool) \<Rightarrow> auth_event list \<Rightarrow> Authenticator \<Rightarrow> Authenticator" where
  "auth_run E tok bc evs a \<equiv> fold (auth_step E tok bc) evs a"

end
