(* ===== verification/Auth_Sound.thy ===== *)
theory Auth_Sound
  imports Authenticator
begin

text \<open>
  Who gets in: whatever the cache, the races between requests and the user edits in between, a password
  is accepted only if it matched the hash of the account as stored at some moment of the request, or as
  stored just before a user edit that was committed and not yet announced at such a moment; digest
  collisions among the presented passwords apart. The identity that goes with it can be out of date,
  which the last section shows.
\<close>

section \<open>What cache entries and requests rely on\<close>

definition user_at :: "Buckets \<Rightarrow> string \<Rightarrow> User option" where
  "user_at d u = om_get (bUsers d) u"

interpretation users: announcing_view reads version_of "exec_tx E" keyed_ok dv_inv user_at "\<lambda>u. KUsers"
  for E
  by unfold_locales (simp add: user_at_def)

text \<open>
  \<open>presented\<close> are the passwords requests have come with for a user name. A password \<open>matches\<close> a hash through
  the cache when one of these with the same digest matches it: the cache compares digests, so it cannot
  tell two passwords apart whose digests collide.
\<close>

definition presented :: "auth_event list \<Rightarrow> string \<Rightarrow> string set" where
  "presented evs u = {pw. \<exists>i. Login i u pw \<in> set evs}"

definition matches :: "string set \<Rightarrow> (string \<Rightarrow> string) \<Rightarrow> (string \<Rightarrow> string \<Rightarrow> bool) \<Rightarrow> string \<Rightarrow> string \<Rightarrow> bool" where
  "matches ps tok bc h pw \<longleftrightarrow> (\<exists>p \<in> ps. tok p = tok pw \<and> bc h p)"

definition entry_sound ::
    "string set \<Rightarrow> (string \<Rightarrow> string) \<Rightarrow> (string \<Rightarrow> string \<Rightarrow> bool) \<Rightarrow> userEntry \<Rightarrow> bool" where
  "entry_sound ps tok bc e \<longleftrightarrow> ueIdentity e = identityOf (ueRecord e) \<and>
     (ueHasVerified e \<longrightarrow> (\<exists>p \<in> ps. ueVerifiedCred e = tok p \<and> bc (uPasswordHash (ueRecord e)) p))"

abbreviation users_version :: "(Buckets, metadataDomainVersions) store \<Rightarrow> nat" where
  "users_version st \<equiv> dvUsers (sVers st)"

fun pc_sound :: "(string \<Rightarrow> string \<Rightarrow> bool) \<Rightarrow> (Buckets, metadataDomainVersions) store \<Rightarrow> string \<Rightarrow> string \<Rightarrow> auth_pc \<Rightarrow> bool" where
  "pc_sound bc st u pw (Fast v) \<longleftrightarrow> v \<le> users_version st"
| "pc_sound bc st u pw (SlowRead v) \<longleftrightarrow> v \<le> users_version st"
| "pc_sound bc st u pw (Refresh v rec) \<longleftrightarrow> users.views.stamped st u v (Some rec)"
| "pc_sound bc st u pw (Conclude ok h) \<longleftrightarrow> (ok \<longrightarrow> bc h pw)"
| "pc_sound bc st u pw _ \<longleftrightarrow> True"

definition auth_ok ::
    "fsmEnv \<Rightarrow> (string \<Rightarrow> string set) \<Rightarrow> (string \<Rightarrow> string) \<Rightarrow> (string \<Rightarrow> string \<Rightarrow> bool) \<Rightarrow> Authenticator \<Rightarrow> bool" where
  "auth_ok E P tok bc a \<longleftrightarrow> meta.store_ok E (authStore a) \<and>
     (\<forall>u e. om_get (authUsers a) u = Some e \<longrightarrow>
        entry_sound (P u) tok bc e \<and> users.views.stamped (authStore a) u (ueVersion e) (Some (ueRecord e))) \<and>
     (\<forall>i u pw pc. requests a i = Some (u, pw, pc) \<longrightarrow> pw \<in> P u \<and> pc_sound bc (authStore a) u pw pc)"

lemma auth_ok_new: "auth_ok E P tok bc newAuthenticator"
  by (simp add: auth_ok_def newAuthenticator_def store_of_def newFSM_def meta.store_ok_def)

lemma auth_ok_store:
  assumes "auth_ok E P tok bc a" and "meta.store_ok E st"
    and "\<And>u v r. users.views.stamped (authStore a) u v r \<Longrightarrow> users.views.stamped st u v r"
    and "users_version (authStore a) \<le> users_version st"
  shows "auth_ok E P tok bc (a\<lparr>authStore := st\<rparr>)"
proof -
  have "pc_sound bc st u pw pc" if "pc_sound bc (authStore a) u pw pc" for u pw pc
    using that assms(3,4) by (cases pc) auto
  then show ?thesis using assms by (auto simp: auth_ok_def)
qed

text \<open>One step of a request: where the entries it leaves come from.\<close>

lemma refreshed_simps [simp]:
  "ueRecord (refreshed v rec e) = rec" "ueVersion (refreshed v rec e) = v" "ueIdentity (refreshed v rec e) = identityOf rec"
  by (simp_all add: refreshed_def Let_def)

lemma refreshed_verified:
  "ueHasVerified (refreshed v rec e) \<longleftrightarrow> ueHasVerified e \<and> uPasswordHash (ueRecord e) = uPasswordHash rec"
  "ueVerifiedCred (refreshed v rec e) = ueVerifiedCred e"
  by (simp_all add: refreshed_def Let_def)

lemma entry_sound_refreshed: "entry_sound ps tok bc e \<Longrightarrow> entry_sound ps tok bc (refreshed v rec e)"
  by (auto simp: entry_sound_def refreshed_verified)

lemma entry_sound_new: "entry_sound ps tok bc newUserEntry"
  by (simp add: entry_sound_def newUserEntry_def identityOf_def emptyUser_def)

lemma get_evict: "om_get (evictOneUserLocked n us) u = Some e \<Longrightarrow> om_get us u = Some e"
  by (auto simp: evictOneUserLocked_def split: if_splits)

lemma verify_refresh_cases:
  assumes "verify_refresh now victim u cred v rec us = (pc', us')"
  obtains e0 where "e0 = newUserEntry \<or> om_get us u = Some e0"
    "\<And>u' e. om_get us' u' = Some e \<Longrightarrow> (u' = u \<and> e = refreshed v rec e0) \<or> om_get us u' = Some e"
    "(ueHasVerified (refreshed v rec e0) \<and> ueVerifiedCred e0 = cred \<and> pc' = Answered (Inr (identityOf rec))) \<or>
     (\<exists>err. pc' = Answered (Inl err)) \<or> pc' = Compare (uPasswordHash rec)"
proof -
  obtain e0 us0 where p: "(case om_get us u of Some e \<Rightarrow> (e, us)
      | None \<Rightarrow> (newUserEntry, if length us \<ge> maxCachedUsers then evictOneUserLocked victim us else us)) = (e0, us0)"
    by (rule prod.exhaust)
  have us': "us' = om_put u (refreshed v rec e0) us0"
    and pc': "pc' = (if ueHasVerified (refreshed v rec e0) \<and> ueVerifiedCred (refreshed v rec e0) = cred
        then Answered (Inr (ueIdentity (refreshed v rec e0)))
        else if recently_failed now cred (refreshed v rec e0) then Answered (Inl ErrUnauthorized)
        else Compare (uPasswordHash rec))"
    using assms unfolding verify_refresh_def p by (auto simp: Let_def split: if_splits)
  have e0: "e0 = newUserEntry \<or> om_get us u = Some e0" using p by (auto split: option.splits)
  have g: "om_get us u' = Some e" if "om_get us0 u' = Some e" for u' e
    using p that by (auto split: option.splits if_splits dest: get_evict)
  show thesis
    by (rule that [OF e0]) (use us' pc' g in \<open>auto simp: refreshed_verified split: if_splits\<close>)
qed

lemma verify_conclude_cases:
  assumes "verify_conclude now u cred ok h us = (pc', us')" and "om_get us' u' = Some e'"
  shows "\<exists>e. om_get us u' = Some e \<and> ueRecord e' = ueRecord e \<and> ueVersion e' = ueVersion e \<and> ueIdentity e' = ueIdentity e \<and>
    ((ueHasVerified e' = ueHasVerified e \<and> ueVerifiedCred e' = ueVerifiedCred e) \<or>
     (u' = u \<and> ok \<and> uPasswordHash (ueRecord e) = h \<and> ueVerifiedCred e' = cred))"
  using assms by (auto simp: verify_conclude_def Let_def split: option.splits if_splits)


text \<open>Entries after a step: kept, or refreshed by this request from the record it read.\<close>

lemma entries_after:
  assumes "verify_step tok bc now victim adm u pw pc a = (pc', us')" and "om_get us' u' = Some e'"
  shows "(\<exists>e. om_get (authUsers a) u' = Some e \<and> ueRecord e' = ueRecord e \<and> ueVersion e' = ueVersion e) \<or>
    (\<exists>v rec. pc = Refresh v rec \<and> u' = u \<and> ueRecord e' = rec \<and> ueVersion e' = v)"
proof (cases pc)
  case (Refresh v rec)
  then have "verify_refresh now victim u (tok pw) v rec (authUsers a) = (pc', us')" using assms(1) by simp
  then show ?thesis
  proof (rule verify_refresh_cases)
    fix e0
    assume "\<And>u' e. om_get us' u' = Some e \<Longrightarrow> (u' = u \<and> e = refreshed v rec e0) \<or> om_get (authUsers a) u' = Some e"
    from this [OF assms(2)] show ?thesis using Refresh by auto
  qed
next
  case (Conclude ok h)
  then have "verify_conclude now u (tok pw) ok h (authUsers a) = (pc', us')" using assms(1) by simp
  from verify_conclude_cases [OF this assms(2)] show ?thesis by blast
qed (use assms in \<open>auto split: if_splits\<close>)

lemma entries_sound_after:
  assumes "verify_step tok bc now victim adm u pw pc a = (pc', us')" and "om_get us' u' = Some e'"
    and "\<And>u e. om_get (authUsers a) u = Some e \<Longrightarrow> entry_sound (P u) tok bc e" and "pc_sound bc (authStore a) u pw pc" and "pw \<in> P u"
  shows "entry_sound (P u') tok bc e'"
proof (cases pc)
  case (Refresh v rec)
  then have "verify_refresh now victim u (tok pw) v rec (authUsers a) = (pc', us')" using assms(1) by simp
  then show ?thesis
  proof (rule verify_refresh_cases)
    fix e0
    assume e0: "e0 = newUserEntry \<or> om_get (authUsers a) u = Some e0"
      and g: "\<And>u' e. om_get us' u' = Some e \<Longrightarrow> (u' = u \<and> e = refreshed v rec e0) \<or> om_get (authUsers a) u' = Some e"
    have "entry_sound (P u) tok bc e0" using e0 assms(3) entry_sound_new by blast
    then show ?thesis using g [OF assms(2)] assms(3) entry_sound_refreshed by blast
  qed
next
  case (Conclude ok h)
  then have "verify_conclude now u (tok pw) ok h (authUsers a) = (pc', us')" using assms(1) by simp
  from verify_conclude_cases [OF this assms(2)] obtain e where e: "om_get (authUsers a) u' = Some e"
    "ueRecord e' = ueRecord e" "ueIdentity e' = ueIdentity e"
    "(ueHasVerified e' = ueHasVerified e \<and> ueVerifiedCred e' = ueVerifiedCred e) \<or>
     (u' = u \<and> ok \<and> uPasswordHash (ueRecord e) = h \<and> ueVerifiedCred e' = tok pw)"
    by blast
  show ?thesis using e assms(3) [OF e(1)] assms(4,5) Conclude by (auto simp: entry_sound_def)
qed (use assms in \<open>auto split: if_splits\<close>)

lemma pc_sound_after:
  assumes "verify_step tok bc now victim adm u pw pc a = (pc', us')" and "pc_sound bc (authStore a) u pw pc"
  shows "pc_sound bc (authStore a) u pw pc'"
proof (cases pc)
  case (SlowRead v)
  then show ?thesis
    using assms users.views.stamped_read [of v "authStore a" u] by (auto simp: user_at_def split: option.splits)
next
  case (Refresh v rec)
  then have "verify_refresh now victim u (tok pw) v rec (authUsers a) = (pc', us')" using assms(1) by simp
  then show ?thesis by (rule verify_refresh_cases) auto
qed (use assms in \<open>auto simp: verify_fast_def verify_conclude_def Let_def split: option.splits if_splits admission.splits\<close>)

lemma auth_ok_step:
  assumes "\<And>u. presented [ev] u \<subseteq> P u"
  shows "auth_ok E P tok bc a \<Longrightarrow> auth_ok E P tok bc (auth_step E tok bc ev a)"
proof (cases ev)
  case (AEntry c)
  assume ok: "auth_ok E P tok bc a"
  then have s: "meta.store_ok E (authStore a)" by (simp add: auth_ok_def)
  show ?thesis
    unfolding AEntry auth_step.simps
    by (rule auth_ok_store [OF ok meta.store_ok_commit [OF s] users.views.stamped_commit]) simp_all
next
  case AAnnounce
  assume ok: "auth_ok E P tok bc a"
  then have s: "meta.store_ok E (authStore a)" by (simp add: auth_ok_def)
  show ?thesis
    unfolding AAnnounce auth_step.simps
    using meta.store_ok_bump [OF s] users.views.stamped_bump [OF s] meta.ver_bump_mono [OF s, of KUsers]
    by (intro auth_ok_store [OF ok]) simp_all
next
  case (Login i u pw)
  assume "auth_ok E P tok bc a"
  then show ?thesis using assms [of u] unfolding Login by (auto simp: auth_ok_def presented_def split: if_splits)
next
  case (AStep i now victim adm)
  assume ok: "auth_ok E P tok bc a"
  show ?thesis
  proof (cases "requests a i")
    case None
    then show ?thesis using ok AStep by simp
  next
    case (Some p)
    obtain u pw pc where p: "p = (u, pw, pc)" by (rule prod_cases3)
    obtain pc' us' where s: "verify_step tok bc now victim adm u pw pc a = (pc', us')" by fastforce
    have pk: "pc_sound bc (authStore a) u pw pc" "pw \<in> P u" using ok Some p by (auto simp: auth_ok_def)
    have es: "\<And>u e. om_get (authUsers a) u = Some e \<Longrightarrow> entry_sound (P u) tok bc e" using ok by (auto simp: auth_ok_def)
    have st: "users.views.stamped (authStore a) u' (ueVersion e) (Some (ueRecord e))" if "om_get us' u' = Some e" for u' e
      using entries_after [OF s that] ok pk(1) by (auto simp: auth_ok_def)
    have "auth_ok E P tok bc (a\<lparr>authUsers := us', requests := (requests a)(i \<mapsto> (u, pw, pc'))\<rparr>)"
      using ok st pk(2) entries_sound_after [where P = P, OF s _ es pk] pc_sound_after [OF s pk(1)] by (auto simp: auth_ok_def)
    then show ?thesis using AStep Some p s by simp
  qed
qed

lemma presented_Cons:
  assumes "\<And>u. presented (ev # evs) u \<subseteq> P u"
  shows "\<And>u. presented [ev] u \<subseteq> P u" and "\<And>u. presented evs u \<subseteq> P u"
  using assms unfolding presented_def by fastforce+

lemma auth_ok_run:
  assumes "\<And>u. presented evs u \<subseteq> P u" and "auth_ok E P tok bc a"
  shows "auth_ok E P tok bc (auth_run E tok bc evs a)"
  using assms
proof (induction evs arbitrary: a)
  case (Cons ev evs)
  note ps = presented_Cons [OF Cons.prems(1)]
  show ?case using Cons.IH [OF ps(2) auth_ok_step [OF ps(1) Cons.prems(2)]] by simp
qed simp


section \<open>What was current during a request\<close>

definition cur :: "string \<Rightarrow> Authenticator \<Rightarrow> User set" where
  "cur u a = {rec. Some rec \<in> current user_at (authStore a) u}"

text \<open>
  \<open>cur\<close> are the records a reader may see as current (the one stored and, while an edit is not announced, the
  one before it); \<open>observed\<close> collects them over the states of a request.
\<close>

fun observed ::
    "fsmEnv \<Rightarrow> (string \<Rightarrow> string) \<Rightarrow> (string \<Rightarrow> string \<Rightarrow> bool) \<Rightarrow> string \<Rightarrow> auth_event list \<Rightarrow> Authenticator \<Rightarrow> User set" where
  "observed E tok bc u [] a = cur u a"
| "observed E tok bc u (ev # evs) a = cur u a \<union> observed E tok bc u evs (auth_step E tok bc ev a)"

text \<open>The request \<open>i\<close> relies only on records in \<open>S\<close>, which holds everything current since it began.\<close>

fun pc_within :: "(string \<Rightarrow> string \<Rightarrow> bool) \<Rightarrow> Authenticator \<Rightarrow> string \<Rightarrow> string \<Rightarrow> User set \<Rightarrow> auth_pc \<Rightarrow> bool" where
  "pc_within bc a u pw S (Fast v) \<longleftrightarrow>
     (\<forall>e. om_get (authUsers a) u = Some e \<and> ueVersion e = v \<longrightarrow> ueRecord e \<in> S) \<and>
     (\<forall>j pw' rec. requests a j = Some (u, pw', Refresh v rec) \<longrightarrow> rec \<in> S)"
| "pc_within bc a u pw S (Refresh v rec) \<longleftrightarrow> rec \<in> S"
| "pc_within bc a u pw S (Compare h) \<longleftrightarrow> (\<exists>rec \<in> S. uPasswordHash rec = h)"
| "pc_within bc a u pw S (Conclude ok h) \<longleftrightarrow> (\<exists>rec \<in> S. uPasswordHash rec = h)"
| "pc_within bc a u pw S (Answered (Inr ident)) \<longleftrightarrow> (\<exists>rec \<in> S. bc (uPasswordHash rec) pw)"
| "pc_within bc a u pw S _ \<longleftrightarrow> True"

definition watched :: "(string \<Rightarrow> string \<Rightarrow> bool) \<Rightarrow> nat \<Rightarrow> string \<Rightarrow> string \<Rightarrow> User set \<Rightarrow> Authenticator \<Rightarrow> bool" where
  "watched bc i u pw S a \<longleftrightarrow> cur u a \<subseteq> S \<and> (\<exists>pc. requests a i = Some (u, pw, pc) \<and> pc_within bc a u pw S pc)"

lemma pc_within_mono: "pc_within bc a u pw S pc \<Longrightarrow> S \<subseteq> S' \<Longrightarrow> pc_within bc a u pw S' pc"
  by (induction bc a u pw S pc rule: pc_within.induct) auto

lemma pc_within_frame:
  assumes "pc_within bc a u pw S pc"
    and "\<And>e. om_get (authUsers a') u = Some e \<Longrightarrow>
      (\<exists>e0. om_get (authUsers a) u = Some e0 \<and> ueVersion e0 = ueVersion e \<and> ueRecord e0 = ueRecord e) \<or>
      (\<exists>j pw'. requests a j = Some (u, pw', Refresh (ueVersion e) (ueRecord e)))"
    and "\<And>j pw' v rec. requests a' j = Some (u, pw', Refresh v rec) \<Longrightarrow> (\<exists>j pw'. requests a j = Some (u, pw', Refresh v rec)) \<or> rec \<in> S"
  shows "pc_within bc a' u pw S pc"
proof (cases pc)
  case (Fast v)
  have "ueRecord e \<in> S" if "om_get (authUsers a') u = Some e" "ueVersion e = v" for e
  proof -
    have w: "\<And>e. om_get (authUsers a) u = Some e \<Longrightarrow> ueVersion e = v \<Longrightarrow> ueRecord e \<in> S"
      "\<And>j pw' rec. requests a j = Some (u, pw', Refresh v rec) \<Longrightarrow> rec \<in> S"
      using assms(1) unfolding Fast by simp_all
    show ?thesis using assms(2) [OF that(1)] w that(2) by metis
  qed
  moreover have "rec \<in> S" if "requests a' j = Some (u, pw', Refresh v rec)" for j pw' rec
    using assms(1) assms(3) [OF that] unfolding Fast pc_within.simps by blast
  ultimately show ?thesis unfolding Fast pc_within.simps by blast
next
  case (Answered r)
  then show ?thesis using assms(1) by (cases r) simp_all
qed (use assms(1) in simp_all)

lemma cur_read: "om_get (bUsers (sDb (authStore a))) u = Some rec \<Longrightarrow> rec \<in> cur u a"
  unfolding cur_def using current_db [of user_at "authStore a" u] by (simp add: user_at_def)

text \<open>The watched request's own step.\<close>

lemma own_step_within:
  assumes "auth_ok E P tok bc a" and "watched (matches (P u) tok bc) i u pw S a" and "requests a i = Some (u, pw, pc)"
    and "verify_step tok bc now victim adm u pw pc a = (pc', us')" and "\<And>v. pc' \<noteq> Fast v"
  shows "pc_within (matches (P u) tok bc) a' u pw S pc'"
proof -
  have w: "pc_within (matches (P u) tok bc) a u pw S pc" "cur u a \<subseteq> S" using assms(2,3) by (auto simp: watched_def)
  have snd: "pc_sound bc (authStore a) u pw pc" "pw \<in> P u" using assms(1,3) by (auto simp: auth_ok_def)
  have es: "\<And>u e. om_get (authUsers a) u = Some e \<Longrightarrow> entry_sound (P u) tok bc e" using assms(1) by (auto simp: auth_ok_def)
  have ver: "matches (P u) tok bc (uPasswordHash (ueRecord e)) pw"
    if "entry_sound (P u) tok bc e" "ueHasVerified e" "ueVerifiedCred e = tok pw" for e
    using that by (auto simp: entry_sound_def matches_def)
  show ?thesis
  proof (cases pc)
    case (Fast v)
    then show ?thesis
      using assms(4) w ver es by (fastforce simp: verify_fast_def split: option.splits if_splits)
  next
    case (SlowRead v)
    then show ?thesis using assms(4) subsetD [OF w(2) cur_read] by (auto split: option.splits)
  next
    case (Refresh v rec)
    then have "verify_refresh now victim u (tok pw) v rec (authUsers a) = (pc', us')" using assms(4) by simp
    then show ?thesis
    proof (rule verify_refresh_cases)
      fix e0
      assume e0: "e0 = newUserEntry \<or> om_get (authUsers a) u = Some e0"
        and c: "(ueHasVerified (refreshed v rec e0) \<and> ueVerifiedCred e0 = tok pw \<and> pc' = Answered (Inr (identityOf rec))) \<or>
          (\<exists>err. pc' = Answered (Inl err)) \<or> pc' = Compare (uPasswordHash rec)"
      have "entry_sound (P u) tok bc (refreshed v rec e0)" using e0 es entry_sound_new entry_sound_refreshed by blast
      from ver [OF this] show ?thesis using c w Refresh by (auto simp: refreshed_verified)
    qed
  next
    case (Compare h)
    then show ?thesis using assms(4) w by (auto split: admission.splits)
  next
    case (Conclude ok h)
    then obtain rec where r: "rec \<in> S" "ok \<longrightarrow> matches (P u) tok bc (uPasswordHash rec) pw"
      using w snd by (auto simp: matches_def)
    then have "ok \<longrightarrow> (\<exists>rec \<in> S. matches (P u) tok bc (uPasswordHash rec) pw)" by blast
    then show ?thesis
      using assms(4) Conclude by (auto simp: verify_conclude_def Let_def split: option.splits if_splits)
  next
    case (Answered r)
    then show ?thesis using assms(4) w by (cases r) auto
  qed (use assms(4) in \<open>auto split: if_splits\<close>)
qed

lemma step_not_fast: "verify_step tok bc now victim adm u pw pc a = (Fast v, us') \<Longrightarrow> False"
  by (cases pc) (auto simp: verify_fast_def verify_refresh_def verify_conclude_def Let_def
      split: option.splits if_splits admission.splits prod.splits)

lemma step_refresh:
  assumes "verify_step tok bc now victim adm u pw pc a = (Refresh v rec, us')"
  shows "rec \<in> cur u a"
  using assms cur_read
  by (cases pc) (auto simp: verify_fast_def verify_refresh_def verify_conclude_def Let_def
      split: option.splits if_splits admission.splits prod.splits)


lemma cur_same: "authStore a' = authStore a \<Longrightarrow> cur u a' = cur u a"
  by (simp add: cur_def)

lemma watched_step:
  assumes "auth_ok E P tok bc a" and "watched (matches (P u) tok bc) i u pw S a" and "\<And>u' pw'. ev \<noteq> Login i u' pw'"
  shows "watched (matches (P u) tok bc) i u pw (S \<union> cur u (auth_step E tok bc ev a)) (auth_step E tok bc ev a)"
proof -
  obtain pc where pc: "requests a i = Some (u, pw, pc)" and w: "pc_within (matches (P u) tok bc) a u pw S pc"
    using assms(2) by (auto simp: watched_def)
  let ?a = "auth_step E tok bc ev a" and ?S = "S \<union> cur u (auth_step E tok bc ev a)"
  have "\<exists>pc'. requests ?a i = Some (u, pw, pc') \<and> pc_within (matches (P u) tok bc) ?a u pw ?S pc'"
  proof (cases ev)
    case (AStep j now victim adm)
    show ?thesis
    proof (cases "requests a j")
      case None
      then show ?thesis using AStep pc pc_within_mono [OF w, of ?S] by auto
    next
      case (Some p)
      obtain u' pw' pj where p: "p = (u', pw', pj)" by (rule prod_cases3)
      obtain pj' us' where s: "verify_step tok bc now victim adm u' pw' pj a = (pj', us')" by fastforce
      have a': "?a = a\<lparr>authUsers := us', requests := (requests a)(j \<mapsto> (u', pw', pj'))\<rparr>"
        using AStep Some p s by simp
      show ?thesis
      proof (cases "j = i")
        case True
        then have eq: "u' = u" "pw' = pw" "pj = pc" using Some p pc by simp_all
        have "pc_within (matches (P u) tok bc) ?a u pw S pj'"
          by (rule own_step_within [OF assms(1-2) pc s [unfolded eq]]) (use s step_not_fast eq in blast)
        then show ?thesis using True eq a' pc_within_mono by fastforce
      next
        case False
        have "pc_within (matches (P u) tok bc) ?a u pw S pc"
        proof (rule pc_within_frame [OF w])
          fix e assume "om_get (authUsers ?a) u = Some e"
          then have "om_get us' u = Some e" by (simp add: a')
          from entries_after [OF s this]
          show "(\<exists>e0. om_get (authUsers a) u = Some e0 \<and> ueVersion e0 = ueVersion e \<and> ueRecord e0 = ueRecord e) \<or>
              (\<exists>j pw'. requests a j = Some (u, pw', Refresh (ueVersion e) (ueRecord e)))"
            using Some p by auto
        next
          fix j' pw'' v rec assume r: "requests ?a j' = Some (u, pw'', Refresh v rec)"
          have "rec \<in> S" if "j' = j"
            using r that s step_refresh assms(2) by (fastforce simp: a' watched_def)
          then show "(\<exists>j pw'. requests a j = Some (u, pw', Refresh v rec)) \<or> rec \<in> S"
            using r by (auto simp: a' split: if_splits)
        qed
        then show ?thesis using False a' pc pc_within_mono by fastforce
      qed
    qed
  next
    case (Login j u' pw')
    then have "j \<noteq> i" using assms(3) by blast
    have "pc_within (matches (P u) tok bc) ?a u pw S pc"
      by (rule pc_within_frame [OF w]) (auto simp: Login split: if_splits)
    then show ?thesis using \<open>j \<noteq> i\<close> pc pc_within_mono by (fastforce simp: Login)
  next
    case (AEntry c)
    have "pc_within (matches (P u) tok bc) ?a u pw S pc" by (rule pc_within_frame [OF w]) (auto simp: AEntry)
    then show ?thesis using pc pc_within_mono by (fastforce simp: AEntry)
  next
    case AAnnounce
    have "pc_within (matches (P u) tok bc) ?a u pw S pc" by (rule pc_within_frame [OF w]) (auto simp: AAnnounce)
    then show ?thesis using pc pc_within_mono by (fastforce simp: AAnnounce)
  qed
  then show ?thesis by (auto simp: watched_def)
qed

lemma watched_run:
  assumes "auth_ok E P tok bc a" and "watched (matches (P u) tok bc) i u pw S a" and "\<forall>u' pw'. Login i u' pw' \<notin> set evs"
    and "\<And>u. presented evs u \<subseteq> P u"
  shows "watched (matches (P u) tok bc) i u pw (S \<union> observed E tok bc u evs a) (auth_run E tok bc evs a)"
  using assms
proof (induction evs arbitrary: a S)
  case Nil
  then show ?case by (auto simp: watched_def intro: pc_within_mono)
next
  case (Cons ev evs)
  have w1: "watched (matches (P u) tok bc) i u pw (S \<union> cur u (auth_step E tok bc ev a)) (auth_step E tok bc ev a)"
    by (rule watched_step [OF Cons.prems(1-2)]) (use Cons.prems(3) in auto)
  note ps = presented_Cons [OF Cons.prems(4)]
  from Cons.IH [OF auth_ok_step [OF ps(1) Cons.prems(1)] w1 _ ps(2)]
  have w: "watched (matches (P u) tok bc) i u pw (S \<union> cur u (auth_step E tok bc ev a) \<union> observed E tok bc u evs (auth_step E tok bc ev a))
      (auth_run E tok bc evs (auth_step E tok bc ev a))"
    using Cons.prems(3) by simp
  have "cur u (auth_step E tok bc ev a) \<subseteq> observed E tok bc u evs (auth_step E tok bc ev a)"
    by (cases evs) auto
  then have "S \<union> cur u (auth_step E tok bc ev a) \<union> observed E tok bc u evs (auth_step E tok bc ev a)
      \<subseteq> S \<union> observed E tok bc u (ev # evs) a" by auto
  then show ?case using w pc_within_mono unfolding watched_def fold_Cons comp_def by blast
qed

lemma watched_login:
  assumes "auth_ok E P tok bc a"
  shows "watched (matches (P u) tok bc) i u pw (cur u a) (auth_step E tok bc (Login i u pw) a)"
proof -
  let ?v = "users_version (authStore a)"
  have c: "rec \<in> cur u a" if "users.views.stamped (authStore a) u ?v (Some rec)" for rec
    using users.views.stamped_current [OF that] by (simp add: cur_def)
  have "ueRecord e \<in> cur u a" if "om_get (authUsers a) u = Some e" "ueVersion e = ?v" for e
  proof -
    have "users.views.stamped (authStore a) u (ueVersion e) (Some (ueRecord e))"
      using assms that(1) unfolding auth_ok_def by blast
    then show ?thesis using c that(2) by simp
  qed
  moreover have "rec \<in> cur u a" if "requests a j = Some (u, pw', Refresh ?v rec)" for j pw' rec
  proof -
    have "pc_sound bc (authStore a) u pw' (Refresh ?v rec)" using assms that unfolding auth_ok_def by blast
    then show ?thesis using c by simp
  qed
  ultimately have "pc_within (matches (P u) tok bc) (auth_step E tok bc (Login i u pw) a) u pw (cur u a) (Fast ?v)"
    by (auto split: if_splits)
  then show ?thesis by (simp add: watched_def cur_def)
qed

text \<open>
  C5. A password opens an account only if it matches it. Whatever the user edits and the other requests
  around it, if verification accepts a user name and password, then there is a moment between the
  request's start and its end at which the store held a record of that user whose hash the password
  matches, or at which a user edit was committed but not yet announced and the record just before that
  edit has such a hash. (In that window a fast-path request can still be let in with the password that
  is being replaced; the edit has not been reported done.) The cache knows passwords by their
  \<^verbatim>\<open>credToken\<close> only, and nothing is assumed of the digest behind it: what matches is the password or one
  presented for the same user name with the same token, and if no two passwords presented for the user
  have the same token, it is the password itself.
\<close>

theorem verify_sound:
  assumes "tok = credToken mac credKey" and "a = auth_run E tok bc earlier newAuthenticator"
    and "a1 = auth_step E tok bc (Login i u pw) a" and "\<forall>u' pw'. Login i u' pw' \<notin> set later"
    and "requests (auth_run E tok bc later a1) i = Some (u', pw', Answered (Inr ident))"
    and "ps = presented (earlier @ Login i u pw # later) u"
  shows "\<exists>rec \<in> observed E tok bc u later a1.
    (\<exists>p \<in> ps. tok p = tok pw \<and> bc (uPasswordHash rec) p) \<and> (inj_on tok ps \<longrightarrow> bc (uPasswordHash rec) pw)"
proof -
  let ?P = "presented (earlier @ Login i u pw # later)"
  have sub: "\<And>v. presented earlier v \<subseteq> ?P v" "\<And>v. presented [Login i u pw] v \<subseteq> ?P v" "\<And>v. presented later v \<subseteq> ?P v"
    by (auto simp: presented_def)
  have ok: "auth_ok E ?P tok bc a" unfolding assms(2) by (rule auth_ok_run [OF sub(1) auth_ok_new])
  have c: "cur u a \<subseteq> observed E tok bc u later a1"
    using cur_same [of a1 a u] by (cases later) (auto simp: assms(3))
  have "watched (matches (?P u) tok bc) i u pw (cur u a \<union> observed E tok bc u later a1) (auth_run E tok bc later a1)"
    using watched_run [OF auth_ok_step [OF sub(2) ok] watched_login [OF ok] assms(4) sub(3)] by (simp add: assms(3))
  then obtain rec where rec: "rec \<in> observed E tok bc u later a1" "matches ps tok bc (uPasswordHash rec) pw"
    using assms(5) c unfolding assms(6) by (auto simp: watched_def)
  have "pw \<in> ps" by (auto simp: assms(6) presented_def)
  then show ?thesis using rec unfolding matches_def by (metis inj_onD)
qed


text \<open>An account whose hash is the password itself, for the examples.\<close>

definition exUser :: "Grant list \<Rightarrow> User" where
  "exUser gs = \<lparr>uUsername = ''alice'', uPasswordHash = ''pw'', uGrants = gs, uRoot = False, uCreatedAtMs = 0, uUpdatedAtMs = 0\<rparr>"

definition exAdmin :: "Grant list" where
  "exAdmin = [\<lparr>gAction = ActionAdmin, gPatterns = [''*'']\<rparr>]"

definition plain_compare :: "string \<Rightarrow> string \<Rightarrow> bool" where
  "plain_compare h p \<longleftrightarrow> h = p"

definition exLogin :: "auth_event list" where
  "exLogin = [AEntry (OpCreateUser (exUser exAdmin)), AAnnounce]"

text \<open>A digest that is not injective: the first 32 bytes of key and password.\<close>

abbreviation exToken :: "string \<Rightarrow> string" where
  "exToken \<equiv> credToken (\<lambda>k p. k @ p) ''key''"

theorem verify_sound_witness:
  "\<exists>rec \<in> observed exEnv exToken plain_compare ''alice'' (replicate 6 (AStep 0 0 0 Admitted))
      (auth_step exEnv exToken plain_compare (Login 0 ''alice'' ''pw'') (auth_run exEnv exToken plain_compare exLogin newAuthenticator)).
    plain_compare (uPasswordHash rec) ''pw''"
proof -
  let ?later = "replicate 6 (AStep 0 0 0 Admitted)"
  have r: "requests (auth_run exEnv exToken plain_compare ?later
      (auth_step exEnv exToken plain_compare (Login 0 ''alice'' ''pw'')
        (auth_run exEnv exToken plain_compare exLogin newAuthenticator))) 0 =
      Some (''alice'', ''pw'', Answered (Inr ((exUser exAdmin)\<lparr>uPasswordHash := ''''\<rparr>)))"
    by code_simp
  have p: "presented (exLogin @ Login 0 ''alice'' ''pw'' # ?later) ''alice'' = {''pw''}"
    by (auto simp: presented_def exLogin_def)
  show ?thesis using verify_sound [OF refl refl refl _ r refl] unfolding p by auto
qed

section \<open>An identity can be out of date\<close>

definition exRevoked :: "auth_event list" where
  "exRevoked = exLogin @ [Login 1 ''alice'' ''pw''] @ replicate 3 (AStep 1 0 0 Admitted) @
     [AEntry (OpSetUserGrants \<lparr>ugUsername = ''alice'', ugGrants = [], ugUpdatedAtMs = 1\<rparr>), AAnnounce]"

definition exOvertaken :: "auth_event list" where
  "exOvertaken = replicate 4 (AStep 2 0 0 Admitted) @ [AStep 1 0 0 Admitted] @ replicate 2 (AStep 2 0 0 Admitted)"

text \<open>
  C13. A request can be served with revoked grants. An older request that has read the user record and
  waits for the lock writes that record over the newer one a younger request refreshed; the younger
  request, back from bcrypt, answers with whatever identity the entry then holds. Here an account's
  admin grant is revoked, the change is announced, and only then a request starts; no entry is applied
  after that, and the request is answered with the admin identity.
\<close>

theorem stale_identity_race:
  "(\<exists>rec ident. user_at (sDb (authStore (auth_run exEnv (\<lambda>x. x) plain_compare exRevoked newAuthenticator))) ''alice'' = Some rec \<and>
     \<not> IsAdmin rec \<and> sPending (authStore (auth_run exEnv (\<lambda>x. x) plain_compare exRevoked newAuthenticator)) = None \<and>
     requests (auth_run exEnv (\<lambda>x. x) plain_compare exOvertaken (auth_step exEnv (\<lambda>x. x) plain_compare
       (Login 2 ''alice'' ''pw'') (auth_run exEnv (\<lambda>x. x) plain_compare exRevoked newAuthenticator))) 2 =
       Some (''alice'', ''pw'', Answered (Inr ident)) \<and> IsAdmin ident)"
proof -
  let ?a = "auth_run exEnv (\<lambda>x. x) plain_compare exRevoked newAuthenticator"
  have "user_at (sDb (authStore ?a)) ''alice'' = Some ((exUser [])\<lparr>uUpdatedAtMs := 1\<rparr>)" by code_simp
  moreover have "\<not> IsAdmin ((exUser [])\<lparr>uUpdatedAtMs := 1\<rparr>)" by code_simp
  moreover have "sPending (authStore ?a) = None" by code_simp
  moreover have "requests (auth_run exEnv (\<lambda>x. x) plain_compare exOvertaken
      (auth_step exEnv (\<lambda>x. x) plain_compare (Login 2 ''alice'' ''pw'') ?a)) 2 =
      Some (''alice'', ''pw'', Answered (Inr ((exUser exAdmin)\<lparr>uPasswordHash := ''''\<rparr>)))" by code_simp
  moreover have "IsAdmin ((exUser exAdmin)\<lparr>uPasswordHash := ''''\<rparr>)" by code_simp
  ultimately show ?thesis by blast
qed

end
