(* ===== verification/Bytes.thy ===== *)
theory Bytes
  imports Prelude
begin

unbundle bit_operations_syntax

text \<open>
  Bytes as the Go standard library lays them out: \<^verbatim>\<open>encoding/binary\<close> in both byte orders, unsigned varints,
  and the Castagnoli checksum of \<^verbatim>\<open>hash/crc32\<close>. The file formats of the storage layer are built from them.
\<close>

type_synonym byte = "8 word"

named_theorems byte_lengths \<open>lengths of encoded values\<close>

subsection \<open>Fixed-width integers\<close>

definition be32 :: "32 word \<Rightarrow> byte list" where
  "be32 v = [ucast (drop_bit 24 v), ucast (drop_bit 16 v), ucast (drop_bit 8 v), ucast v]"

definition be64 :: "64 word \<Rightarrow> byte list" where
  "be64 v = be32 (ucast (drop_bit 32 v)) @ be32 (ucast v)"

definition get32 :: "byte list \<Rightarrow> 32 word" where
  "get32 b = push_bit 24 (ucast (b ! 0)) OR push_bit 16 (ucast (b ! 1)) OR push_bit 8 (ucast (b ! 2)) OR ucast (b ! 3)"

definition get64 :: "byte list \<Rightarrow> 64 word" where
  "get64 b = push_bit 32 (ucast (get32 (take 4 b))) OR ucast (get32 (drop 4 b))"

definition le32 :: "32 word \<Rightarrow> byte list" where
  "le32 v = rev (be32 v)"

definition le64 :: "64 word \<Rightarrow> byte list" where
  "le64 v = rev (be64 v)"

definition getLE32 :: "byte list \<Rightarrow> 32 word" where
  "getLE32 b = get32 (rev (take 4 b))"

definition getLE64 :: "byte list \<Rightarrow> 64 word" where
  "getLE64 b = get64 (rev (take 8 b))"

lemma length_be32 [simp, byte_lengths]: "length (be32 v) = 4"
  by (simp add: be32_def)

lemma length_be64 [simp, byte_lengths]: "length (be64 v) = 8"
  by (simp add: be64_def)

lemma length_le32 [simp, byte_lengths]: "length (le32 v) = 4"
  by (simp add: le32_def)

lemma length_le64 [simp, byte_lengths]: "length (le64 v) = 8"
  by (simp add: le64_def)

lemma get32_be32 [simp]: "get32 (be32 v) = v"
proof (rule bit_word_eqI)
  fix n assume n: "n < LENGTH(32)"
  then consider "n < 8" | "8 \<le> n" "n < 16" | "16 \<le> n" "n < 24" | "24 \<le> n" "n < 32"
    by fastforce
  then show "bit (get32 (be32 v)) n = bit v n"
    by cases (auto simp: get32_def be32_def bit_simps)
qed

lemma be32_get32: "length b = 4 \<Longrightarrow> be32 (get32 b) = b"
proof -
  assume b: "length b = 4"
  have high: "\<not> bit (x :: byte) (8 + n) \<and> \<not> bit x (16 + n) \<and> \<not> bit x (24 + n)" for x n
    using bit_imp_le_length [of x "8 + n"] bit_imp_le_length [of x "16 + n"] bit_imp_le_length [of x "24 + n"]
    by auto
  have "be32 (get32 b) = [b ! 0, b ! 1, b ! 2, b ! 3]"
    unfolding be32_def get32_def by (auto simp: bit_simps high intro!: bit_word_eqI)
  also have "\<dots> = b"
    using b by (auto simp: list_eq_iff_nth_eq nth_Cons' numeral_eq_Suc less_Suc_eq)
  finally show ?thesis .
qed

lemma get64_be64 [simp]: "get64 (be64 v) = v"
proof (rule bit_word_eqI)
  fix n assume n: "n < LENGTH(64)"
  then consider "n < 32" | "32 \<le> n" "n < 64"
    by fastforce
  then show "bit (get64 (be64 v)) n = bit v n"
    by cases (auto simp: get64_def be64_def bit_simps)
qed

lemma getLE32_le32 [simp]: "getLE32 (le32 v) = v"
  by (simp add: getLE32_def le32_def)

lemma getLE64_le64 [simp]: "getLE64 (le64 v) = v"
  by (simp add: getLE64_def le64_def)

lemma getLE32_append [simp]: "getLE32 (le32 v @ b) = v"
  by (simp add: getLE32_def le32_def)

lemma getLE64_append [simp]: "getLE64 (le64 v @ b) = v"
  by (simp add: getLE64_def le64_def)

lemma be32_nth_append [simp]: "get32 (be32 v @ b) = v"
  using get32_be32 [of v] by (simp add: get32_def nth_append)

text \<open>A signed integer of the right range survives its unsigned image.\<close>

lemma sint_int32 [simp]: "- (2 ^ 31) \<le> i \<Longrightarrow> i < 2 ^ 31 \<Longrightarrow> sint (word_of_int i :: 32 word) = i"
  by (simp add: sint_word_ariths signed_take_bit_int_eq_self sint_sbintrunc')

lemma sint_int64 [simp]: "- (2 ^ 63) \<le> i \<Longrightarrow> i < 2 ^ 63 \<Longrightarrow> sint (word_of_int i :: 64 word) = i"
  by (simp add: signed_take_bit_int_eq_self sint_sbintrunc')

subsection \<open>Unsigned varints\<close>

text \<open>
  \<^verbatim>\<open>AppendUvarint\<close> writes seven bits a byte, low bits first, and marks every byte but the last.
  \<^verbatim>\<open>Uvarint\<close> returns the value and the number of bytes it read; \<open>None\<close> stands for its two failures (the input
  ends early, the value does not fit 64 bits). The bits it collects never overlap, so they are added.
\<close>

fun AppendUvarint :: "nat \<Rightarrow> byte list" where
  "AppendUvarint x =
     (if x \<ge> 128 then word_of_nat (x mod 128 + 128) # AppendUvarint (x div 128) else [word_of_nat x])"

declare AppendUvarint.simps [simp del]

fun uvarint_loop :: "byte list \<Rightarrow> nat \<Rightarrow> nat \<Rightarrow> (nat \<times> nat) option" where
  "uvarint_loop [] i x = None"
| "uvarint_loop (b # bs) i x =
     (if i = 10 then None
      else if unat b < 128
        then if i = 9 \<and> unat b > 1 then None else Some (x + unat b * 128 ^ i, i + 1)
      else uvarint_loop bs (i + 1) (x + (unat b mod 128) * 128 ^ i))"

definition Uvarint :: "byte list \<Rightarrow> (nat \<times> nat) option" where
  "Uvarint b = uvarint_loop b 0 0"

lemma uvarint_loop_append:
  "x < 2 ^ (64 - 7 * i) \<Longrightarrow> i \<le> 9 \<Longrightarrow>
   uvarint_loop (AppendUvarint x @ rest) i acc = Some (acc + x * 128 ^ i, i + length (AppendUvarint x))"
proof (induction x arbitrary: i acc rule: AppendUvarint.induct)
  case (1 x)
  show ?case
  proof (cases "x \<ge> 128")
    case True
    have i: "i < 9"
    proof (rule ccontr)
      assume "\<not> i < 9"
      then have "i = 9" using 1(3) by simp
      then show False using 1(2) True by simp
    qed
    have "64 - 7 * i = 7 + (64 - 7 * (i + 1))"
      using i by simp
    then have "x < 2 ^ 7 * 2 ^ (64 - 7 * (i + 1))"
      using 1(2) by (simp only: power_add)
    then have div: "x div 128 < 2 ^ (64 - 7 * (i + 1))"
      by (simp add: less_mult_imp_div_less mult.commute)
    have byte: "unat (word_of_nat (x mod 128 + 128) :: byte) = x mod 128 + 128"
      by (subst unat_of_nat) (simp add: mod_less)
    have "x * 128 ^ i = (x mod 128 + x div 128 * 128) * 128 ^ i"
      by (simp only: mod_div_mult_eq)
    also have "\<dots> = x mod 128 * 128 ^ i + x div 128 * 128 ^ (i + 1)"
      by (simp only: distrib_right) simp
    finally have sum: "x mod 128 * 128 ^ i + x div 128 * 128 ^ (i + 1) = x * 128 ^ i"
      by (rule sym)
    have eq: "AppendUvarint x = word_of_nat (x mod 128 + 128) # AppendUvarint (x div 128)"
      using True by (simp add: AppendUvarint.simps [of x])
    have "uvarint_loop (AppendUvarint x @ rest) i acc
        = uvarint_loop (AppendUvarint (x div 128) @ rest) (i + 1) (acc + x mod 128 * 128 ^ i)"
      using i by (simp only: eq append_Cons uvarint_loop.simps byte) simp
    also have "\<dots> = Some (acc + x mod 128 * 128 ^ i + x div 128 * 128 ^ (i + 1),
        i + 1 + length (AppendUvarint (x div 128)))"
      by (rule 1(1) [OF True div]) (use i in simp)
    finally show ?thesis
      by (simp only: sum add.assoc eq list.size) simp
  next
    case False
    then have "unat (word_of_nat x :: byte) = x"
      by (simp add: unat_of_nat take_bit_eq_mod)
    moreover have "i = 9 \<Longrightarrow> x \<le> 1"
      using 1(2) by simp
    ultimately show ?thesis
      using False 1(3) by (auto simp: AppendUvarint.simps [of x])
  qed
qed

lemma Uvarint_append [simp]:
  "x < 2 ^ 64 \<Longrightarrow> Uvarint (AppendUvarint x @ rest) = Some (x, length (AppendUvarint x))"
  using uvarint_loop_append [of x 0 rest 0] by (simp add: Uvarint_def)

lemma AppendUvarint_pos [simp]: "0 < length (AppendUvarint x)"
  by (subst AppendUvarint.simps) simp

text \<open>A value cut short is an error, not a smaller value.\<close>

lemma uvarint_loop_take:
  "k < length (AppendUvarint x) \<Longrightarrow> uvarint_loop (take k (AppendUvarint x)) i acc = None"
proof (induction x arbitrary: i k acc rule: AppendUvarint.induct)
  case (1 x)
  show ?case
  proof (cases "x \<ge> 128 \<and> k \<noteq> 0")
    case True
    then obtain k' where k: "k = Suc k'"
      using not0_implies_Suc by blast
    have byte: "unat (word_of_nat (x mod 128 + 128) :: byte) = x mod 128 + 128"
      by (subst unat_of_nat) (simp add: mod_less)
    have eq: "AppendUvarint x = word_of_nat (x mod 128 + 128) # AppendUvarint (x div 128)"
      using True by (simp add: AppendUvarint.simps [of x])
    have "k' < length (AppendUvarint (x div 128))"
      using 1(2) by (simp add: k eq)
    then have "uvarint_loop (take k' (AppendUvarint (x div 128))) (i + 1) acc' = None" for acc'
      using 1(1) True by blast
    then show ?thesis
      by (simp only: eq k take_Suc_Cons uvarint_loop.simps byte) simp
  next
    case False
    then have "k = 0"
      using 1(2) by (auto simp: AppendUvarint.simps [of x] split: if_splits)
    then show ?thesis by simp
  qed
qed

lemma Uvarint_take: "k < length (AppendUvarint x) \<Longrightarrow> Uvarint (take k (AppendUvarint x)) = None"
  by (simp add: Uvarint_def uvarint_loop_take)

lemma Uvarint_consumes: "uvarint_loop b i x = Some (v, n) \<Longrightarrow> i < n \<and> n \<le> i + length b"
  by (induction b i x rule: uvarint_loop.induct) (auto split: if_splits)

subsection \<open>The CRC-32C checksum\<close>

text \<open>
  The reflected Castagnoli polynomial, table entry by table entry. \<open>crc_update\<close> is \<^verbatim>\<open>crc32.Update\<close>, which
  complements the running value on the way in and on the way out, so it can be fed piece by piece.
\<close>

definition castagnoli :: "32 word" where
  "castagnoli = 0x82f63b78"

definition crc_bit :: "32 word \<Rightarrow> 32 word" where
  "crc_bit c = (if bit c 0 then drop_bit 1 c XOR castagnoli else drop_bit 1 c)"

definition crc_table :: "byte \<Rightarrow> 32 word" where
  "crc_table i = (crc_bit ^^ 8) (ucast i)"

definition crc_step :: "32 word \<Rightarrow> byte \<Rightarrow> 32 word" where
  "crc_step c v = crc_table (ucast c XOR v) XOR drop_bit 8 c"

definition crc_update :: "32 word \<Rightarrow> byte list \<Rightarrow> 32 word" where
  "crc_update c p = NOT (foldl crc_step (NOT c) p)"

definition crc32cOf :: "byte list list \<Rightarrow> 32 word" where
  "crc32cOf parts = foldl crc_update 0 parts"

lemma crc_update_append: "crc_update (crc_update c a) b = crc_update c (a @ b)"
  by (simp add: crc_update_def)

lemma crc_update_Nil [simp]: "crc_update c [] = c"
  by (simp add: crc_update_def)

lemma crc32cOf_pair: "crc32cOf [a, b] = crc_update 0 (a @ b)"
  by (simp add: crc32cOf_def crc_update_append)


subsection \<open>What the checksum detects\<close>

text \<open>
  The table step is eight shifts of the bitwise division. A shift can be undone, because the top bit of the
  polynomial tells whether it was added, so a step is injective in the running value and in the byte: two
  streams of the same length that differ in one byte have different checksums.
\<close>

lemma crc_bit_xor: "crc_bit (xor a b) = xor (crc_bit a) (crc_bit b)"
  by (auto simp: crc_bit_def bit_simps intro!: bit_word_eqI)

lemma crc_shift_xor: "(crc_bit ^^ k) (xor a b) = xor ((crc_bit ^^ k) a) ((crc_bit ^^ k) b)"
  by (induction k) (simp_all add: crc_bit_xor)

lemma crc_shift_zero_bits:
  "(\<forall>i < k. \<not> bit a i) \<Longrightarrow> (crc_bit ^^ k) a = drop_bit k a"
proof (induction k)
  case (Suc k)
  then have "(crc_bit ^^ Suc k) a = crc_bit (drop_bit k a)"
    by simp
  moreover have "\<not> bit (drop_bit k a) 0"
    using Suc(2) by (simp add: bit_simps)
  then have "crc_bit (drop_bit k a) = drop_bit (Suc k) a"
    by (simp add: crc_bit_def)
  ultimately show ?case by simp
qed simp

lemma xor_cancel: "xor a b = xor a d \<Longrightarrow> b = (d :: 'a::len word)"
  by (metis bit.xor_left_self)

lemma crc_bit_inj: "crc_bit a = crc_bit b \<Longrightarrow> a = b"
proof -
  assume eq: "crc_bit a = crc_bit b"
  have top: "bit (crc_bit c) 31 = bit c 0" for c
    by (auto simp: crc_bit_def castagnoli_def bit_simps dest: bit_imp_le_length)
  then have low: "bit a 0 = bit b 0"
    using eq by metis
  then have "drop_bit 1 a = drop_bit 1 b"
    using eq by (auto simp: crc_bit_def xor.commute [of _ castagnoli] split: if_splits dest: xor_cancel)
  then have "bit a (Suc n) = bit b (Suc n)" for n
    by (metis bit_drop_bit_eq comp_apply plus_1_eq_Suc)
  with low show "a = b"
    by (metis bit_word_eqI not0_implies_Suc)
qed

lemma crc_shift_inj: "(crc_bit ^^ k) a = (crc_bit ^^ k) b \<Longrightarrow> a = b"
  by (induction k) (auto dest: crc_bit_inj)

lemma crc_step_bits: "crc_step c v = (crc_bit ^^ 8) (xor c (ucast v))"
proof -
  let ?low = "ucast (xor (ucast c) v :: byte) :: 32 word"
  let ?high = "push_bit 8 (drop_bit 8 c) :: 32 word"
  have "xor c (ucast v) = xor ?low ?high"
    by (rule bit_word_eqI) (auto simp: bit_simps)
  moreover have "bit c (8 + n) \<Longrightarrow> 8 + n < 32" for n
    using bit_imp_le_length [of c "8 + n"] by simp
  then have "drop_bit 8 ?high = drop_bit 8 c"
    by (intro bit_word_eqI) (auto simp: bit_simps)
  then have "(crc_bit ^^ 8) ?high = drop_bit 8 c"
    by (subst crc_shift_zero_bits) (auto simp: bit_simps)
  ultimately show ?thesis
    by (simp add: crc_step_def crc_table_def crc_shift_xor)
qed


lemma crc_step_inj_state: "crc_step c v = crc_step d v \<Longrightarrow> c = d"
  unfolding crc_step_bits xor.commute [of _ "ucast v"] by (rule xor_cancel [OF crc_shift_inj])

lemma crc_step_inj_byte: "crc_step c v = crc_step c w \<Longrightarrow> v = w"
proof -
  assume "crc_step c v = crc_step c w"
  then have "(ucast v :: 32 word) = ucast w"
    unfolding crc_step_bits by (rule xor_cancel [OF crc_shift_inj])
  then have "(ucast (ucast v :: 32 word) :: byte) = ucast (ucast w :: 32 word)"
    by (rule arg_cong)
  moreover have "(ucast (ucast x :: 32 word) :: byte) = x" for x :: byte
    by (rule bit_word_eqI) (simp add: bit_simps)
  ultimately show ?thesis by metis
qed

lemma crc_fold_inj: "foldl crc_step c p = foldl crc_step d p \<Longrightarrow> c = d"
  by (induction p arbitrary: c d) (auto dest: crc_step_inj_state)

lemma crc_detects_byte:
  assumes "i < length p" and "p ! i \<noteq> b"
  shows "crc_update c (p[i := b]) \<noteq> crc_update c p"
proof
  assume "crc_update c (p[i := b]) = crc_update c p"
  then have eq: "foldl crc_step (NOT c) (p[i := b]) = foldl crc_step (NOT c) p"
    by (simp add: crc_update_def)
  have fold: "foldl crc_step (NOT c) (take i p @ x # drop (Suc i) p)
      = foldl crc_step (crc_step (foldl crc_step (NOT c) (take i p)) x) (drop (Suc i) p)" for x
    by simp
  have "crc_step (foldl crc_step (NOT c) (take i p)) b = crc_step (foldl crc_step (NOT c) (take i p)) (p ! i)"
    by (rule crc_fold_inj [where p = "drop (Suc i) p"])
      (simp only: fold [symmetric] upd_conv_take_nth_drop [OF assms(1), symmetric]
        id_take_nth_drop [OF assms(1), symmetric] list_update_id eq)
  then show False
    using assms(2) crc_step_inj_byte by blast
qed

end
