(* ===== verification/Frame.thy ===== *)
theory Frame
  imports Bytes Errs
begin

text \<open>
  Frames, the unit a partition log writes and checks: \<^verbatim>\<open>src/internal/persistence/storage/format.go\<close>,
  \<^verbatim>\<open>frame.go\<close>, \<^verbatim>\<open>codec.go\<close> and \<^verbatim>\<open>codec/codec.go\<close>. A frame is a 27-byte header with a CRC and a payload of
  length-prefixed records, compressed or not. The zstd compressor is a third-party package: a codec is a
  parameter of the functions that use one, and \<open>frame_codec\<close> states what they rely on.

  Files are read through \<^verbatim>\<open>io.ReaderAt\<close>: a reader is asked for \<open>n\<close> bytes at a position and answers with an
  error or with the bytes it has there, fewer than \<open>n\<close> only at the end of the file.
\<close>

type_synonym reader = "nat \<Rightarrow> nat \<Rightarrow> byte list result"

definition file_reader :: "byte list \<Rightarrow> reader" where
  "file_reader f pos n = Inr (take n (drop pos f))"

definition slice :: "nat \<Rightarrow> nat \<Rightarrow> 'a list \<Rightarrow> 'a list" where
  "slice a b xs = take (b - a) (drop a xs)"

lemma file_reader_simps [simp]: "file_reader f pos n = Inr (take n (drop pos f))"
  by (simp add: file_reader_def)

subsection \<open>The header\<close>

abbreviation magicByte0 :: byte where
  "magicByte0 \<equiv> 0xCA"

abbreviation magicByte1 :: byte where
  "magicByte1 \<equiv> 0xFE"

abbreviation headerSize :: nat where
  "headerSize \<equiv> 27"

definition codecMask :: byte where
  "codecMask = 7"

definition maxFrameBytes :: nat where
  "maxFrameBytes = 256 * 1024 * 1024"

record frameHeader =
  hFlags :: byte
  hRecordCount :: int
  hBaseOffset :: int
  hUncompressed :: int
  hCompressed :: int
  hCrc :: "32 word"

definition header_codec :: "frameHeader \<Rightarrow> byte" where
  "header_codec h = and (hFlags h) codecMask"

definition encodeHeader :: "frameHeader \<Rightarrow> byte list" where
  "encodeHeader h =
     [magicByte0, magicByte1, hFlags h] @ be32 (word_of_int (hRecordCount h)) @ be64 (word_of_int (hBaseOffset h))
     @ be32 (word_of_int (hUncompressed h)) @ be32 (word_of_int (hCompressed h)) @ be32 (hCrc h)"

definition decodeHeader :: "byte list \<Rightarrow> frameHeader result" where
  "decodeHeader buf =
     (if length buf < headerSize then Inl ErrCorruptRecord
      else if buf ! 0 \<noteq> magicByte0 \<or> buf ! 1 \<noteq> magicByte1 then Inl errBadMagic
      else let h = \<lparr>hFlags = buf ! 2, hRecordCount = sint (get32 (slice 3 7 buf)),
                    hBaseOffset = sint (get64 (slice 7 15 buf)), hUncompressed = sint (get32 (slice 15 19 buf)),
                    hCompressed = sint (get32 (slice 19 23 buf)), hCrc = get32 (slice 23 27 buf)\<rparr>
        in if hRecordCount h \<le> 0 \<or> hUncompressed h \<le> 0 \<or> hCompressed h \<le> 0 \<or> hBaseOffset h < 0
           then Inl ErrCorruptRecord
           else if hCompressed h > int maxFrameBytes \<or> hUncompressed h > int maxFrameBytes
           then Inl ErrCorruptRecord
           else Inr h)"

lemma length_encodeHeader [simp, byte_lengths]: "length (encodeHeader h) = headerSize"
  by (simp add: encodeHeader_def)

text \<open>The fields a written header has: counts and sizes that are positive and within the frame bound.\<close>

definition header_ok :: "frameHeader \<Rightarrow> bool" where
  "header_ok h \<longleftrightarrow> 0 < hRecordCount h \<and> hRecordCount h < 2 ^ 31 \<and> 0 \<le> hBaseOffset h \<and> hBaseOffset h < 2 ^ 63
     \<and> 0 < hUncompressed h \<and> hUncompressed h \<le> int maxFrameBytes
     \<and> 0 < hCompressed h \<and> hCompressed h \<le> int maxFrameBytes"

lemma decodeHeader_encodeHeader: "header_ok h \<Longrightarrow> decodeHeader (encodeHeader h) = Inr h"
  by (simp add: decodeHeader_def encodeHeader_def header_ok_def maxFrameBytes_def slice_def Let_def)

lemma decodeHeader_ok: "decodeHeader buf = Inr h \<Longrightarrow> header_ok h"
proof -
  assume h: "decodeHeader buf = Inr h"
  have "sint (get32 (slice 3 7 buf)) < 2 ^ 31" and "sint (get64 (slice 7 15 buf)) < 2 ^ 63"
    using sint_lt [of "get32 (slice 3 7 buf)"] sint_lt [of "get64 (slice 7 15 buf)"] by simp_all
  then show ?thesis
    using h by (auto simp: decodeHeader_def header_ok_def Let_def split: if_splits)
qed

subsection \<open>Record streams\<close>

fun encodeRecordsPayload :: "byte list list \<Rightarrow> byte list" where
  "encodeRecordsPayload [] = []"
| "encodeRecordsPayload (r # records) = be32 (word_of_nat (length r)) @ r @ encodeRecordsPayload records"

fun split_records :: "nat \<Rightarrow> byte list \<Rightarrow> (byte list list \<times> byte list) result" where
  "split_records 0 payload = Inr ([], payload)"
| "split_records (Suc i) payload =
     (if length payload < 4 then Inl ErrCorruptRecord
      else let l = unat (get32 (take 4 payload)); rest = drop 4 payload
        in if length rest < l then Inl ErrCorruptRecord
           else bind_sum (split_records i (drop l rest)) (\<lambda>(out, left). Inr (take l rest # out, left)))"

definition decodeRecordsPayload :: "byte list \<Rightarrow> int \<Rightarrow> (byte list list) result" where
  "decodeRecordsPayload payload recordCount =
     bind_sum (split_records (nat recordCount) payload)
       (\<lambda>(out, left). if left \<noteq> [] then Inl ErrCorruptRecord else Inr out)"

lemma length_encodeRecordsPayload:
  "length (encodeRecordsPayload records) = sum_list (map (\<lambda>r. 4 + length r) records)"
  by (induction records) simp_all

lemma records_le_payload: "4 * length records \<le> length (encodeRecordsPayload records)"
  by (induction records) simp_all

lemma record_le_payload: "r \<in> set records \<Longrightarrow> length r < length (encodeRecordsPayload records)"
  by (induction records) auto

lemma encodeRecordsPayload_Nil [simp]: "encodeRecordsPayload records = [] \<longleftrightarrow> records = []"
  by (cases records) (simp_all add: be32_def)

lemma encodeRecordsPayload_append [simp]:
  "encodeRecordsPayload (a @ b) = encodeRecordsPayload a @ encodeRecordsPayload b"
  by (induction a) simp_all

lemma split_records_encode:
  "(\<forall>r \<in> set records. length r < 2 ^ 32) \<Longrightarrow>
   split_records (length records) (encodeRecordsPayload records @ left) = Inr (records, left)"
  by (induction records) (simp_all add: Let_def unat_of_nat)

lemma decodeRecordsPayload_encode:
  "(\<forall>r \<in> set records. length r < 2 ^ 32) \<Longrightarrow>
   decodeRecordsPayload (encodeRecordsPayload records) (int (length records)) = Inr records"
  using split_records_encode [of records "[]"] by (simp add: decodeRecordsPayload_def)

subsection \<open>Codecs\<close>

record codec =
  Flag :: byte
  Encode :: "byte list \<Rightarrow> byte list"
  Decode :: "byte list \<Rightarrow> byte list option"

abbreviation FlagNone :: byte where
  "FlagNone \<equiv> 0"

abbreviation FlagZstd :: byte where
  "FlagZstd \<equiv> 1"

definition noopCodec :: codec where
  "noopCodec = \<lparr>Flag = FlagNone, Encode = (\<lambda>src. src), Decode = Some\<rparr>"

definition codecForFlag :: "byte \<Rightarrow> codec \<Rightarrow> codec result \<Rightarrow> codec result" where
  "codecForFlag flag existing foreignZstd =
     (if flag = FlagNone then Inr noopCodec
      else if flag = FlagZstd then if Flag existing = FlagZstd then Inr existing else foreignZstd
      else Inl ErrCorruptRecord)"

subsection \<open>Writing a frame\<close>

definition frame_header :: "byte list list \<Rightarrow> int \<Rightarrow> byte \<Rightarrow> nat \<Rightarrow> frameHeader" where
  "frame_header records baseOffset flag encodedLen =
     \<lparr>hFlags = and flag codecMask, hRecordCount = int (length records), hBaseOffset = baseOffset,
      hUncompressed = int (length (encodeRecordsPayload records)), hCompressed = int encodedLen, hCrc = 0\<rparr>"

definition encodeFrame :: "byte list list \<Rightarrow> int \<Rightarrow> codec \<Rightarrow> (byte list) result" where
  "encodeFrame records baseOffset c =
     (if records = [] then Inl ErrEmptyBatch
      else let inner = encodeRecordsPayload records;
               payload = (if Flag c = FlagNone then inner else Encode c inner)
        in if length inner > maxFrameBytes \<or> length payload > maxFrameBytes then Inl ErrFrameTooLarge
           else let hdr = encodeHeader (frame_header records baseOffset (Flag c) (length payload));
                    crc = crc32cOf [slice 2 23 hdr, payload]
             in Inr (take 23 hdr @ be32 crc @ payload))"

subsection \<open>Reading a frame\<close>

definition readFrameRaw :: "reader \<Rightarrow> nat \<Rightarrow> (frameHeader \<times> byte list) result" where
  "readFrameRaw r pos =
     bind_sum (r pos headerSize) (\<lambda>hdrBuf.
       if length hdrBuf < headerSize then Inl ErrUnexpectedEOF
       else bind_sum (decodeHeader hdrBuf) (\<lambda>h.
         bind_sum (r (pos + headerSize) (nat (hCompressed h))) (\<lambda>payload.
           if length payload < nat (hCompressed h) then Inl ErrUnexpectedEOF
           else if hCrc h \<noteq> crc32cOf [slice 2 23 hdrBuf, payload] then Inl errCorrupt
           else Inr (h, payload))))"

definition frame_end :: "nat \<Rightarrow> frameHeader \<Rightarrow> nat" where
  "frame_end pos h = pos + headerSize + nat (hCompressed h)"

definition readFrameAt ::
  "reader \<Rightarrow> nat \<Rightarrow> codec \<Rightarrow> codec result \<Rightarrow> (frameHeader \<times> byte list list \<times> nat) result" where
  "readFrameAt r pos existing foreignZstd =
     bind_sum (readFrameRaw r pos) (\<lambda>(h, payload).
       bind_sum (if header_codec h \<noteq> FlagNone
                 then bind_sum (codecForFlag (header_codec h) existing foreignZstd)
                        (\<lambda>c. case Decode c payload of None \<Rightarrow> Inl errCorrupt | Some d \<Rightarrow> Inr d)
                 else Inr payload) (\<lambda>decoded.
         if int (length decoded) \<noteq> hUncompressed h then Inl errCorrupt
         else case decodeRecordsPayload decoded (hRecordCount h) of
             Inl _ \<Rightarrow> Inl errCorrupt
           | Inr records \<Rightarrow> Inr (h, records, frame_end pos h)))"

definition frameHeaderAt :: "reader \<Rightarrow> nat \<Rightarrow> (frameHeader \<times> nat) result" where
  "frameHeaderAt r pos =
     bind_sum (r pos headerSize) (\<lambda>hdrBuf.
       if length hdrBuf < headerSize then Inl ErrUnexpectedEOF
       else bind_sum (decodeHeader hdrBuf) (\<lambda>h. Inr (h, frame_end pos h)))"

text \<open>
  \<^verbatim>\<open>verifyFrameAtBuffered\<close> streams the payload through a 64 KiB chunk instead of holding it.
\<close>

abbreviation verifyChunkBytes :: nat where
  "verifyChunkBytes \<equiv> 65536"

function verify_loop :: "reader \<Rightarrow> nat \<Rightarrow> nat \<Rightarrow> 32 word \<Rightarrow> 32 word result" where
  "verify_loop r at remaining crc =
     (if remaining = 0 then Inr crc
      else let want = min remaining verifyChunkBytes
        in bind_sum (r at want) (\<lambda>chunk.
             if length chunk < want then Inl ErrUnexpectedEOF
             else verify_loop r (at + want) (remaining - want) (crc_update crc chunk)))"
  by pat_completeness auto
termination by (relation "measure (\<lambda>(r, at, remaining, crc). remaining)") auto

declare verify_loop.simps [simp del]

definition verifyFrameAtBuffered :: "reader \<Rightarrow> nat \<Rightarrow> (frameHeader \<times> nat) result" where
  "verifyFrameAtBuffered r pos =
     bind_sum (r pos headerSize) (\<lambda>hdrBuf.
       if length hdrBuf < headerSize then Inl ErrUnexpectedEOF
       else bind_sum (decodeHeader hdrBuf) (\<lambda>h.
         bind_sum (verify_loop r (pos + headerSize) (nat (hCompressed h)) (crc_update 0 (slice 2 23 hdrBuf)))
           (\<lambda>crc. if hCrc h \<noteq> crc then Inl errCorrupt else Inr (h, frame_end pos h))))"

definition IsCorrupt :: "err \<Rightarrow> bool" where
  "IsCorrupt e = (case e of ErrVerify e' \<Rightarrow> e' \<in> {errCorrupt, errBadMagic, ErrCorruptRecord}
                  | _ \<Rightarrow> e \<in> {errCorrupt, errBadMagic, ErrCorruptRecord})"

subsection \<open>Streaming verification\<close>

lemma verify_loop_file:
  "verify_loop (file_reader f) at n crc =
     (if at + n \<le> length f \<or> n = 0 then Inr (crc_update crc (take n (drop at f))) else Inl ErrUnexpectedEOF)"
proof (induction n arbitrary: at crc rule: less_induct)
  case (less n)
  define w where "w = min n verifyChunkBytes"
  have step: "verify_loop (file_reader f) at n crc =
      (if n = 0 then Inr crc
       else if length f < at + w then Inl ErrUnexpectedEOF
       else verify_loop (file_reader f) (at + w) (n - w) (crc_update crc (take w (drop at f))))"
    by (subst verify_loop.simps) (auto simp: Let_def w_def)
  show ?case
  proof (cases "n = 0 \<or> length f < at + w")
    case True
    then show ?thesis
      unfolding step by (auto simp: w_def)
  next
    case False
    have w: "w \<le> n" "n - w < n" "n = w + (n - w)"
      using False by (auto simp: w_def)
    have split: "take w (drop at f) @ take (n - w) (drop (at + w) f) = take n (drop at f)"
      using take_add [of w "n - w" "drop at f"] w(1) by (simp add: add.commute)
    have "verify_loop (file_reader f) at n crc
        = verify_loop (file_reader f) (at + w) (n - w) (crc_update crc (take w (drop at f)))"
      unfolding step using False by simp
    also have "\<dots> = (if at + w + (n - w) \<le> length f \<or> n - w = 0
        then Inr (crc_update (crc_update crc (take w (drop at f))) (take (n - w) (drop (at + w) f)))
        else Inl ErrUnexpectedEOF)"
      by (rule less) (rule w(2))
    also have "\<dots> = (if at + n \<le> length f \<or> n = 0 then Inr (crc_update crc (take n (drop at f))) else Inl ErrUnexpectedEOF)"
      unfolding crc_update_append split using False w by auto
    finally show ?thesis .
  qed
qed

lemma verify_readFrameRaw:
  "verifyFrameAtBuffered (file_reader f) pos =
     bind_sum (readFrameRaw (file_reader f) pos) (\<lambda>(h, payload). Inr (h, frame_end pos h))"
proof (cases "length (take headerSize (drop pos f)) < headerSize")
  case True
  then show ?thesis by (auto simp: verifyFrameAtBuffered_def readFrameRaw_def)
next
  case False
  show ?thesis
  proof (cases "decodeHeader (take headerSize (drop pos f))")
    case (Inl e)
    then show ?thesis by (simp add: verifyFrameAtBuffered_def readFrameRaw_def)
  next
    case (Inr h)
    then have "0 < nat (hCompressed h)"
      using decodeHeader_ok by (auto simp: header_ok_def)
    then show ?thesis
      using False Inr
      by (auto simp: verifyFrameAtBuffered_def readFrameRaw_def verify_loop_file crc32cOf_def)
  qed
qed

subsection \<open>What a written frame reads as\<close>

lemma slice_23 [simp]: "slice 2 23 (take 23 b @ x) = slice 2 23 b" if "23 \<le> length b"
  using that by (simp add: slice_def drop_take)

lemma encodeHeader_crc:
  "take 23 (encodeHeader h) @ be32 crc = encodeHeader (h\<lparr>hCrc := crc\<rparr>)"
  by (simp add: encodeHeader_def)

lemma slice_crc [simp]: "slice 2 23 (encodeHeader (h\<lparr>hCrc := crc\<rparr>)) = slice 2 23 (encodeHeader h)"
  by (simp add: slice_def encodeHeader_def)

text \<open>\<open>written h payload\<close>: the header and payload that an encoded frame is made of.\<close>

definition written :: "frameHeader \<Rightarrow> byte list \<Rightarrow> bool" where
  "written h payload \<longleftrightarrow> header_ok h \<and> hCompressed h = int (length payload)
     \<and> hCrc h = crc32cOf [slice 2 23 (encodeHeader h), payload]"

lemma encodeFrame_written:
  assumes "encodeFrame records base c = Inr frame" and "0 \<le> base" and "base < 2 ^ 63"
    and "Flag c \<noteq> FlagNone \<Longrightarrow> Encode c (encodeRecordsPayload records) \<noteq> []"
  obtains h payload where "frame = encodeHeader h @ payload" and "written h payload"
    and "payload = (if Flag c = FlagNone then encodeRecordsPayload records else Encode c (encodeRecordsPayload records))"
    and "header_codec h = and (Flag c) codecMask" and "hRecordCount h = int (length records)"
    and "hBaseOffset h = base" and "hUncompressed h = int (length (encodeRecordsPayload records))"
    and "records \<noteq> []"
proof -
  let ?inner = "encodeRecordsPayload records"
  let ?payload = "if Flag c = FlagNone then ?inner else Encode c ?inner"
  let ?g = "frame_header records base (Flag c) (length ?payload)"
  let ?crc = "crc32cOf [slice 2 23 (encodeHeader ?g), ?payload]"
  let ?h = "?g\<lparr>hCrc := ?crc\<rparr>"
  have r: "records \<noteq> []" and le: "length ?inner \<le> maxFrameBytes" "length ?payload \<le> maxFrameBytes"
    and frame: "frame = take 23 (encodeHeader ?g) @ be32 ?crc @ ?payload"
    using assms(1) by (auto simp: encodeFrame_def Let_def split: if_splits)
  have "frame = (take 23 (encodeHeader ?g) @ be32 ?crc) @ ?payload"
    unfolding frame by (simp only: append_assoc)
  then have parts: "frame = encodeHeader ?h @ ?payload"
    by (simp only: encodeHeader_crc)
  have "header_ok ?h"
    using r le assms records_le_payload [of records]
    by (auto simp: header_ok_def frame_header_def maxFrameBytes_def)
  moreover have "hCompressed ?g = int (length ?payload)"
    by (simp add: frame_header_def)
  ultimately have "written ?h ?payload"
    unfolding written_def slice_crc by simp
  moreover have "header_codec ?h = and (Flag c) codecMask"
    by (simp add: header_codec_def frame_header_def)
  ultimately show ?thesis
    using that [of ?h ?payload] parts r by (simp add: frame_header_def)
qed

lemma readFrameRaw_written:
  assumes "written h payload" and "take (headerSize + length payload) (drop pos f) = encodeHeader h @ payload"
  shows "readFrameRaw (file_reader f) pos = Inr (h, payload)"
proof -
  have hdr: "take headerSize (drop pos f) = encodeHeader h"
    using arg_cong [OF assms(2), of "take headerSize"] by simp
  have payload: "take (length payload) (drop (pos + headerSize) f) = payload"
    using arg_cong [OF assms(2), of "drop headerSize"] by (simp add: take_drop ac_simps)
  have "length payload \<le> length f - (pos + headerSize)"
    using arg_cong [OF payload, of length] by simp
  then show ?thesis
    using assms(1) decodeHeader_encodeHeader [of h]
    by (simp add: readFrameRaw_def hdr payload written_def min_def)
qed

subsection \<open>What the frames rely on from a codec\<close>

text \<open>
  A log writes with its own codec \<open>c\<close>; a reader resolves the codec of a frame from its header, given its own
  codec \<open>e\<close> and the shared zstd decoder \<open>z\<close>. What has to hold of zstd is that some decoder the reader can get
  reverses what the writer's encoder did, and that a compressed payload is not empty.
\<close>

locale frame_codec =
  fixes c :: codec and e :: codec and z :: "codec result"
  assumes known_flag: "Flag c = FlagNone \<or> Flag c = FlagZstd"
    and decodes: "Flag c = FlagZstd \<Longrightarrow>
      \<exists>d. codecForFlag FlagZstd e z = Inr d \<and> (\<forall>src. Decode d (Encode c src) = Some src)"
    and nonempty: "Flag c = FlagZstd \<Longrightarrow> src \<noteq> [] \<Longrightarrow> Encode c src \<noteq> []"
begin

lemma masked_flag: "and (Flag c) codecMask = Flag c"
  using known_flag by (auto simp: codecMask_def)

lemma readFrameAt_encodeFrame:
  assumes "encodeFrame records base c = Inr frame" and "0 \<le> base" and "base < 2 ^ 63"
    and "take (length frame) (drop pos f) = frame"
  obtains h where "readFrameAt (file_reader f) pos e z = Inr (h, records, pos + length frame)"
    and "hBaseOffset h = base" and "hRecordCount h = int (length records)"
    and "frame_end pos h = pos + length frame"
    and "readFrameRaw (file_reader f) pos = Inr (h, drop headerSize frame)"
    and "frameHeaderAt (file_reader f) pos = Inr (h, pos + length frame)"
proof -
  let ?inner = "encodeRecordsPayload records"
  have ne: "records \<noteq> []" and small: "length ?inner \<le> maxFrameBytes"
    using assms(1) by (auto simp: encodeFrame_def Let_def split: if_splits)
  have "Flag c \<noteq> FlagNone \<Longrightarrow> Encode c ?inner \<noteq> []"
    using nonempty known_flag ne by auto
  from encodeFrame_written [OF assms(1-3) this] obtain h payload
    where f: "frame = encodeHeader h @ payload" and w: "written h payload"
      and payload: "payload = (if Flag c = FlagNone then ?inner else Encode c ?inner)"
      and codec: "header_codec h = Flag c" and count: "hRecordCount h = int (length records)"
      and base: "hBaseOffset h = base" and unc: "hUncompressed h = int (length ?inner)"
    unfolding masked_flag by blast
  have raw: "readFrameRaw (file_reader f) pos = Inr (h, payload)"
    by (rule readFrameRaw_written [OF w]) (use assms(4) f in simp)
  have fe: "frame_end pos h = pos + length frame"
    using w f by (simp add: frame_end_def written_def)
  have "\<forall>r \<in> set records. length r < 2 ^ 32"
    using small record_le_payload [of _ records] by (fastforce simp: maxFrameBytes_def)
  then have split: "decodeRecordsPayload ?inner (hRecordCount h) = Inr records"
    by (simp add: count decodeRecordsPayload_encode)
  have "readFrameAt (file_reader f) pos e z = Inr (h, records, pos + length frame)"
    using known_flag decodes
    by (auto simp: readFrameAt_def raw codec payload unc split fe)
  moreover have "take headerSize (drop pos f) = encodeHeader h"
    using arg_cong [OF assms(4), of "take headerSize"] f by simp
  then have "frameHeaderAt (file_reader f) pos = Inr (h, pos + length frame)"
    using w by (simp add: frameHeaderAt_def decodeHeader_encodeHeader written_def fe)
  ultimately show ?thesis
    using that raw f base count fe by simp
qed

end

interpretation noop: frame_codec noopCodec e z
  by unfold_locales (simp_all add: noopCodec_def)

subsection \<open>The frame format\<close>

text \<open>
  C32. Every frame the log manages to encode can be read back from wherever it was written: the read resolves
  the codec from the header, so it does not matter with which codec the log is opened later, and it returns
  the same records at the same base offset and the position right after the frame. In particular the
  encoder refuses every batch whose frame the decoder would reject as too large.
\<close>

theorem frame_roundtrip:
  assumes "frame_codec c e z" and "encodeFrame records base c = Inr frame"
    and "0 \<le> base" and "base < 2 ^ 63" and "take (length frame) (drop pos f) = frame"
  shows "\<exists>h. readFrameAt (file_reader f) pos e z = Inr (h, records, pos + length frame)
       \<and> hBaseOffset h = base \<and> hRecordCount h = int (length records)"
  using frame_codec.readFrameAt_encodeFrame [OF assms] by metis

theorem frame_roundtrip_witness:
  "\<exists>h frame. encodeFrame [[7, 8], []] 5 noopCodec = Inr frame
     \<and> readFrameAt (file_reader ([1, 2, 3] @ frame @ [9])) 3 noopCodec (Inl ErrUnavailable)
        = Inr (h, [[7, 8], []], 3 + length frame)
     \<and> hBaseOffset h = 5 \<and> hRecordCount h = 2"
proof -
  obtain frame where frame: "encodeFrame [[7, 8], []] 5 noopCodec = Inr frame"
    by (simp add: encodeFrame_def noopCodec_def Let_def maxFrameBytes_def)
  show ?thesis
    using frame_roundtrip [OF noop.frame_codec_axioms frame, of 3 "[1, 2, 3] @ frame @ [9]" noopCodec "Inl ErrUnavailable"]
      frame by auto
qed

text \<open>
  C34. The verification that streams a frame through a 64 KiB chunk accepts exactly the frames that the read
  which holds the whole payload accepts, with the same header and the same end, and refuses the others with
  the same error, whatever the bytes of the file.
\<close>

theorem streaming_verify_exact:
  "verifyFrameAtBuffered (file_reader f) pos =
     (case readFrameRaw (file_reader f) pos of Inl e \<Rightarrow> Inl e | Inr (h, payload) \<Rightarrow> Inr (h, frame_end pos h))"
  by (simp add: verify_readFrameRaw bind_sum_def)

subsection \<open>Damage is noticed\<close>

lemma slice_list_update:
  "slice a b (xs[i := v]) = (if a \<le> i \<and> i < b then (slice a b xs)[i - a := v] else slice a b xs)"
  by (cases "i < a") (auto simp: slice_def drop_update_swap take_update_swap intro!: list_update_beyond)

lemma nth_slice [simp]: "a + i < b \<Longrightarrow> b \<le> length xs \<Longrightarrow> slice a b xs ! i = xs ! (a + i)"
  by (simp add: slice_def)

lemma length_slice [simp]: "b \<le> length xs \<Longrightarrow> length (slice a b xs) = b - a"
  by (simp add: slice_def)

lemma slice_take [simp]: "b \<le> n \<Longrightarrow> slice a b (take n xs) = slice a b xs"
  by (simp add: slice_def drop_take min_absorb1 diff_le_mono)

lemma crc_field_changes:
  assumes "length b = 4" and "i < 4" and "b ! i \<noteq> v"
  shows "get32 (b[i := v]) \<noteq> get32 b"
proof
  assume "get32 (b[i := v]) = get32 b"
  then have "b[i := v] = b"
    using be32_get32 [of b] be32_get32 [of "b[i := v]"] assms(1) by simp
  then show False
    using assms by (metis nth_list_update_eq)
qed

lemma readFrameRaw_bytes:
  assumes "readFrameRaw (file_reader f) pos = Inr (h, payload)"
  shows "f ! pos = magicByte0" and "f ! (pos + 1) = magicByte1" and "pos + headerSize + length payload \<le> length f"
    and "hCompressed h = sint (get32 (slice 19 23 (drop pos f)))" and "hCompressed h = int (length payload)"
    and "payload = take (length payload) (drop (pos + headerSize) f)"
    and "get32 (slice 23 27 (drop pos f)) = crc_update 0 (slice 2 23 (drop pos f) @ payload)"
    and "decodeHeader (take headerSize (drop pos f)) = Inr h"
proof -
  let ?hb = "take headerSize (drop pos f)"
  have hb: "headerSize \<le> length (drop pos f)" and h: "decodeHeader ?hb = Inr h"
    and p: "payload = take (nat (hCompressed h)) (drop (pos + headerSize) f)"
    and len: "\<not> length payload < nat (hCompressed h)" and crc: "hCrc h = crc32cOf [slice 2 23 ?hb, payload]"
    using assms by (auto simp: readFrameRaw_def bind_sum_Inr split: if_splits)
  have pos: "0 < hCompressed h"
    using decodeHeader_ok [OF h] by (simp add: header_ok_def)
  have plen: "length payload = nat (hCompressed h)"
    using p len by simp
  have fields: "?hb ! 0 = magicByte0" "?hb ! 1 = magicByte1" "hCompressed h = sint (get32 (slice 19 23 ?hb))"
    "hCrc h = get32 (slice 23 27 ?hb)"
    using h by (auto simp: decodeHeader_def Let_def split: if_splits)
  show "f ! pos = magicByte0" "f ! (pos + 1) = magicByte1"
    using fields(1,2) hb by simp_all
  show "pos + headerSize + length payload \<le> length f"
    using p plen pos by (cases "pos + headerSize \<le> length f") auto
  show "hCompressed h = sint (get32 (slice 19 23 (drop pos f)))" "hCompressed h = int (length payload)"
    using fields(3) plen pos by simp_all
  show "payload = take (length payload) (drop (pos + headerSize) f)"
    using p plen by simp
  show "get32 (slice 23 27 (drop pos f)) = crc_update 0 (slice 2 23 (drop pos f) @ payload)"
    using fields(4) crc by (simp add: crc32cOf_pair)
  show "decodeHeader (take headerSize (drop pos f)) = Inr h"
    by (rule h)
qed

text \<open>A damaged byte anywhere but in the length field makes two frames that cannot both verify.\<close>

lemma byte_flip_differs:
  assumes a: "readFrameRaw (file_reader f) pos = Inr (h, payload)"
    and b: "readFrameRaw (file_reader (f[pos + i := v])) pos = Inr (h', payload')"
    and i: "i < headerSize + length payload" "i \<notin> {19..<23}" "f ! (pos + i) \<noteq> v"
  shows False
proof -
  let ?g = "f[pos + i := v]" and ?d = "drop pos f"
  note A = readFrameRaw_bytes [OF a] and B = readFrameRaw_bytes [OF b]
  have d: "drop pos ?g = ?d[i := v]"
    by (simp add: drop_update_swap)
  have len: "length payload' = length payload"
    using A(4,5) B(4,5) i(2) by (auto simp: d slice_list_update)
  have dl: "i < length ?d" and d27: "headerSize \<le> length ?d"
    using A(3) i(1) by auto
  have p: "payload = slice 27 (27 + length payload) ?d"
    and p': "payload' = slice 27 (27 + length payload) (?d[i := v])"
    using A(6) B(6) len by (simp_all add: slice_def d [symmetric] add.commute)
  have plen: "length (slice 27 (27 + length payload) ?d) = length payload"
    using p by simp
  consider "i < 2" | "2 \<le> i" "i < 19" | "23 \<le> i" "i < 27" | "27 \<le> i"
    using i(2) by fastforce
  then show False
  proof cases
    case 1
    then consider "i = 0" | "i = 1" by linarith
    then show ?thesis
      using A(1,2,3) B(1,2) i(3) by cases auto
  next
    case 2
    let ?body = "slice 2 23 ?d @ payload"
    obtain k where k: "i = 2 + k"
      using 2(1) le_Suc_ex by blast
    have "slice 2 23 (?d[i := v]) @ payload' = ?body[k := v]"
      using 2 d27 p p' by (auto simp: k slice_list_update list_update_append)
    moreover have "?body ! k \<noteq> v"
      using 2 d27 i(3) by (simp add: nth_append k)
    moreover have "slice 23 27 (?d[i := v]) = slice 23 27 ?d" and "k < length ?body"
      using 2 d27 by (auto simp: k slice_list_update)
    ultimately show ?thesis
      using A(7) B(7) [unfolded d] crc_detects_byte [of k ?body v 0] by simp
  next
    case 3
    have "slice 23 27 ?d ! (i - 23) \<noteq> v"
      using 3 d27 i(3) by simp
    then have "get32 ((slice 23 27 ?d)[i - 23 := v]) \<noteq> get32 (slice 23 27 ?d)"
      using 3 d27 by (intro crc_field_changes) auto
    then show ?thesis
      using A(7) B(7) 3 p p' by (simp add: d slice_list_update)
  next
    case 4
    let ?body = "slice 2 23 ?d @ payload"
    obtain k where k: "i = 27 + k"
      using 4 le_Suc_ex by blast
    have "payload' = payload[k := v]"
      using i(1) p p' by (simp add: k slice_list_update)
    then have "slice 2 23 (?d[i := v]) @ payload' = ?body[21 + k := v]"
      using d27 by (simp add: k slice_list_update list_update_append)
    moreover have "payload ! k = ?d ! i"
      by (subst p) (use i(1) A(3) in \<open>simp add: k\<close>)
    then have "?body ! (21 + k) \<noteq> v"
      using d27 i(3) A(3) by (simp add: nth_append k)
    moreover have "slice 23 27 (?d[i := v]) = slice 23 27 ?d" and "21 + k < length ?body"
      using i(1) d27 by (auto simp: k slice_list_update)
    ultimately show ?thesis
      using A(7) B(7) [unfolded d] crc_detects_byte [of "21 + k" ?body v 0] by simp
  qed
qed


text \<open>
  C33. The checksum does its job on a damaged byte: take any frame the log wrote, anywhere in a file, and change
  one byte of it other than the four of the length field. The frame no longer verifies: neither the recovery
  walk nor a read can take it for intact. (A changed length makes the check cover other bytes, where a
  match cannot be excluded.)
\<close>

theorem damaged_byte_detected:
  assumes "frame_codec c e z" and "encodeFrame records base c = Inr frame" and "0 \<le> base" and "base < 2 ^ 63"
    and "take (length frame) (drop pos f) = frame"
    and "i < length frame" and "i \<notin> {19..<23}" and "v \<noteq> frame ! i"
  shows "\<exists>err. verifyFrameAtBuffered (file_reader (f[pos + i := v])) pos = Inl err
       \<and> readFrameAt (file_reader (f[pos + i := v])) pos e z = Inl err"
proof -
  obtain h where raw: "readFrameRaw (file_reader f) pos = Inr (h, drop headerSize frame)"
    using frame_codec.readFrameAt_encodeFrame [OF assms(1-5)] by metis
  have "pos + headerSize + length (drop headerSize frame) \<le> length f"
    by (rule readFrameRaw_bytes(3) [OF raw])
  then have "f ! (pos + i) = frame ! i"
    using assms(5,6) by (metis (no_types, lifting) add_leD1 nth_drop nth_take add.assoc length_drop)
  moreover have "i < headerSize + length (drop headerSize frame)"
    using assms(6) by simp
  ultimately have "readFrameRaw (file_reader (f[pos + i := v])) pos \<noteq> Inr (h', payload')" for h' payload'
    using byte_flip_differs [OF raw] assms(7,8) by metis
  then obtain err where "readFrameRaw (file_reader (f[pos + i := v])) pos = Inl err"
    by (metis prod.exhaust sum.exhaust)
  then show ?thesis
    by (simp add: verify_readFrameRaw readFrameAt_def)
qed

theorem damaged_byte_detected_witness:
  "\<exists>frame err. encodeFrame [[7, 8], []] 5 noopCodec = Inr frame
     \<and> verifyFrameAtBuffered (file_reader (frame[2 := 255])) 0 = Inl err
     \<and> readFrameAt (file_reader (frame[2 := 255])) 0 noopCodec (Inl ErrUnavailable) = Inl err"
proof -
  obtain frame where frame: "encodeFrame [[7, 8], []] 5 noopCodec = Inr frame"
    by (simp add: encodeFrame_def noopCodec_def Let_def maxFrameBytes_def)
  have f2: "2 < length frame" "frame ! 2 = 0"
    using frame by (auto simp: encodeFrame_def noopCodec_def Let_def encodeHeader_def frame_header_def codecMask_def
        split: if_splits)
  have "\<exists>err. verifyFrameAtBuffered (file_reader (frame[2 := 255])) 0 = Inl err
      \<and> readFrameAt (file_reader (frame[2 := 255])) 0 noopCodec (Inl ErrUnavailable) = Inl err"
    by (rule damaged_byte_detected [OF noop.frame_codec_axioms frame, of 0 frame 2 255, unfolded add_0])
      (use f2 in auto)
  then show ?thesis
    using frame by blast
qed
end
