(* ===== verification/Segment_Scan.thy ===== *)
theory Segment_Scan
  imports Frame
begin

text \<open>
  Scans of a segment file (\<^verbatim>\<open>src/internal/persistence/storage/recovery.go\<close> and \<^verbatim>\<open>index.go\<close>): the search for the
  next frame after damage, the recovery walk of the active segment with its torn-tail rule, the header-only
  scan that rebuilds an index, and the sparse index itself.
\<close>

section \<open>Resynchronisation\<close>

fun magic_index :: "byte list \<Rightarrow> nat option" where
  "magic_index (a # b # rest) =
     (if a = magicByte0 \<and> b = magicByte1 then Some 0 else map_option Suc (magic_index (b # rest)))"
| "magic_index _ = None"

abbreviation scanChunk :: nat where
  "scanChunk \<equiv> 4096"

function next_magic :: "reader \<Rightarrow> nat \<Rightarrow> nat \<Rightarrow> nat \<Rightarrow> nat" where
  "next_magic r start sz pos =
     (if pos < sz
      then let fin = min (pos + scanChunk) sz;
               readStart = (if pos > start then pos - 1 else pos)
        in case r readStart (fin - readStart) of
             Inl _ \<Rightarrow> sz
           | Inr buf \<Rightarrow>
               if length buf < 2 then sz
               else (case magic_index buf of
                   Some i \<Rightarrow> readStart + i
                 | None \<Rightarrow> next_magic r start sz fin)
      else sz)"
  by pat_completeness auto
termination by (relation "measure (\<lambda>(r, start, sz, pos). sz - pos)") auto

declare next_magic.simps [simp del]

definition nextMagicInSegment :: "reader \<Rightarrow> nat \<Rightarrow> nat \<Rightarrow> nat" where
  "nextMagicInSegment r start sz = next_magic r start sz start"

lemma next_magic_ge: "start \<le> pos \<Longrightarrow> next_magic r start sz pos < sz \<Longrightarrow> start \<le> next_magic r start sz pos"
proof (induction r start sz pos rule: next_magic.induct)
  case (1 r start sz pos)
  define fin where "fin = min (pos + scanChunk) sz"
  define readStart where "readStart = (if pos > start then pos - 1 else pos)"
  note eq = next_magic.simps [of r start sz pos, folded fin_def readStart_def, unfolded Let_def]
  have pos: "pos < sz"
    using 1(3) by (simp add: eq split: if_splits)
  obtain buf where buf: "r readStart (fin - readStart) = Inr buf" "\<not> length buf < 2"
    using 1(3) pos by (auto simp: eq split: sum.splits if_splits)
  have le: "start \<le> readStart" "start \<le> fin"
    using 1(2) pos by (auto simp: readStart_def fin_def)
  show ?case
  proof (cases "magic_index buf")
    case None
    then have step: "next_magic r start sz pos = next_magic r start sz fin"
      using pos buf by (simp add: eq)
    show ?thesis
      using 1(1) [OF pos fin_def readStart_def buf None le(2)] 1(3) by (simp add: step)
  next
    case (Some i)
    then show ?thesis
      using pos buf le by (simp add: eq)
  qed
qed

function nextValidFramePos :: "reader \<Rightarrow> nat \<Rightarrow> nat \<Rightarrow> nat" where
  "nextValidFramePos r start sz =
     (let pos = nextMagicInSegment r start sz
      in if pos < sz
         then case verifyFrameAtBuffered r pos of
             Inr _ \<Rightarrow> pos
           | Inl _ \<Rightarrow> nextValidFramePos r (pos + 1) sz
         else sz)"
  by pat_completeness auto
termination
proof (relation "measure (\<lambda>(r, start, sz). sz - start)")
  fix r start sz pos e
  assume "pos = nextMagicInSegment r start sz" "pos < sz"
  then show "((r, pos + 1, sz), r, start, sz) \<in> measure (\<lambda>(r, start, sz). sz - start)"
    using next_magic_ge [of start start r sz] by (auto simp: nextMagicInSegment_def)
qed simp

declare nextValidFramePos.simps [simp del]

section \<open>The sparse index\<close>

record indexEntry =
  ieSegment :: int
  ieBase :: int
  ieCount :: int
  iePos :: nat
  ieLen :: nat

definition entry_covers :: "indexEntry \<Rightarrow> int \<Rightarrow> bool" where
  "entry_covers x offset \<longleftrightarrow> ieBase x \<le> offset \<and> offset < ieBase x + ieCount x"

abbreviation segmentIndexStrideBytes :: nat where
  "segmentIndexStrideBytes \<equiv> 32768"

abbreviation targetMaxSegmentIndexEntries :: nat where
  "targetMaxSegmentIndexEntries \<equiv> 2048"

definition indexStrideBytes :: "nat \<Rightarrow> nat" where
  "indexStrideBytes segmentBytes =
     (if segmentBytes = 0 then segmentIndexStrideBytes
      else max segmentIndexStrideBytes
             (segmentBytes div targetMaxSegmentIndexEntries
              + (if segmentBytes mod targetMaxSegmentIndexEntries \<noteq> 0 then 1 else 0)))"

definition shouldKeepIndexAnchor :: "nat \<Rightarrow> indexEntry list \<Rightarrow> indexEntry \<Rightarrow> bool" where
  "shouldKeepIndexAnchor stride entries entry \<longleftrightarrow>
     entries = [] \<or> int (iePos entry) - int (iePos (last entries)) \<ge> int stride"

definition appendSparseIndexEntry :: "nat \<Rightarrow> indexEntry list \<Rightarrow> indexEntry \<Rightarrow> indexEntry list" where
  "appendSparseIndexEntry stride entries entry =
     (if shouldKeepIndexAnchor stride entries entry then entries @ [entry] else entries)"

definition sparseIndexEntries :: "nat \<Rightarrow> indexEntry list \<Rightarrow> indexEntry list" where
  "sparseIndexEntries stride entries = foldl (appendSparseIndexEntry stride) [] entries"

definition frame_entry :: "int \<Rightarrow> nat \<Rightarrow> frameHeader \<Rightarrow> nat \<Rightarrow> indexEntry" where
  "frame_entry seg pos h frameEnd =
     \<lparr>ieSegment = seg, ieBase = hBaseOffset h, ieCount = hRecordCount h, iePos = pos, ieLen = frameEnd - pos\<rparr>"

section \<open>The recovery walk\<close>

text \<open>
  What the walk of the active segment found: the sparse index, the offset after the last valid frame, the
  highest offset any frame ended at, and where a torn tail has to be cut, if there is one.
\<close>

record walked =
  wEntries :: "indexEntry list"
  wNext :: int
  wTop :: int
  wCut :: "nat option"

definition resyncs :: "err \<Rightarrow> bool" where
  "resyncs e \<longleftrightarrow> e \<in> {ErrUnexpectedEOF, errBadMagic, errCorrupt, ErrCorruptRecord}"

lemma nextValidFramePos_ge:
  "nextValidFramePos r start sz < sz \<Longrightarrow> start \<le> nextValidFramePos r start sz"
proof (induction r start sz rule: nextValidFramePos.induct)
  case (1 r start sz)
  let ?p = "nextMagicInSegment r start sz"
  have ge: "?p < sz \<Longrightarrow> start \<le> ?p"
    using next_magic_ge [of start start r sz] by (simp add: nextMagicInSegment_def)
  show ?case
  proof (cases "?p < sz \<and> (\<exists>e. verifyFrameAtBuffered r ?p = Inl e)")
    case True
    then obtain e where e: "verifyFrameAtBuffered r ?p = Inl e" by blast
    have eq: "nextValidFramePos r start sz = nextValidFramePos r (?p + 1) sz"
      using True e by (subst nextValidFramePos.simps) (simp add: Let_def)
    have "?p + 1 \<le> nextValidFramePos r (?p + 1) sz"
      using 1(1) [OF refl _ e] True 1(2) eq by simp
    then show ?thesis
      using ge True eq by simp
  next
    case False
    then have "nextValidFramePos r start sz = (if ?p < sz then ?p else sz)"
      by (subst nextValidFramePos.simps) (auto simp: Let_def split: sum.splits)
    then show ?thesis
      using ge 1(2) by (auto split: if_splits)
  qed
qed

lemma verify_end: "verifyFrameAtBuffered r pos = Inr (h, frameEnd) \<Longrightarrow> pos < frameEnd"
  by (auto simp: verifyFrameAtBuffered_def frame_end_def bind_sum_Inr split: if_splits)

function walk_loop ::
  "reader \<Rightarrow> nat \<Rightarrow> int \<Rightarrow> nat \<Rightarrow> nat \<Rightarrow> indexEntry list \<Rightarrow> int \<Rightarrow> int \<Rightarrow> walked result" where
  "walk_loop r stride seg sz pos entries next hi =
     (if pos < sz
      then case verifyFrameAtBuffered r pos of
          Inr (h, frameEnd) \<Rightarrow>
            walk_loop r stride seg sz frameEnd
              (appendSparseIndexEntry stride entries (frame_entry seg pos h frameEnd))
              (hBaseOffset h + hRecordCount h) (max hi (hBaseOffset h + hRecordCount h))
        | Inl e \<Rightarrow>
            if resyncs e
            then let p = nextValidFramePos r (pos + 1) sz
              in if p < sz then walk_loop r stride seg sz p entries next hi
                 else Inr \<lparr>wEntries = entries, wNext = next, wTop = max hi next, wCut = Some pos\<rparr>
            else Inl e
      else Inr \<lparr>wEntries = entries, wNext = next, wTop = max hi next, wCut = None\<rparr>)"
  by pat_completeness auto
termination
proof (relation "measure (\<lambda>(r, stride, seg, sz, pos, entries, next, hi). sz - pos)")
  fix r stride seg sz pos entries "next" hi e p
  assume "pos < sz" "p = nextValidFramePos r (pos + 1) sz" "p < sz"
  then show "((r, stride, seg, sz, p, entries, next, hi), r, stride, seg, sz, pos, entries, next, hi)
      \<in> measure (\<lambda>(r, stride, seg, sz, pos, entries, next, hi). sz - pos)"
    using nextValidFramePos_ge [of r "pos + 1" sz] by auto
qed (auto dest: verify_end)

declare walk_loop.simps [simp del]

definition walkActiveSegment :: "reader \<Rightarrow> nat \<Rightarrow> int \<Rightarrow> nat \<Rightarrow> walked result" where
  "walkActiveSegment r stride seg sz = walk_loop r stride seg sz 0 [] seg 0"

section \<open>Header-only scans\<close>

lemma frameHeaderAt_end: "frameHeaderAt r pos = Inr (h, frameEnd) \<Longrightarrow> pos < frameEnd"
  by (auto simp: frameHeaderAt_def frame_end_def bind_sum_Inr split: if_splits)

lemma nextMagicInSegment_ge: "nextMagicInSegment r start sz < sz \<Longrightarrow> start \<le> nextMagicInSegment r start sz"
  unfolding nextMagicInSegment_def by (rule next_magic_ge) simp

function scan_index_loop :: "reader \<Rightarrow> nat \<Rightarrow> int \<Rightarrow> nat \<Rightarrow> nat \<Rightarrow> indexEntry list \<Rightarrow> (indexEntry list) result" where
  "scan_index_loop r stride seg sz pos entries =
     (if pos < sz
      then case frameHeaderAt r pos of
          Inr (h, frameEnd) \<Rightarrow>
            if frameEnd > sz then Inr entries
            else scan_index_loop r stride seg sz frameEnd
                   (appendSparseIndexEntry stride entries (frame_entry seg pos h frameEnd))
        | Inl e \<Rightarrow>
            if e = ErrUnexpectedEOF then Inr entries
            else if e \<in> {errBadMagic, errCorrupt, ErrCorruptRecord}
              then scan_index_loop r stride seg sz (nextMagicInSegment r (pos + 1) sz) entries
            else Inl e
      else Inr entries)"
  by pat_completeness auto
termination
proof (relation "measure (\<lambda>(r, stride, seg, sz, pos, entries). sz - pos)")
  fix r stride seg sz pos entries e
  assume "pos < (sz :: nat)"
  then show "((r, stride, seg, sz, nextMagicInSegment r (pos + 1) sz, entries), r, stride, seg, sz, pos, entries)
      \<in> measure (\<lambda>(r, stride, seg, sz, pos, entries). sz - pos)"
    using nextMagicInSegment_ge [of r "pos + 1" sz] by (cases "nextMagicInSegment r (pos + 1) sz < sz") auto
qed (auto dest: frameHeaderAt_end)

declare scan_index_loop.simps [simp del]

definition scanSegmentIndex :: "reader \<Rightarrow> nat \<Rightarrow> int \<Rightarrow> nat \<Rightarrow> (indexEntry list) result" where
  "scanSegmentIndex r stride seg sz = scan_index_loop r stride seg sz 0 []"

text \<open>
  The walk from an anchor to the frame that holds an offset reads headers only; \<open>None\<close> means not found.
\<close>

function scan_from :: "reader \<Rightarrow> int \<Rightarrow> nat \<Rightarrow> int \<Rightarrow> nat \<Rightarrow> (indexEntry option) result" where
  "scan_from r seg sz offset pos =
     (if pos < sz
      then case frameHeaderAt r pos of
          Inr (h, frameEnd) \<Rightarrow>
            if frameEnd > sz
            then let p = nextValidFramePos r (pos + 1) sz
              in if p < sz then scan_from r seg sz offset p else Inr None
            else if hBaseOffset h \<le> offset \<and> offset < hBaseOffset h + hRecordCount h
              then Inr (Some (frame_entry seg pos h frameEnd))
            else if hBaseOffset h > offset then Inr None
            else scan_from r seg sz offset frameEnd
        | Inl e \<Rightarrow>
            if e = ErrUnexpectedEOF then Inr None
            else if e \<in> {errBadMagic, errCorrupt, ErrCorruptRecord}
              then scan_from r seg sz offset (nextMagicInSegment r (pos + 1) sz)
            else Inl e
      else Inr None)"
  by pat_completeness auto
termination
proof (relation "measure (\<lambda>(r, seg, sz, offset, pos). sz - pos)")
  fix r seg sz offset pos e
  assume "pos < (sz :: nat)"
  then show "((r, seg, sz, offset, nextMagicInSegment r (pos + 1) sz), r, seg, sz, offset, pos)
      \<in> measure (\<lambda>(r, seg, sz, offset, pos). sz - pos)"
    using nextMagicInSegment_ge [of r "pos + 1" sz] by (cases "nextMagicInSegment r (pos + 1) sz < sz") auto
next
  fix r seg sz offset pos x h frameEnd p
  assume "pos < sz" "p = nextValidFramePos r (pos + 1) sz" "p < sz"
  then show "((r, seg, sz, offset, p), r, seg, sz, offset, pos) \<in> measure (\<lambda>(r, seg, sz, offset, pos). sz - pos)"
    using nextValidFramePos_ge [of r "pos + 1" sz] by auto
qed (auto dest: frameHeaderAt_end)

declare scan_from.simps [simp del]

definition scanSegmentFromIndexAnchorLocked ::
  "reader \<Rightarrow> int \<Rightarrow> nat \<Rightarrow> indexEntry \<Rightarrow> int \<Rightarrow> (indexEntry option) result" where
  "scanSegmentFromIndexAnchorLocked r seg sz anchor offset = scan_from r seg sz offset (iePos anchor + ieLen anchor)"

section \<open>Binary search\<close>

text \<open>\<^verbatim>\<open>sort.Search\<close>: the least index at which a monotone test holds, or the length.\<close>

function search_loop :: "(nat \<Rightarrow> bool) \<Rightarrow> nat \<Rightarrow> nat \<Rightarrow> nat" where
  "search_loop f i j =
     (if i < j then let h = (i + j) div 2 in if \<not> f h then search_loop f (h + 1) j else search_loop f i h else i)"
  by pat_completeness auto
termination by (relation "measure (\<lambda>(f, i, j). j - i)") auto

declare search_loop.simps [simp del]

definition sortSearch :: "nat \<Rightarrow> (nat \<Rightarrow> bool) \<Rightarrow> nat" where
  "sortSearch n f = search_loop f 0 n"

definition indexAnchorForOffset :: "indexEntry list \<Rightarrow> int \<Rightarrow> indexEntry option" where
  "indexAnchorForOffset entries offset =
     (let i = sortSearch (length entries) (\<lambda>i. ieBase (entries ! i) > offset)
      in if i = 0 then None else Some (entries ! (i - 1)))"

lemma search_loop_correct:
  assumes "\<And>k l. k \<le> l \<Longrightarrow> l < n \<Longrightarrow> f k \<Longrightarrow> f l"
    and "i \<le> j" and "j \<le> n" and "\<And>k. k < i \<Longrightarrow> \<not> f k" and "\<And>k. j \<le> k \<Longrightarrow> k < n \<Longrightarrow> f k"
  shows "search_loop f i j \<le> n \<and> (\<forall>k < search_loop f i j. \<not> f k) \<and> (\<forall>k < n. search_loop f i j \<le> k \<longrightarrow> f k)"
  using assms
proof (induction f i j rule: search_loop.induct)
  case (1 f i j)
  define h where "h = (i + j) div 2"
  note eq = search_loop.simps [of f i j, unfolded Let_def, folded h_def]
  show ?case
  proof (cases "i < j")
    case False
    have "search_loop f i j = i"
      using False by (simp only: eq if_False)
    moreover have "i = j"
      using False 1(4) by simp
    ultimately show ?thesis
      using 1(5-7) by auto
  next
    case True
    then have h: "i \<le> h" "h < j"
      by (auto simp: h_def)
    show ?thesis
    proof (cases "f h")
      case True
      have "search_loop f i h \<le> n \<and> (\<forall>k < search_loop f i h. \<not> f k) \<and> (\<forall>k < n. search_loop f i h \<le> k \<longrightarrow> f k)"
      proof (rule 1(2) [OF \<open>i < j\<close> h_def])
        show "\<not> \<not> f h" "i \<le> h" "h \<le> n"
          using True h 1(5) by simp_all
        show "f l" if "k \<le> l" "l < n" "f k" for k l
          by (rule 1(3) [OF that])
        show "\<not> f k" if "k < i" for k
          by (rule 1(6) [OF that])
        show "f k" if "h \<le> k" "k < n" for k
          by (rule 1(3) [OF that True])
      qed
      then show ?thesis
        using \<open>i < j\<close> True by (simp add: eq)
    next
      case False
      have "search_loop f (h + 1) j \<le> n \<and> (\<forall>k < search_loop f (h + 1) j. \<not> f k)
          \<and> (\<forall>k < n. search_loop f (h + 1) j \<le> k \<longrightarrow> f k)"
      proof (rule 1(1) [OF \<open>i < j\<close> h_def False])
        show "h + 1 \<le> j" "j \<le> n"
          using h 1(5) by simp_all
        show "f l" if "k \<le> l" "l < n" "f k" for k l
          by (rule 1(3) [OF that])
        show "\<not> f k" if "k < h + 1" for k
          using 1(3) [of k h] False that h 1(5) by auto
        show "f k" if "j \<le> k" "k < n" for k
          by (rule 1(7) [OF that])
      qed
      then show ?thesis
        using \<open>i < j\<close> False by (simp add: eq)
    qed
  qed
qed


section \<open>What the scans find\<close>

definition magic_at :: "byte list \<Rightarrow> nat \<Rightarrow> bool" where
  "magic_at f p \<longleftrightarrow> f ! p = magicByte0 \<and> f ! (p + 1) = magicByte1"

text \<open>The reference for the chunked search: try the positions one by one.\<close>

definition first_magic :: "byte list \<Rightarrow> nat \<Rightarrow> nat \<Rightarrow> nat" where
  "first_magic f start sz =
     (case find (\<lambda>p. p + 1 < length f \<and> p + 1 < sz \<and> magic_at f p) [start..<sz] of Some p \<Rightarrow> p | None \<Rightarrow> sz)"

lemma magic_index_None: "magic_index buf = None \<Longrightarrow> i + 1 < length buf \<Longrightarrow> \<not> magic_at buf i"
proof (induction buf arbitrary: i rule: magic_index.induct)
  case (1 a b rest)
  then show ?case
    by (cases i) (auto simp: magic_at_def split: if_splits)
qed auto

lemma magic_index_Some:
  "magic_index buf = Some i \<Longrightarrow> i + 1 < length buf \<and> magic_at buf i \<and> (\<forall>j < i. \<not> magic_at buf j)"
proof (induction buf arbitrary: i rule: magic_index.induct)
  case (1 a b rest)
  show ?case
  proof (cases "a = magicByte0 \<and> b = magicByte1")
    case True
    then show ?thesis using 1(2) by (auto simp: magic_at_def)
  next
    case False
    then obtain k where k: "magic_index (b # rest) = Some k" "i = Suc k"
      using 1(2) by (auto split: if_splits)
    have "\<not> magic_at (a # b # rest) j" if "j < i" for j
      using 1(1) [OF False k(1)] False that by (cases j) (auto simp: magic_at_def k(2))
    then show ?thesis
      using 1(1) [OF False k(1)] by (auto simp: magic_at_def k(2))
  qed
qed auto

lemma magic_at_chunk: "i + 1 < length (take n (drop a f)) \<Longrightarrow> magic_at (take n (drop a f)) i = magic_at f (a + i)"
  by (cases "a \<le> length f") (simp_all add: magic_at_def)

lemma next_magic_first:
  assumes "start \<le> pos"
    and "\<And>q. start \<le> q \<Longrightarrow> q + 1 < pos \<Longrightarrow> q + 1 < min sz (length f) \<Longrightarrow> \<not> magic_at f q"
  defines "p \<equiv> next_magic (file_reader f) start sz pos"
  shows "(p < sz \<longrightarrow> start \<le> p \<and> p + 1 < min sz (length f) \<and> magic_at f p) \<and> p \<le> sz
       \<and> (\<forall>q. start \<le> q \<and> q < p \<and> q + 1 < min sz (length f) \<longrightarrow> \<not> magic_at f q)"
  using assms(1,2) unfolding p_def
proof (induction "sz - pos" arbitrary: pos rule: less_induct)
  case less
  define fin where "fin = min (pos + scanChunk) sz"
  define readStart where "readStart = (if pos > start then pos - 1 else pos)"
  note eq = next_magic.simps [of "file_reader f" start sz pos, folded fin_def readStart_def, unfolded Let_def]
  show ?case
  proof (cases "pos < sz")
    case False
    then have "next_magic (file_reader f) start sz pos = sz"
      by (simp add: eq)
    then show ?thesis
      using less(3) False by auto
  next
    case True
    define buf where "buf = take (fin - readStart) (drop readStart f)"
    have len: "length buf = min fin (length f) - readStart" "readStart < fin"
      using True by (auto simp: buf_def fin_def readStart_def min_def)
    have in_buf: "magic_at buf i = magic_at f (readStart + i)" if "i + 1 < length buf" for i
      using that unfolding buf_def by (rule magic_at_chunk)
    have low: "start \<le> readStart" "readStart \<le> pos" "pos < fin" "fin \<le> sz"
      using less(2) True by (auto simp: readStart_def fin_def)
    have below: "\<not> magic_at f q" if "start \<le> q" "q < readStart" "q + 1 < min sz (length f)" for q
      by (rule less(3)) (use that in \<open>auto simp: readStart_def split: if_splits\<close>)
    show ?thesis
    proof (cases "length buf < 2")
      case short: True
      have step: "next_magic (file_reader f) start sz pos = sz"
        using True short by (simp add: eq buf_def [symmetric])
      have "pos = start \<and> sz = pos + 1 \<or> length f \<le> readStart + 1"
        using True less(2) len(1) short by (auto simp: readStart_def fin_def min_def split: if_splits)
      then show ?thesis
        unfolding step using below by auto
    next
      case long: False
      show ?thesis
      proof (cases "magic_index buf")
        case None
        have step: "next_magic (file_reader f) start sz pos = next_magic (file_reader f) start sz fin"
          using True long None by (simp add: eq buf_def [symmetric])
        have "\<not> magic_at f q" if "start \<le> q" "q + 1 < fin" "q + 1 < min sz (length f)" for q
        proof (cases "q < readStart")
          case True
          then show ?thesis using below that by blast
        next
          case False
          then have "q - readStart + 1 < length buf"
            using that len(1) by linarith
          then show ?thesis
            using magic_index_None [OF None, of "q - readStart"] in_buf [of "q - readStart"] False by auto
        qed
        then show ?thesis
          unfolding step using low less(2) True by (intro less(1)) auto
      next
        case (Some i)
        have step: "next_magic (file_reader f) start sz pos = readStart + i"
          using True long Some by (simp add: eq buf_def [symmetric])
        note i = magic_index_Some [OF Some]
        have "\<not> magic_at f q" if "start \<le> q" "q < readStart + i" "q + 1 < min sz (length f)" for q
        proof (cases "q < readStart")
          case True
          then show ?thesis using below that by blast
        next
          case False
          then have "q - readStart < i" "q - readStart + 1 < length buf"
            using that i len(1) by auto
          then show ?thesis
            using i in_buf [of "q - readStart"] False by auto
        qed
        then show ?thesis
          unfolding step using i in_buf [of i] len(1) low by auto
      qed
    qed
  qed
qed

lemma nextMagicInSegment_first:
  fixes f :: "byte list" and start sz :: nat
  defines "p \<equiv> nextMagicInSegment (file_reader f) start sz"
  shows "(p < sz \<longrightarrow> start \<le> p \<and> p + 1 < min sz (length f) \<and> magic_at f p) \<and> p \<le> sz
       \<and> (\<forall>q. start \<le> q \<and> q < p \<and> q + 1 < min sz (length f) \<longrightarrow> \<not> magic_at f q)"
proof (cases "start \<le> sz")
  case True
  show ?thesis
    unfolding p_def nextMagicInSegment_def by (rule next_magic_first) auto
next
  case False
  then show ?thesis
    by (auto simp: p_def nextMagicInSegment_def next_magic.simps)
qed

lemma find_upt_first:
  assumes "a \<le> p" "p < b" "P p" "\<And>q. a \<le> q \<Longrightarrow> q < p \<Longrightarrow> \<not> P q"
  shows "find P [a..<b] = Some p"
  using assms by (auto simp: find_Some_iff intro!: exI [of _ "p - a"])

text \<open>
  C36. The search for the next frame magic after damage, which reads the file in 4 KiB chunks that overlap by a
  byte, finds exactly what trying the positions one by one finds: the first position at or after the start
  whose two magic bytes lie in the file and below the size, also where the magic straddles two chunks, or
  the size itself.
\<close>

theorem next_magic_exact:
  "nextMagicInSegment (file_reader f) start sz = first_magic f start sz"
proof -
  define p where "p = nextMagicInSegment (file_reader f) start sz"
  note p = nextMagicInSegment_first [of f start sz, folded p_def]
  show ?thesis
  proof (cases "p < sz")
    case True
    then have "find (\<lambda>p. p + 1 < length f \<and> p + 1 < sz \<and> magic_at f p) [start..<sz] = Some p"
      using p by (intro find_upt_first) auto
    then show ?thesis by (simp add: first_magic_def p_def)
  next
    case False
    then have eq: "p = sz"
      using p by simp
    then have "find (\<lambda>p. p + 1 < length f \<and> p + 1 < sz \<and> magic_at f p) [start..<sz] = None"
      using p by (auto simp: find_None_iff)
    then show ?thesis
      using eq by (simp add: first_magic_def p_def)
  qed
qed

end
