(* ===== verification/Partition_Log.thy ===== *)
theory Partition_Log
  imports Segment_Scan
begin

text \<open>
  The partition log (\<^verbatim>\<open>src/internal/persistence/storage\<close>: \<^verbatim>\<open>log.go\<close>, \<^verbatim>\<open>append.go\<close>, \<^verbatim>\<open>buffer.go\<close>, \<^verbatim>\<open>flushing.go\<close>,
  \<^verbatim>\<open>flusher.go\<close>, \<^verbatim>\<open>discard.go\<close>, \<^verbatim>\<open>hwm.go\<close>, \<^verbatim>\<open>index.go\<close>, \<^verbatim>\<open>nav_cache.go\<close>, \<^verbatim>\<open>decode_cache.go\<close>, \<^verbatim>\<open>read.go\<close>, \<^verbatim>\<open>retention.go\<close>,
  \<^verbatim>\<open>recovery.go\<close>, \<^verbatim>\<open>close.go\<close>). One value of type \<open>Log\<close> is a log with its files.

  A segment file is a list of bytes together with the length of the prefix that a power loss is sure to
  leave: writing and truncating shorten that prefix, a successful sync makes it the whole file. Every
  system call that can fail takes its outcome from \<open>lFaults\<close>: nothing left means success, \<open>Some n\<close> a failure after
  \<open>n\<close> bytes. Methods that take the log's locks are atomic; a flusher pass is one atomic step, since the flusher
  is the only writer. Metrics, logging, wake-ups and descriptor handling are left out.
\<close>

section \<open>State\<close>

record segment =
  sBase :: int
  sNext :: int
  sSize :: nat
  sFirstWrite :: "int option"
  sLastWrite :: "int option"
  sFile :: "byte list"
  sStable :: nat

record segmentIndex =
  siEntries :: "indexEntry list"
  siLastUsed :: nat

record buffer =
  bRecords :: "byte list list"
  bBase :: int
  bNext :: int
  bBytes :: nat
  bFirstAt :: "int option"

record flushing =
  fBase :: int
  fWritten :: int
  fRecords :: "byte list list"
  fValid :: bool

text \<open>The hwm file: \<open>None\<close> when missing, and what a power loss may leave instead of its current content.\<close>

record hwmState =
  wFile :: "byte list option"
  wOld :: "byte list option"
  wPersisted :: int
  wReleased :: bool
  wDirSynced :: bool

record logOptions =
  oFlushBytes :: nat
  oFlushRecords :: nat
  oFlushInterval :: int
  oSyncPerWrite :: bool
  oSyncInterval :: int
  oSyncBytes :: nat
  oSegmentBytes :: nat
  oDisableCommitVerify :: bool
  oMaxSegmentAge :: int
  oCodec :: codec
  oForeignZstd :: "codec result"

record frameCacheEntry =
  fcSegment :: int
  fcPos :: nat
  fcRecs :: "byte list list"
  fcBytes :: nat

record Log =
  lOpts :: logOptions
  lSegs :: "segment list"
  lIndexes :: "(int, segmentIndex) omap"
  lIndexClock :: nat
  lBuf :: buffer
  lFlush :: flushing
  lPoison :: "err option"
  lHwm :: int
  lDurable :: int
  lHwmState :: hwmState
  lUnsynced :: nat
  lRollPending :: bool
  lLastSync :: int
  lFrames :: "frameCacheEntry list"
  lNav :: "indexEntry list"
  lReadSeen :: bool
  lMaxAge :: int
  lClosed :: bool
  lFaults :: "(nat option) list"

abbreviation active :: "Log \<Rightarrow> segment" where
  "active L \<equiv> last (lSegs L)"

definition upd_active :: "(segment \<Rightarrow> segment) \<Rightarrow> Log \<Rightarrow> Log" where
  "upd_active f L = L\<lparr>lSegs := butlast (lSegs L) @ [f (active L)]\<rparr>"

definition reader_of :: "segment \<Rightarrow> reader" where
  "reader_of s = file_reader (sFile s)"

definition stride_of :: "Log \<Rightarrow> nat" where
  "stride_of L = indexStrideBytes (oSegmentBytes (lOpts L))"

subsection \<open>Operations that can fail\<close>

type_synonym 'a lop = "Log \<Rightarrow> 'a result \<times> Log"

definition lret :: "'a \<Rightarrow> 'a lop" where
  "lret x L = (Inr x, L)"

definition lfail :: "err \<Rightarrow> 'a lop" where
  "lfail e L = (Inl e, L)"

definition lbind :: "'a lop \<Rightarrow> ('a \<Rightarrow> 'b lop) \<Rightarrow> 'b lop" where
  "lbind m k L = (case m L of (Inl e, L1) \<Rightarrow> (Inl e, L1) | (Inr x, L1) \<Rightarrow> k x L1)"

definition lift :: "'a result \<Rightarrow> 'a lop" where
  "lift r L = (r, L)"

definition next_fault :: "Log \<Rightarrow> nat option \<times> Log" where
  "next_fault L = (case lFaults L of [] \<Rightarrow> (None, L) | x # xs \<Rightarrow> (x, L\<lparr>lFaults := xs\<rparr>))"

definition syscallError :: err where
  "syscallError = ErrExternal ''system call''"

text \<open>Truncating a file to more than its size, and writing past its end, fills it up with zero bytes.\<close>

definition file_truncate :: "nat \<Rightarrow> byte list \<Rightarrow> byte list" where
  "file_truncate n f = take n f @ replicate (n - length f) 0"

definition write_at :: "byte list \<Rightarrow> nat \<Rightarrow> byte list \<Rightarrow> byte list" where
  "write_at f pos b = file_truncate pos f @ b @ drop (pos + length b) f"

section \<open>The write buffer\<close>

definition newBuffer :: "int \<Rightarrow> buffer" where
  "newBuffer start = \<lparr>bRecords = [], bBase = start, bNext = start, bBytes = 0, bFirstAt = None\<rparr>"

definition buffer_pushBatch :: "byte list list \<Rightarrow> int \<Rightarrow> buffer \<Rightarrow> buffer" where
  "buffer_pushBatch records now b =
     (if records = [] then b
      else b\<lparr>bFirstAt := (if bRecords b = [] then Some now else bFirstAt b),
             bRecords := bRecords b @ records, bNext := bNext b + int (length records),
             bBytes := bBytes b + sum_list (map length records)\<rparr>)"

definition crossedThresholdLocked :: "logOptions \<Rightarrow> buffer \<Rightarrow> bool" where
  "crossedThresholdLocked opts b \<longleftrightarrow>
     (oFlushBytes opts > 0 \<and> bBytes b \<ge> oFlushBytes opts) \<or> (oFlushRecords opts > 0 \<and> length (bRecords b) \<ge> oFlushRecords opts)"

definition shouldFlushByAge :: "int \<Rightarrow> int \<Rightarrow> buffer \<Rightarrow> bool" where
  "shouldFlushByAge maxAge now b =
     (if bRecords b = [] then False
      else if maxAge \<le> 0 then True
      else case bFirstAt b of None \<Rightarrow> False | Some at \<Rightarrow> now - at \<ge> maxAge)"

definition readBuffered :: "int \<Rightarrow> buffer \<Rightarrow> byte list option" where
  "readBuffered offset b =
     (if offset < bBase b \<or> offset \<ge> bNext b then None
      else let idx = offset - bBase b
        in if idx < 0 \<or> nat idx \<ge> length (bRecords b) then None else Some (bRecords b ! nat idx))"

definition Append :: "byte list \<Rightarrow> int \<Rightarrow> int lop" where
  "Append data now L =
     (if lClosed L then (Inl ErrLogClosed, L)
      else case lPoison L of
          Some e \<Rightarrow> (Inl e, L)
        | None \<Rightarrow> (Inr (bNext (lBuf L)), L\<lparr>lBuf := buffer_pushBatch [data] now (lBuf L)\<rparr>))"

definition AppendBatch :: "byte list list \<Rightarrow> int \<Rightarrow> (int \<times> int) lop" where
  "AppendBatch records now L =
     (if lClosed L then (Inl ErrLogClosed, L)
      else case lPoison L of
          Some e \<Rightarrow> (Inl e, L)
        | None \<Rightarrow>
            if records = [] then (Inr (0, - 1), L)
            else (Inr (bNext (lBuf L), bNext (lBuf L) + int (length records) - 1),
                  L\<lparr>lBuf := buffer_pushBatch records now (lBuf L)\<rparr>))"

section \<open>The flushing snapshot\<close>

definition emptyFlushing :: flushing where
  "emptyFlushing = \<lparr>fBase = 0, fWritten = 0, fRecords = [], fValid = False\<rparr>"

definition unwrittenFlushingLocked :: "flushing \<Rightarrow> byte list list \<times> int" where
  "unwrittenFlushingLocked fl =
     (let skip = max (fWritten fl - fBase fl) 0
      in if skip \<ge> int (length (fRecords fl)) then ([], fBase fl + int (length (fRecords fl)))
         else (drop (nat skip) (fRecords fl), fWritten fl))"

definition drainBufferForFlush :: "Log \<Rightarrow> (byte list list \<times> int) \<times> Log" where
  "drainBufferForFlush L =
     (let b = lBuf L; fl = lFlush L
      in if bRecords b = []
         then if fValid fl then (unwrittenFlushingLocked fl, L) else (([], bNext b), L)
         else let fl1 = (if fValid fl then fl\<lparr>fRecords := fRecords fl @ bRecords b\<rparr>
                         else \<lparr>fBase = bBase b, fWritten = bBase b, fRecords = bRecords b, fValid = True\<rparr>)
           in (unwrittenFlushingLocked fl1, L\<lparr>lBuf := newBuffer (bNext b), lFlush := fl1\<rparr>))"

definition hasPendingFlushing :: "flushing \<Rightarrow> bool" where
  "hasPendingFlushing fl \<longleftrightarrow> fValid fl \<and> fWritten fl < fBase fl + int (length (fRecords fl))"

definition readFlushingShared :: "int \<Rightarrow> flushing \<Rightarrow> byte list option" where
  "readFlushingShared offset fl =
     (if \<not> fValid fl \<or> offset < fBase fl then None
      else let idx = offset - fBase fl
        in if nat idx \<ge> length (fRecords fl) then None else Some (fRecords fl ! nat idx))"

definition markFlushingWritten :: "int \<Rightarrow> flushing \<Rightarrow> flushing" where
  "markFlushingWritten e fl =
     (if \<not> fValid fl then fl else if e > fWritten fl then fl\<lparr>fWritten := e\<rparr> else fl)"

definition clearFlushingThrough :: "int \<Rightarrow> flushing \<Rightarrow> flushing" where
  "clearFlushingThrough e fl =
     (if \<not> fValid fl \<or> e \<le> fBase fl then fl
      else let n = e - fBase fl
        in if n \<ge> int (length (fRecords fl)) then emptyFlushing
           else fl\<lparr>fRecords := drop (nat n) (fRecords fl), fBase := e, fWritten := max (fWritten fl) e\<rparr>)"

section \<open>Indexes and caches\<close>

abbreviation maxHotSegmentIndexes :: nat where
  "maxHotSegmentIndexes \<equiv> 2"

definition touchSegmentIndexLocked :: "int \<Rightarrow> Log \<Rightarrow> Log" where
  "touchSegmentIndexLocked base L =
     (case om_get (lIndexes L) base of
        None \<Rightarrow> L
      | Some idx \<Rightarrow> L\<lparr>lIndexClock := lIndexClock L + 1,
                      lIndexes := om_put base (idx\<lparr>siLastUsed := lIndexClock L + 1\<rparr>) (lIndexes L)\<rparr>)"

fun oldest_index :: "int \<Rightarrow> int \<Rightarrow> (int \<times> nat) option \<Rightarrow> (int, segmentIndex) omap \<Rightarrow> (int \<times> nat) option" where
  "oldest_index preserve act best [] = best"
| "oldest_index preserve act best ((b, idx) # m) =
     oldest_index preserve act
       (if b = preserve \<or> b = act then best
        else case best of
            None \<Rightarrow> Some (b, siLastUsed idx)
          | Some (v, old) \<Rightarrow> if siLastUsed idx < old then Some (b, siLastUsed idx) else best) m"

definition oldestPrunableSegmentIndexLocked :: "int \<Rightarrow> Log \<Rightarrow> int option" where
  "oldestPrunableSegmentIndexLocked preserve L =
     map_option fst (oldest_index preserve (if lSegs L = [] then - 1 else sBase (active L)) None (lIndexes L))"


function pruneSegmentIndexesLocked :: "int \<Rightarrow> Log \<Rightarrow> Log" where
  "pruneSegmentIndexesLocked preserve L =
     (if length (lIndexes L) > maxHotSegmentIndexes
      then case oldestPrunableSegmentIndexLocked preserve L of
          None \<Rightarrow> L
        | Some victim \<Rightarrow> pruneSegmentIndexesLocked preserve (L\<lparr>lIndexes := om_del victim (lIndexes L)\<rparr>)
      else L)"
  by pat_completeness auto

lemma oldest_index_mem:
  "oldest_index preserve act best m = Some (v, old) \<Longrightarrow>
   om_mem m v \<and> v \<noteq> preserve \<and> v \<noteq> act \<or> best = Some (v, old)"
  by (induction preserve act best m rule: oldest_index.induct) (auto split: if_splits option.splits)

lemma oldestPrunable_mem:
  "oldestPrunableSegmentIndexLocked preserve L = Some v \<Longrightarrow> om_mem (lIndexes L) v"
  by (auto simp: oldestPrunableSegmentIndexLocked_def dest: oldest_index_mem)

termination pruneSegmentIndexesLocked
  by (relation "measure (\<lambda>(preserve, L). length (lIndexes L))")
    (auto intro: length_om_del_less oldestPrunable_mem)

declare pruneSegmentIndexesLocked.simps [simp del]

definition appendIndexLocked :: "indexEntry \<Rightarrow> Log \<Rightarrow> Log" where
  "appendIndexLocked entry L =
     (let base = ieSegment entry;
          idx = (case om_get (lIndexes L) base of None \<Rightarrow> \<lparr>siEntries = [], siLastUsed = 0\<rparr> | Some i \<Rightarrow> i);
          idx1 = idx\<lparr>siEntries := appendSparseIndexEntry (stride_of L) (siEntries idx) entry\<rparr>
      in pruneSegmentIndexesLocked base (touchSegmentIndexLocked base (L\<lparr>lIndexes := om_put base idx1 (lIndexes L)\<rparr>)))"

definition setSegmentIndexLocked :: "int \<Rightarrow> indexEntry list \<Rightarrow> Log \<Rightarrow> Log" where
  "setSegmentIndexLocked base entries L =
     (let sparse = sparseIndexEntries (stride_of L) entries
      in if sparse = [] then L\<lparr>lIndexes := om_del base (lIndexes L)\<rparr>
         else pruneSegmentIndexesLocked base (touchSegmentIndexLocked base
                (L\<lparr>lIndexes := om_put base \<lparr>siEntries = sparse, siLastUsed = 0\<rparr> (lIndexes L)\<rparr>)))"

definition truncateIndexLocked :: "int \<Rightarrow> nat \<Rightarrow> Log \<Rightarrow> Log" where
  "truncateIndexLocked base pos L =
     (case om_get (lIndexes L) base of
        None \<Rightarrow> L
      | Some idx \<Rightarrow>
          L\<lparr>lIndexes := om_put base
              (idx\<lparr>siEntries := rev (dropWhile (\<lambda>x. iePos x \<ge> pos) (rev (siEntries idx)))\<rparr>) (lIndexes L)\<rparr>)"

subsection \<open>Recently resolved frames\<close>

abbreviation maxNavCacheEntries :: nat where
  "maxNavCacheEntries \<equiv> 256"

fun nav_scan :: "int \<Rightarrow> int \<Rightarrow> indexEntry option \<Rightarrow> indexEntry list \<Rightarrow> indexEntry option" where
  "nav_scan seg offset best [] = best"
| "nav_scan seg offset best (x # xs) =
     (if ieSegment x \<noteq> seg \<or> ieBase x > offset then nav_scan seg offset best xs
      else if offset < ieBase x + ieCount x then Some x
      else nav_scan seg offset
             (case best of None \<Rightarrow> Some x | Some y \<Rightarrow> if ieBase x > ieBase y then Some x else best) xs)"

definition bestAnchor :: "int \<Rightarrow> int \<Rightarrow> indexEntry list \<Rightarrow> indexEntry option \<times> indexEntry list" where
  "bestAnchor seg offset nav =
     (if nav \<noteq> [] \<and> ieSegment (hd nav) = seg \<and> entry_covers (hd nav) offset then (Some (hd nav), nav)
      else case nav_scan seg offset None nav of
          None \<Rightarrow> (None, nav)
        | Some x \<Rightarrow> (Some x, x # remove1 x nav))"

definition nav_put :: "indexEntry \<Rightarrow> indexEntry list \<Rightarrow> indexEntry list" where
  "nav_put x nav =
     take maxNavCacheEntries (x # filter (\<lambda>y. \<not> (ieSegment y = ieSegment x \<and> iePos y = iePos x)) nav)"

definition nav_invalidateSegment :: "int \<Rightarrow> indexEntry list \<Rightarrow> indexEntry list" where
  "nav_invalidateSegment seg nav = filter (\<lambda>y. ieSegment y \<noteq> seg) nav"

subsection \<open>Decoded frames\<close>

abbreviation maxDecodeCacheFrames :: nat where
  "maxDecodeCacheFrames \<equiv> 64"

abbreviation maxDecodeCacheBytes :: nat where
  "maxDecodeCacheBytes \<equiv> 8388608"

definition fc_is :: "int \<Rightarrow> nat \<Rightarrow> frameCacheEntry \<Rightarrow> bool" where
  "fc_is seg pos x \<longleftrightarrow> fcSegment x = seg \<and> fcPos x = pos"

definition frameCache_get :: "int \<Rightarrow> nat \<Rightarrow> frameCacheEntry list \<Rightarrow> (byte list list) option \<times> frameCacheEntry list" where
  "frameCache_get seg pos fc =
     (case find (fc_is seg pos) fc of
        None \<Rightarrow> (None, fc)
      | Some x \<Rightarrow> (Some (fcRecs x), x # remove1 x fc))"

function fc_evict :: "frameCacheEntry list \<Rightarrow> frameCacheEntry list" where
  "fc_evict fc =
     (if (length fc > maxDecodeCacheFrames \<or> sum_list (map fcBytes fc) > maxDecodeCacheBytes) \<and> length fc > 1
      then fc_evict (butlast fc) else fc)"
  by pat_completeness auto
termination by (relation "measure length") auto

declare fc_evict.simps [simp del]

definition frameCache_putSized :: "int \<Rightarrow> nat \<Rightarrow> byte list list \<Rightarrow> nat \<Rightarrow> frameCacheEntry list \<Rightarrow> frameCacheEntry list" where
  "frameCache_putSized seg pos recs bytes fc =
     (case find (fc_is seg pos) fc of
        Some x \<Rightarrow> x # remove1 x fc
      | None \<Rightarrow> fc_evict (\<lparr>fcSegment = seg, fcPos = pos, fcRecs = recs, fcBytes = bytes\<rparr> # fc))"

definition fc_invalidateSegment :: "int \<Rightarrow> frameCacheEntry list \<Rightarrow> frameCacheEntry list" where
  "fc_invalidateSegment seg fc = filter (\<lambda>x. fcSegment x \<noteq> seg) fc"

section \<open>Reading\<close>

definition findSegmentLocked :: "int \<Rightarrow> Log \<Rightarrow> segment option" where
  "findSegmentLocked base L = find (\<lambda>s. sBase s = base) (lSegs L)"

definition findSegmentForOffsetLocked :: "int \<Rightarrow> Log \<Rightarrow> segment option" where
  "findSegmentForOffsetLocked offset L =
     (let i = sortSearch (length (lSegs L)) (\<lambda>i. sNext (lSegs L ! i) > offset)
      in if i \<ge> length (lSegs L) then None
         else let s = lSegs L ! i in if offset < sBase s then None else Some s)"

definition resolveFromAnchorLocked :: "segment \<Rightarrow> indexEntry \<Rightarrow> int \<Rightarrow> (indexEntry option) lop" where
  "resolveFromAnchorLocked seg anchor offset L =
     (if entry_covers anchor offset then (Inr (Some anchor), L\<lparr>lNav := nav_put anchor (lNav L)\<rparr>)
      else case scanSegmentFromIndexAnchorLocked (reader_of seg) (sBase seg) (sSize seg) anchor offset of
          Inr (Some entry) \<Rightarrow> (Inr (Some entry), L\<lparr>lNav := nav_put entry (lNav L)\<rparr>)
        | r \<Rightarrow> (r, L))"

definition findIndexLocked :: "int \<Rightarrow> (indexEntry option) lop" where
  "findIndexLocked offset L =
     (case findSegmentForOffsetLocked offset L of
        None \<Rightarrow> (Inr None, L)
      | Some seg \<Rightarrow>
          let (cached, nav) = bestAnchor (sBase seg) offset (lNav L); L1 = L\<lparr>lNav := nav\<rparr>
          in case cached of
               Some c \<Rightarrow>
                 if offset < ieBase c + ieCount c then (Inr (Some c), L1)
                 else (case om_get (lIndexes L1) (sBase seg) of
                     None \<Rightarrow> resolveFromAnchorLocked seg c offset L1
                   | Some idx \<Rightarrow>
                       if siEntries idx = [] then resolveFromAnchorLocked seg c offset L1
                       else (case indexAnchorForOffset (siEntries idx) offset of
                           None \<Rightarrow> resolveFromAnchorLocked seg c offset L1
                         | Some a \<Rightarrow> resolveFromAnchorLocked seg (if ieBase c > ieBase a then c else a) offset L1))
             | None \<Rightarrow>
                 (case om_get (lIndexes L1) (sBase seg) of
                     None \<Rightarrow> (Inr None, L1)
                   | Some idx \<Rightarrow>
                       if siEntries idx = [] then (Inr None, L1)
                       else (case indexAnchorForOffset (siEntries idx) offset of
                           None \<Rightarrow> (Inr None, L1)
                         | Some a \<Rightarrow> resolveFromAnchorLocked seg a offset L1)))"

definition lockIndexEntry :: "int \<Rightarrow> (indexEntry option) lop" where
  "lockIndexEntry offset =
     lbind (findIndexLocked offset) (\<lambda>found.
       case found of
         Some entry \<Rightarrow> lret (Some entry)
       | None \<Rightarrow> (\<lambda>L.
           case findSegmentForOffsetLocked offset L of
             None \<Rightarrow> (Inr None, L)
           | Some seg \<Rightarrow>
               if om_mem (lIndexes L) (sBase seg) then findIndexLocked offset L
               else (case scanSegmentIndex (reader_of seg) (stride_of L) (sBase seg) (sSize seg) of
                   Inl e \<Rightarrow> (Inl e, L)
                 | Inr scanned \<Rightarrow> findIndexLocked offset (setSegmentIndexLocked (sBase seg) scanned L))))"

definition readSegmentShared :: "int \<Rightarrow> (byte list) lop" where
  "readSegmentShared offset =
     lbind (lockIndexEntry offset) (\<lambda>found.
       case found of
         None \<Rightarrow> lfail ErrOffsetNotFound
       | Some entry \<Rightarrow> (\<lambda>L.
           case findSegmentLocked (ieSegment entry) L of
             None \<Rightarrow> (Inl ErrCorruptRecord, L)
           | Some seg \<Rightarrow>
               let idx = offset - ieBase entry;
                   (hit, fc) = frameCache_get (ieSegment entry) (iePos entry) (lFrames L);
                   L1 = L\<lparr>lFrames := fc\<rparr>
               in (case hit of
                   Some recs \<Rightarrow>
                     (if idx < 0 \<or> nat idx \<ge> length recs then Inl ErrCorruptRecord else Inr (recs ! nat idx), L1)
                 | None \<Rightarrow>
                     (case readFrameAt (reader_of seg) (iePos entry) (oCodec (lOpts L)) (oForeignZstd (lOpts L)) of
                        Inl e \<Rightarrow> (Inl e, L1)
                      | Inr (h, records, _) \<Rightarrow>
                          if idx < 0 \<or> nat idx \<ge> length records then (Inl ErrCorruptRecord, L1)
                          else (Inr (records ! nat idx),
                                L1\<lparr>lFrames := frameCache_putSized (ieSegment entry) (iePos entry) records
                                     (nat (hUncompressed h)) (lFrames L1)\<rparr>)))))"

definition ReadShared :: "int \<Rightarrow> (byte list) lop" where
  "ReadShared offset L =
     (if lClosed L then (Inl ErrLogClosed, L)
      else let L1 = L\<lparr>lReadSeen := True\<rparr>
        in if offset \<ge> lDurable L1
           then (case readBuffered offset (lBuf L1) of
               Some r \<Rightarrow> (Inr r, L1)
             | None \<Rightarrow>
                 (case readFlushingShared offset (lFlush L1) of
                    Some r \<Rightarrow> (Inr r, L1)
                  | None \<Rightarrow> readSegmentShared offset L1))
           else readSegmentShared offset L1)"

text \<open>
  \<^verbatim>\<open>VerifyDurable\<close> steps from frame to frame. \<open>fuel\<close> bounds the frames it visits; a range of \<open>n\<close> offsets has at most \<open>n\<close>.
\<close>

fun verify_durable :: "nat \<Rightarrow> int \<Rightarrow> int \<Rightarrow> unit lop" where
  "verify_durable fuel off lastOff L =
     (if off > lastOff then (Inr (), L)
      else case fuel of
          0 \<Rightarrow> (Inl ErrUnavailable, L)
        | Suc fuel' \<Rightarrow>
            lbind (lockIndexEntry off) (\<lambda>found.
              case found of
                None \<Rightarrow> lfail ErrOffsetNotFound
              | Some entry \<Rightarrow> (\<lambda>L1.
                  case findSegmentLocked (ieSegment entry) L1 of
                    None \<Rightarrow> (Inl ErrCorruptRecord, L1)
                  | Some seg \<Rightarrow>
                      (case verifyFrameAtBuffered (reader_of seg) (iePos entry) of
                         Inl e \<Rightarrow> (Inl e, L1)
                       | Inr (h, _) \<Rightarrow>
                           if hRecordCount h \<le> 0 then (Inl ErrCorruptRecord, L1)
                           else verify_durable fuel' (ieBase entry + hRecordCount h) lastOff L1))) L)"

declare verify_durable.simps [simp del]

definition VerifyDurable :: "int \<Rightarrow> int \<Rightarrow> unit lop" where
  "VerifyDurable first lastOff = verify_durable (nat (lastOff - first + 1)) first lastOff"


section \<open>The flusher\<close>

definition poison :: "Log \<Rightarrow> err \<times> Log" where
  "poison L = (case lPoison L of Some e \<Rightarrow> (e, L) | None \<Rightarrow> (ErrLogPoisoned, L\<lparr>lPoison := Some ErrLogPoisoned\<rparr>))"

definition shouldSync :: "int \<Rightarrow> Log \<Rightarrow> bool" where
  "shouldSync now L \<longleftrightarrow>
     oSyncPerWrite (lOpts L)
     \<or> (oSyncBytes (lOpts L) > 0 \<and> lUnsynced L \<ge> oSyncBytes (lOpts L))
     \<or> now - lLastSync L \<ge> oSyncInterval (lOpts L)"

definition syncIfNeeded :: "bool \<Rightarrow> int \<Rightarrow> unit lop" where
  "syncIfNeeded force now L =
     (if lUnsynced L = 0 then (Inr (), L)
      else if \<not> force \<and> \<not> shouldSync now L then (Inr (), L)
      else case next_fault L of
          (Some _, L1) \<Rightarrow> (case poison L1 of (e, L2) \<Rightarrow> (Inl e, L2))
        | (None, L1) \<Rightarrow>
            (Inr (), upd_active (\<lambda>s. s\<lparr>sStable := length (sFile s)\<rparr>)
               (L1\<lparr>lLastSync := now, lUnsynced := 0, lDurable := sNext (active L1),
                   lFlush := clearFlushingThrough (sNext (active L1)) (lFlush L1)\<rparr>)))"

definition rollAgeNow :: "Log \<Rightarrow> int" where
  "rollAgeNow L =
     (if lMaxAge L \<le> 0 \<or> oMaxSegmentAge (lOpts L) < 0 then 0
      else if oMaxSegmentAge (lOpts L) = 0 then lMaxAge L
      else oMaxSegmentAge (lOpts L))"

definition segmentAgedOutLocked :: "int \<Rightarrow> Log \<Rightarrow> bool" where
  "segmentAgedOutLocked now L \<longleftrightarrow>
     \<not> (rollAgeNow L \<le> 0 \<or> sSize (active L) = 0 \<or> sFirstWrite (active L) = None)
     \<and> now - the (sFirstWrite (active L)) \<ge> rollAgeNow L"

text \<open>
  \<^verbatim>\<open>createSegment\<close> opens the file exclusively: a file of that name, which is that of a segment with that base,
  makes it fail, and so does any of its system calls. A failure leaves no file behind.
\<close>

definition newSegment :: "int \<Rightarrow> int \<Rightarrow> segment" where
  "newSegment base now =
     \<lparr>sBase = base, sNext = base, sSize = 0, sFirstWrite = None, sLastWrite = Some now, sFile = [], sStable = 0\<rparr>"

definition createSegment :: "int \<Rightarrow> int \<Rightarrow> segment lop" where
  "createSegment base now L =
     (case next_fault L of
        (Some _, L1) \<Rightarrow> (Inl syscallError, L1)
      | (None, L1) \<Rightarrow> (if findSegmentLocked base L1 \<noteq> None then Inl syscallError else Inr (newSegment base now), L1))"

definition roll :: "int \<Rightarrow> unit lop" where
  "roll now =
     lbind (syncIfNeeded True now) (\<lambda>_ L.
       case createSegment (sNext (active L)) now L of
         (Inl e, L1) \<Rightarrow> (Inl e, L1)
       | (Inr s, L1) \<Rightarrow> (Inr (), L1\<lparr>lSegs := lSegs L1 @ [s], lRollPending := False\<rparr>))"

definition activeForWrite :: "int \<Rightarrow> unit lop" where
  "activeForWrite now L = (if lRollPending L \<or> segmentAgedOutLocked now L then roll now L else (Inr (), L))"

definition writeEncodedFrame :: "byte list \<Rightarrow> unit lop" where
  "writeEncodedFrame frame L =
     (let pos = sSize (active L);
          put = (\<lambda>b s. s\<lparr>sFile := write_at (sFile s) pos b, sStable := min (sStable s) pos\<rparr>)
      in case next_fault L of
           (None, L1) \<Rightarrow> (Inr (), upd_active (put frame) L1)
         | (Some n, L1) \<Rightarrow>
             let L2 = upd_active (put (take n frame)) L1
             in (Inl syscallError,
                 (case next_fault L2 of
                    (Some _, L3) \<Rightarrow> L3
                  | (None, L3) \<Rightarrow> upd_active (\<lambda>s. s\<lparr>sFile := file_truncate pos (sFile s)\<rparr>) L3)))"

definition maxCachedWriteFrameBytes :: nat where
  "maxCachedWriteFrameBytes = maxDecodeCacheBytes div 8"

definition cacheWrittenFrame :: "indexEntry \<Rightarrow> byte list list \<Rightarrow> Log \<Rightarrow> Log" where
  "cacheWrittenFrame entry records L =
     (let sz = sum_list (map length records)
      in if sz > maxCachedWriteFrameBytes then L
         else L\<lparr>lFrames := frameCache_putSized (ieSegment entry) (iePos entry) records sz (lFrames L)\<rparr>)"

definition frame_written :: "byte list list \<Rightarrow> int \<Rightarrow> nat \<Rightarrow> int \<Rightarrow> bool \<Rightarrow> Log \<Rightarrow> Log" where
  "frame_written records base n now cache L =
     (let a = active L;
          entry = \<lparr>ieSegment = sBase a, ieBase = base, ieCount = int (length records), iePos = sSize a, ieLen = n\<rparr>;
          L1 = appendIndexLocked entry
                 (upd_active (\<lambda>s. s\<lparr>sFirstWrite := (if sFirstWrite s = None then Some now else sFirstWrite s),
                                   sLastWrite := Some now, sSize := sSize s + n,
                                   sNext := base + int (length records)\<rparr>) L);
          L2 = L1\<lparr>lFlush := markFlushingWritten (base + int (length records)) (lFlush L1),
                  lRollPending := lRollPending L1 \<or> sSize a + n \<ge> oSegmentBytes (lOpts L1),
                  lUnsynced := lUnsynced L1 + n, lNav := nav_put entry (lNav L1)\<rparr>
      in if cache then cacheWrittenFrame entry records L2 else L2)"

definition writeFrame :: "byte list list \<Rightarrow> int \<Rightarrow> bool \<Rightarrow> bool \<Rightarrow> int \<Rightarrow> unit lop" where
  "writeFrame records base forceSync cache now =
     (\<lambda>L. lbind (lift (encodeFrame records base (oCodec (lOpts L)))) (\<lambda>frame.
       lbind (activeForWrite now) (\<lambda>_.
       lbind (writeEncodedFrame frame) (\<lambda>_ L1.
         let L2 = frame_written records base (length frame) now cache L1
         in syncIfNeeded (forceSync \<or> lRollPending L2) now L2))) L)"

definition maxFrameInnerBytes :: nat where
  "maxFrameInnerBytes = maxFrameBytes div 2"

fun split_len :: "nat \<Rightarrow> nat \<Rightarrow> byte list list \<Rightarrow> nat" where
  "split_len sz i [] = i"
| "split_len sz i (r # records) =
     (if sz + 4 + length r > maxFrameInnerBytes \<and> i > 0 then i else split_len (sz + 4 + length r) (i + 1) records)"

definition frameSplitLen :: "byte list list \<Rightarrow> nat" where
  "frameSplitLen records = split_len 0 0 records"

lemma split_len_ge: "i \<le> split_len sz i records"
  by (induction sz i records rule: split_len.induct) auto

lemma frameSplitLen_pos: "records \<noteq> [] \<Longrightarrow> 0 < frameSplitLen records"
  using split_len_ge [of 1] by (cases records) (auto simp: frameSplitLen_def Suc_le_eq)

function write_frames :: "byte list list \<Rightarrow> int \<Rightarrow> bool \<Rightarrow> bool \<Rightarrow> int \<Rightarrow> unit lop" where
  "write_frames records base forceSync cache now =
     (if records = [] then lret ()
      else let n = frameSplitLen records
        in lbind (writeFrame (take n records) base forceSync cache now)
             (\<lambda>_. write_frames (drop n records) (base + int n) forceSync cache now))"
  by pat_completeness auto
termination
  by (relation "measure (\<lambda>(records, base, f, c, now). length records)") (auto simp: frameSplitLen_pos)

declare write_frames.simps [simp del]

definition cacheWrittenFrames :: "Log \<Rightarrow> bool \<times> Log" where
  "cacheWrittenFrames L =
     (if \<not> oDisableCommitVerify (lOpts L) \<and> lReadSeen L then (True, L\<lparr>lReadSeen := False\<rparr>) else (False, L))"

definition writeBatch :: "byte list list \<Rightarrow> int \<Rightarrow> bool \<Rightarrow> int \<Rightarrow> unit lop" where
  "writeBatch records base forceSync now L =
     (case cacheWrittenFrames L of (cache, L1) \<Rightarrow> write_frames records base forceSync cache now L1)"

definition timerFlushAge :: "logOptions \<Rightarrow> int" where
  "timerFlushAge opts =
     (if oFlushBytes opts = 0 \<and> oFlushRecords opts = 0 then oFlushInterval opts
      else max (oFlushInterval opts * 10) 1000000000)"

definition drainAndSync :: "bool \<Rightarrow> bool \<Rightarrow> int \<Rightarrow> unit lop" where
  "drainAndSync forceSync forceDrain now L =
     (if \<not> forceDrain \<and> \<not> hasPendingFlushing (lFlush L)
          \<and> \<not> shouldFlushByAge (timerFlushAge (lOpts L)) now (lBuf L)
      then syncIfNeeded forceSync now L
      else case drainBufferForFlush L of
          ((records, base), L1) \<Rightarrow>
            if records = [] then syncIfNeeded forceSync now L1 else writeBatch records base forceSync now L1)"

section \<open>The high-watermark\<close>

definition releaseHighWatermarkFile :: "unit lop" where
  "releaseHighWatermarkFile L =
     (if wReleased (lHwmState L) then (Inr (), L)
      else case next_fault L of
          (Some _, L1) \<Rightarrow> (Inl syscallError, L1)
        | (None, L1) \<Rightarrow>
            let w = (lHwmState L1)\<lparr>wPersisted := - 1,
                       wFile := (case wFile (lHwmState L1) of None \<Rightarrow> Some [] | Some b \<Rightarrow> Some b)\<rparr>
            in (case next_fault (L1\<lparr>lHwmState := w\<rparr>) of
                  (Some _, L2) \<Rightarrow> (Inl syscallError, L2)
                | (None, L2) \<Rightarrow>
                    let w2 = w\<lparr>wFile := Some []\<rparr>
                    in (case next_fault (L2\<lparr>lHwmState := w2\<rparr>) of
                          (Some _, L3) \<Rightarrow> (Inl syscallError, L3)
                        | (None, L3) \<Rightarrow> (Inr (), L3\<lparr>lHwmState := w2\<lparr>wOld := Some [], wReleased := True\<rparr>\<rparr>))))"

definition AdvanceHighWatermark :: "int \<Rightarrow> unit lop" where
  "AdvanceHighWatermark newHWM L =
     (if newHWM \<le> lHwm L then (Inr (), L)
      else lbind releaseHighWatermarkFile (\<lambda>_ L1. (Inr (), L1\<lparr>lHwm := newHWM\<rparr>)) L)"

section \<open>The discard of an uncommitted tail\<close>

function boundary_scan :: "reader \<Rightarrow> nat \<Rightarrow> int \<Rightarrow> int \<Rightarrow> nat \<Rightarrow> int \<times> nat" where
  "boundary_scan r sz next offset pos =
     (if pos < sz
      then case frameHeaderAt r pos of
          Inl e \<Rightarrow> if e = ErrUnexpectedEOF then (next, pos) else (next, sz)
        | Inr (h, frameEnd) \<Rightarrow>
            if frameEnd > sz then (next, pos)
            else if hBaseOffset h \<ge> offset then (hBaseOffset h, pos)
            else boundary_scan r sz next offset frameEnd
      else (next, sz))"
  by pat_completeness auto
termination
  by (relation "measure (\<lambda>(r, sz, next, offset, pos). sz - pos)") (auto dest: frameHeaderAt_end)

declare boundary_scan.simps [simp del]

definition frameBoundaryAtOrAboveLocked :: "segment \<Rightarrow> int \<Rightarrow> Log \<Rightarrow> int \<times> nat" where
  "frameBoundaryAtOrAboveLocked seg offset L =
     (if offset \<le> sBase seg then (sBase seg, 0)
      else if offset \<ge> sNext seg then (sNext seg, sSize seg)
      else boundary_scan (reader_of seg) (sSize seg) (sNext seg) offset
             (case om_get (lIndexes L) (sBase seg) of
                None \<Rightarrow> 0
              | Some idx \<Rightarrow> (case indexAnchorForOffset (siEntries idx) offset of None \<Rightarrow> 0 | Some a \<Rightarrow> iePos a)))"

definition segment_truncate :: "nat \<Rightarrow> unit lop" where
  "segment_truncate pos L =
     (case next_fault L of
        (Some _, L1) \<Rightarrow> (Inl syscallError, L1)
      | (None, L1) \<Rightarrow>
          let L2 = upd_active (\<lambda>s. s\<lparr>sFile := file_truncate pos (sFile s), sStable := min (sStable s) pos\<rparr>) L1
          in (case next_fault L2 of
                (Some _, L3) \<Rightarrow> (Inl syscallError, L3)
              | (None, L3) \<Rightarrow> (Inr (), upd_active (\<lambda>s. s\<lparr>sStable := length (sFile s), sSize := pos\<rparr>) L3)))"

definition discard_truncated :: "int \<Rightarrow> nat \<Rightarrow> Log \<Rightarrow> Log" where
  "discard_truncated boundary pos L =
     (let base = sBase (active L);
          L1 = upd_active (\<lambda>s. if boundary = sBase s then s\<lparr>sNext := boundary, sFirstWrite := None, sLastWrite := None\<rparr>
                               else s\<lparr>sNext := boundary\<rparr>) L;
          L2 = truncateIndexLocked base pos L1
      in L2\<lparr>lFrames := fc_invalidateSegment base (lFrames L2), lNav := nav_invalidateSegment base (lNav L2)\<rparr>)"

definition discard_memory :: "bool \<Rightarrow> bool \<Rightarrow> int \<Rightarrow> Log \<Rightarrow> Log" where
  "discard_memory truncateDisk truncated cutAt L =
     (let L1 = (if truncated \<or> (truncateDisk \<and> lUnsynced L = 0) then L\<lparr>lDurable := cutAt, lUnsynced := 0\<rparr>
                else if lDurable L > cutAt then L\<lparr>lDurable := cutAt\<rparr> else L)
      in L1\<lparr>lFlush := emptyFlushing, lBuf := newBuffer cutAt\<rparr>)"

definition discardUncommittedTail :: "bool \<Rightarrow> Log \<Rightarrow> Log" where
  "discardUncommittedTail truncateDisk L =
     (if lSegs L = [] then L
      else let a = active L
        in if truncateDisk \<and> lHwm L < sNext a
           then let (boundary, pos) = frameBoundaryAtOrAboveLocked a (lHwm L) L
             in if pos < sSize a
                then case segment_truncate pos L of
                    (Inl _, L1) \<Rightarrow> discard_memory truncateDisk False (sNext a) L1
                  | (Inr _, L1) \<Rightarrow> discard_memory truncateDisk True boundary (discard_truncated boundary pos L1)
                else discard_memory truncateDisk False (sNext a) L
           else discard_memory truncateDisk False (sNext a) L)"


section \<open>Requests to the flusher\<close>

record commitRequest =
  cFirst :: int
  cLast :: int
  cHwm :: int
  cVerify :: bool
  cRotate :: bool

definition isCommit :: "commitRequest option \<Rightarrow> bool" where
  "isCommit r = (case r of None \<Rightarrow> False | Some q \<Rightarrow> cHwm q \<ge> 0)"

definition rotateActive :: "int \<Rightarrow> unit lop" where
  "rotateActive now L =
     (if lSegs L = [] then (Inr (), L)
      else if sSize (active L) > 0 \<and> sNext (active L) \<le> lHwm L then roll now L
      else (Inr (), L))"

definition finish_verify :: "commitRequest \<Rightarrow> unit lop" where
  "finish_verify q L =
     (if cVerify q \<and> cLast q \<ge> cFirst q
      then case VerifyDurable (cFirst q) (cLast q) L of
          (Inl e, L1) \<Rightarrow> (Inl (ErrVerify e), L1)
        | (Inr u, L1) \<Rightarrow> (Inr u, L1)
      else (Inr (), L))"

definition finishRequest :: "commitRequest \<Rightarrow> int \<Rightarrow> unit lop" where
  "finishRequest q now =
     lbind (finish_verify q) (\<lambda>_.
     lbind (if cHwm q \<ge> 0 then AdvanceHighWatermark (cHwm q) else lret ()) (\<lambda>_.
       if cRotate q then rotateActive now else lret ()))"

definition rollIfPending :: "int \<Rightarrow> Log \<Rightarrow> Log" where
  "rollIfPending now L = (if \<not> lRollPending L \<or> lSegs L = [] then L else snd (roll now L))"

definition drainOnce :: "bool \<Rightarrow> bool \<Rightarrow> commitRequest option \<Rightarrow> int \<Rightarrow> unit lop" where
  "drainOnce forceSync forceDrain commit now L =
     (case lPoison L of
        Some e \<Rightarrow> (Inl e, if isCommit commit then discardUncommittedTail False L else L)
      | None \<Rightarrow>
          (case lbind (drainAndSync forceSync forceDrain now)
                  (\<lambda>_. case commit of None \<Rightarrow> lret () | Some q \<Rightarrow> finishRequest q now) L of
             (Inl e, L1) \<Rightarrow> (Inl e, if isCommit commit then discardUncommittedTail (lPoison L1 = None) L1 else L1)
           | (Inr _, L1) \<Rightarrow>
               (Inr (), if isCommit commit \<or> (commit = None \<and> forceSync) then rollIfPending now L1 else L1)))"

definition submitCommit :: "commitRequest \<Rightarrow> int \<Rightarrow> unit lop" where
  "submitCommit q now L = (if lClosed L then (Inl ErrLogClosed, L) else drainOnce True True (Some q) now L)"

definition Sync :: "int \<Rightarrow> unit lop" where
  "Sync now = submitCommit \<lparr>cFirst = 0, cLast = 0, cHwm = - 1, cVerify = False, cRotate = False\<rparr> now"

definition CommitDurable :: "int \<Rightarrow> int \<Rightarrow> int \<Rightarrow> unit lop" where
  "CommitDurable first lastOff now L =
     (if lastOff < first then (Inr (), L)
      else submitCommit \<lparr>cFirst = first, cLast = lastOff, cHwm = lastOff + 1,
                         cVerify = \<not> oDisableCommitVerify (lOpts L), cRotate = False\<rparr> now L)"

text \<open>A pass of the flusher that no request asked for: a threshold was crossed or the timer fired.\<close>

definition flusherPass :: "bool \<Rightarrow> int \<Rightarrow> Log \<Rightarrow> Log" where
  "flusherPass forceDrain now L = snd (drainOnce False forceDrain None now L)"

section \<open>Retention\<close>

definition activeExpired :: "int \<Rightarrow> Log \<Rightarrow> bool" where
  "activeExpired now L \<longleftrightarrow>
     lSegs L \<noteq> [] \<and> lMaxAge L > 0 \<and> sSize (active L) > 0 \<and> sLastWrite (active L) \<noteq> None
     \<and> the (sLastWrite (active L)) < now - lMaxAge L \<and> sNext (active L) \<le> lHwm L"

definition rotateExpiredActive :: "int \<Rightarrow> Log \<Rightarrow> Log" where
  "rotateExpiredActive now L =
     (if lMaxAge L \<le> 0 \<or> \<not> activeExpired now L then L
      else snd (submitCommit \<lparr>cFirst = 0, cLast = 0, cHwm = - 1, cVerify = False, cRotate = True\<rparr> now L))"

definition expired :: "int \<Rightarrow> Log \<Rightarrow> segment \<Rightarrow> bool" where
  "expired now L s \<longleftrightarrow> lMaxAge L > 0 \<and> sLastWrite s \<noteq> None \<and> the (sLastWrite s) < now - lMaxAge L"

definition detachSegmentLocked :: "segment \<Rightarrow> Log \<Rightarrow> Log" where
  "detachSegmentLocked s L =
     L\<lparr>lIndexes := om_del (sBase s) (lIndexes L), lFrames := fc_invalidateSegment (sBase s) (lFrames L),
       lNav := nav_invalidateSegment (sBase s) (lNav L)\<rparr>"

definition sweep :: "int \<Rightarrow> Log \<Rightarrow> Log" where
  "sweep now L =
     (let L1 = rotateExpiredActive now L;
          gone = filter (expired now L1) (butlast (lSegs L1))
      in if gone = [] then L1
         else foldl (\<lambda>M s. detachSegmentLocked s M)
                (L1\<lparr>lSegs := filter (\<lambda>s. \<not> expired now L1 s) (butlast (lSegs L1)) @ [active L1]\<rparr>) gone)"

definition SetRetentionMaxAge :: "int \<Rightarrow> Log \<Rightarrow> Log" where
  "SetRetentionMaxAge d L = L\<lparr>lMaxAge := max d 0\<rparr>"

definition OldestOffset :: "Log \<Rightarrow> int" where
  "OldestOffset L = (if lSegs L = [] then 0 else sBase (hd (lSegs L)))"

definition NextOffset :: "Log \<Rightarrow> int" where
  "NextOffset L = bNext (lBuf L)"

section \<open>Closing\<close>

definition persistHighWatermark :: "int \<Rightarrow> unit lop" where
  "persistHighWatermark next L =
     (let data = be64 (word_of_int next) in
      case next_fault L of
        (Some _, L1) \<Rightarrow> (Inl syscallError, L1)
      | (None, L1) \<Rightarrow>
          (let w = (lHwmState L1)\<lparr>wFile := (case wFile (lHwmState L1) of None \<Rightarrow> Some [] | Some b \<Rightarrow> Some b)\<rparr> in
           case next_fault (L1\<lparr>lHwmState := w\<rparr>) of
             (Some _, L2) \<Rightarrow> (Inl syscallError, L2)
           | (None, L2) \<Rightarrow>
               (let w2 = w\<lparr>wFile := Some data\<rparr> in
                case next_fault (L2\<lparr>lHwmState := w2\<rparr>) of
                  (Some _, L3) \<Rightarrow> (Inl syscallError, L3)
                | (None, L3) \<Rightarrow>
                    if wDirSynced w2 then (Inr (), L3\<lparr>lHwmState := w2\<lparr>wOld := Some data\<rparr>\<rparr>)
                    else (case next_fault L3 of
                        (Some _, L4) \<Rightarrow> (Inl syscallError, L4)
                      | (None, L4) \<Rightarrow> (Inr (), L4\<lparr>lHwmState := w2\<lparr>wOld := Some data, wDirSynced := True\<rparr>\<rparr>)))))"

definition persistClosedHighWatermark :: "unit lop" where
  "persistClosedHighWatermark L =
     (if lHwm L < 0 \<or> lHwm L = wPersisted (lHwmState L) then (Inr (), L)
      else lbind (persistHighWatermark (lHwm L))
             (\<lambda>_ L1. (Inr (), L1\<lparr>lHwmState := (lHwmState L1)\<lparr>wPersisted := lHwm L1\<rparr>\<rparr>)) L)"

text \<open>After a failed sync a later one proves nothing, so closing a poisoned log makes no more bytes stable.\<close>

definition close_active :: "unit lop" where
  "close_active L =
     (case next_fault L of
        (Some _, L1) \<Rightarrow> (Inl syscallError, L1)
      | (None, L1) \<Rightarrow>
          (Inr (), if lPoison L1 = None then upd_active (\<lambda>s. s\<lparr>sStable := length (sFile s)\<rparr>) L1 else L1))"

definition Close :: "int \<Rightarrow> unit lop" where
  "Close now L =
     (if lClosed L then (Inr (), L)
      else case drainOnce True True None now L of (r1, L1) \<Rightarrow>
        (case persistClosedHighWatermark (L1\<lparr>lClosed := True\<rparr>) of (r2, L2) \<Rightarrow>
          (case close_active L2 of (r3, L3) \<Rightarrow>
            (case r1 of Inl e \<Rightarrow> Inl e | Inr _ \<Rightarrow> (case r2 of Inl e \<Rightarrow> Inl e | Inr _ \<Rightarrow> r3), L3))))"

section \<open>Opening\<close>

text \<open>
  What the directory of a partition holds: its segment files by base offset, each with the length of the
  prefix that is on stable storage and its mtime, and the hwm file.
\<close>

record segmentFile =
  xBase :: int
  xFile :: "byte list"
  xStable :: nat
  xTime :: int

record partitionDir =
  dSegs :: "segmentFile list"
  dHwm :: "byte list option"

definition openSegment :: "segmentFile \<Rightarrow> segment" where
  "openSegment x =
     \<lparr>sBase = xBase x, sNext = xBase x, sSize = length (xFile x),
      sFirstWrite = (if xFile x = [] then None else Some (xTime x)),
      sLastWrite = Some (xTime x), sFile = xFile x, sStable = xStable x\<rparr>"

fun open_segments :: "segmentFile list \<Rightarrow> segment list" where
  "open_segments [] = []"
| "open_segments [x] = [openSegment x]"
| "open_segments (x # y # rest) = (openSegment x)\<lparr>sNext := xBase y\<rparr> # open_segments (y # rest)"

definition emptyLog :: "logOptions \<Rightarrow> int \<Rightarrow> partitionDir \<Rightarrow> (nat option) list \<Rightarrow> int \<Rightarrow> Log" where
  "emptyLog opts maxAge d faults now =
     \<lparr>lOpts = opts, lSegs = open_segments (dSegs d), lIndexes = [], lIndexClock = 0, lBuf = newBuffer 0,
      lFlush = emptyFlushing, lPoison = None, lHwm = - 1, lDurable = 0,
      lHwmState = \<lparr>wFile = dHwm d, wOld = dHwm d, wPersisted = - 1, wReleased = False, wDirSynced = dHwm d \<noteq> None\<rparr>,
      lUnsynced = 0, lRollPending = False, lLastSync = now, lFrames = [], lNav = [], lReadSeen = False,
      lMaxAge = max maxAge 0, lClosed = False, lFaults = faults\<rparr>"

definition recover_active :: "int lop" where
  "recover_active L =
     (case walkActiveSegment (reader_of (active L)) (stride_of L) (sBase (active L)) (sSize (active L)) of
        Inl e \<Rightarrow> (Inl e, L)
      | Inr w \<Rightarrow>
          (let L1 = upd_active (\<lambda>s. s\<lparr>sNext := wNext w\<rparr>) L in
           case wCut w of
             None \<Rightarrow> (Inr (wTop w), setSegmentIndexLocked (sBase (active L)) (wEntries w) L1)
           | Some pos \<Rightarrow>
               (case segment_truncate pos L1 of
                  (Inl e, L2) \<Rightarrow> (Inl e, L2)
                | (Inr _, L2) \<Rightarrow> (Inr (wTop w), setSegmentIndexLocked (sBase (active L)) (wEntries w) L2))))"

definition recover :: "int \<Rightarrow> int lop" where
  "recover now L =
     (if lSegs L = []
      then case createSegment 0 now L of
          (Inl e, L1) \<Rightarrow> (Inl e, L1)
        | (Inr s, L1) \<Rightarrow> (Inr 0, L1\<lparr>lSegs := [s]\<rparr>)
      else recover_active L)"

definition syncRecoveredTail :: "unit lop" where
  "syncRecoveredTail L =
     (case next_fault L of
        (Some _, L1) \<Rightarrow> (Inl syscallError, L1)
      | (None, L1) \<Rightarrow> (Inr (), upd_active (\<lambda>s. s\<lparr>sStable := length (sFile s)\<rparr>) L1))"

definition loadHighWatermark :: "int \<Rightarrow> unit lop" where
  "loadHighWatermark nextOffset L =
     (let next = max nextOffset 0; data = (case wFile (lHwmState L) of None \<Rightarrow> [] | Some b \<Rightarrow> b)
      in if data = []
         then lbind (if next > 0 then syncRecoveredTail else lret ())
                (\<lambda>_ L1. (Inr (), L1\<lparr>lHwm := next,
                    lHwmState := (lHwmState L1)\<lparr>wPersisted := (if next = 0 then 0 else - 1)\<rparr>\<rparr>)) L
         else if length data = 8
           then let persisted = max (sint (get64 data)) 0
             in (Inr (), L\<lparr>lHwm := min persisted next, lHwmState := (lHwmState L)\<lparr>wPersisted := persisted\<rparr>\<rparr>)
         else (Inl ErrHwmSize, L))"

definition NewLog :: "logOptions \<Rightarrow> int \<Rightarrow> partitionDir \<Rightarrow> (nat option) list \<Rightarrow> int \<Rightarrow> unit result \<times> Log" where
  "NewLog opts maxAge d faults now =
     lbind (recover now) (\<lambda>nextOffset.
     lbind (loadHighWatermark nextOffset) (\<lambda>_ L.
       (Inr (), L\<lparr>lBuf := newBuffer nextOffset, lDurable := nextOffset,
                  lRollPending := sSize (active L) \<ge> oSegmentBytes (lOpts L)\<rparr>)))
     (emptyLog opts maxAge d faults now)"

end
