(* ===== verification/Log_Calls.thy ===== *)
theory Log_Calls
  imports Partition_Log
begin

text \<open>
  Calls on an open partition log and what each part of the log they leave alone: reads and index look-ups
  touch only indexes and caches. The last section is about a log whose active segment was emptied by the
  discard of a failed commit while a roll was pending.
\<close>

section \<open>Reads touch only indexes and caches\<close>

definition core :: "Log \<Rightarrow> Log" where
  "core L = L\<lparr>lIndexes := [], lIndexClock := 0, lNav := [], lFrames := [], lReadSeen := False\<rparr>"

lemma core_update [simp]:
  "core (L\<lparr>lIndexes := a\<rparr>) = core L" "core (L\<lparr>lIndexClock := b\<rparr>) = core L" "core (L\<lparr>lNav := c\<rparr>) = core L"
  "core (L\<lparr>lFrames := d\<rparr>) = core L" "core (L\<lparr>lReadSeen := e\<rparr>) = core L"
  by (simp_all add: core_def)

lemma core_fields:
  assumes "core M = core L"
  shows "lOpts M = lOpts L" "lSegs M = lSegs L" "lBuf M = lBuf L" "lFlush M = lFlush L" "lPoison M = lPoison L"
    "lHwm M = lHwm L" "lDurable M = lDurable L" "lHwmState M = lHwmState L" "lUnsynced M = lUnsynced L"
    "lRollPending M = lRollPending L" "lLastSync M = lLastSync L" "lMaxAge M = lMaxAge L"
    "lClosed M = lClosed L" "lFaults M = lFaults L"
  using assms by (cases M; cases L; simp add: core_def)+

lemma core_touch [simp]: "core (touchSegmentIndexLocked b L) = core L"
  by (simp add: touchSegmentIndexLocked_def split: option.split)

lemma core_prune [simp]: "core (pruneSegmentIndexesLocked b L) = core L"
  by (induction b L rule: pruneSegmentIndexesLocked.induct)
    (subst pruneSegmentIndexesLocked.simps, simp split: option.split)

lemma core_setIndex [simp]: "core (setSegmentIndexLocked b es L) = core L"
  by (simp add: setSegmentIndexLocked_def Let_def)

lemma core_appendIndex [simp]: "core (appendIndexLocked x L) = core L"
  by (simp add: appendIndexLocked_def Let_def)

lemma core_truncateIndex [simp]: "core (truncateIndexLocked b p L) = core L"
  by (simp add: truncateIndexLocked_def split: option.split)

lemma core_resolve [simp]: "core (snd (resolveFromAnchorLocked s a off L)) = core L"
  by (simp add: resolveFromAnchorLocked_def split: sum.split option.split)

lemma core_findIndex [simp]: "core (snd (findIndexLocked off L)) = core L"
  by (simp add: findIndexLocked_def Let_def split: option.split prod.split)

lemma core_lbind:
  assumes "core (snd (m L)) = core L" and "\<And>x M. core (snd (k x M)) = core M"
  shows "core (snd (lbind m k L)) = core L"
  using assms by (auto simp: lbind_def split: prod.split sum.split)

lemma core_lockIndex [simp]: "core (snd (lockIndexEntry off L)) = core L"
  unfolding lockIndexEntry_def
  by (rule core_lbind) (auto simp: lret_def split: option.split sum.split)

lemma core_readSegment [simp]: "core (snd (readSegmentShared off L)) = core L"
  unfolding readSegmentShared_def
  by (rule core_lbind) (auto simp: lfail_def Let_def split: option.split sum.split prod.split)

lemma core_read [simp]: "core (snd (ReadShared off L)) = core L"
  by (simp add: ReadShared_def Let_def split: option.split)

lemma core_verify_durable [simp]: "core (snd (verify_durable n off m L)) = core L"
proof (induction n arbitrary: off L)
  case (Suc n)
  have "core (snd (lbind (lockIndexEntry off) (\<lambda>found.
              case found of
                None \<Rightarrow> lfail ErrOffsetNotFound
              | Some entry \<Rightarrow> (\<lambda>L1.
                  case findSegmentLocked (ieSegment entry) L1 of
                    None \<Rightarrow> (Inl ErrCorruptRecord, L1)
                  | Some seg \<Rightarrow>
                      (case verifyFrameAtBuffered (reader_of seg) (iePos entry) of
                         Inl e \<Rightarrow> (Inl e, L1)
                       | Inr (h, _) \<Rightarrow>
                           if hRecordCount h \<le> 0 then (Inl ErrCorruptRecord, L1)
                           else verify_durable n (ieBase entry + hRecordCount h) m L1))) L)) = core L"
    by (rule core_lbind) (auto simp: lfail_def Suc.IH split: option.split sum.split)
  then show ?case
    by (subst verify_durable.simps) simp
qed (simp add: verify_durable.simps)

lemma core_VerifyDurable [simp]: "core (snd (VerifyDurable a b L)) = core L"
  by (simp add: VerifyDurable_def)

lemma core_finish_verify [simp]: "core (snd (finish_verify q L)) = core L"
  using core_VerifyDurable [of "cFirst q" "cLast q" L]
  by (cases "VerifyDurable (cFirst q) (cLast q) L") (auto simp: finish_verify_def split: sum.split)

lemma lbind_inv:
  assumes "P (snd (m L))" and "\<And>x M. P M \<Longrightarrow> P (snd (k x M))"
  shows "P (snd (lbind m k L))"
  using assms by (auto simp: lbind_def split: prod.split sum.split)

section \<open>Calls\<close>

text \<open>What the owner of an open log, the timer of its flusher and the reaper may do to it.\<close>

datatype call =
    CAppend "byte list list"
  | CRead int
  | CCommit int int
  | CSync
  | CPass bool
  | CSweep
  | CRetention int

fun run_call :: "int \<Rightarrow> call \<Rightarrow> Log \<Rightarrow> Log" where
  "run_call now (CAppend rs) L = snd (AppendBatch rs now L)"
| "run_call now (CRead off) L = snd (ReadShared off L)"
| "run_call now (CCommit a b) L = snd (CommitDurable a b now L)"
| "run_call now CSync L = snd (Sync now L)"
| "run_call now (CPass force) L = flusherPass force now L"
| "run_call now CSweep L = sweep now L"
| "run_call now (CRetention d) L = SetRetentionMaxAge d L"

definition run_calls :: "(int \<times> call) list \<Rightarrow> Log \<Rightarrow> Log" where
  "run_calls cs L = foldl (\<lambda>M (now, c). run_call now c M) L cs"


lemma write_frames_one:
  "rs \<noteq> [] \<Longrightarrow> frameSplitLen rs = length rs \<Longrightarrow>
   write_frames rs b force cache now L = writeFrame rs b force cache now L"
  by (simp add: write_frames.simps [of rs] write_frames.simps [of "[]"] Let_def lbind_def lret_def
      split: prod.split sum.split)

section \<open>A pending roll on an emptied segment\<close>

text \<open>
  The flusher marks a roll as pending when a frame fills the active segment. When the commit of that frame
  fails, \<^verbatim>\<open>discardUncommittedTail\<close> truncates the segment, here to nothing, and keeps the mark.
\<close>

definition stuck :: "segment \<Rightarrow> Log \<Rightarrow> bool" where
  "stuck a L \<longleftrightarrow> lSegs L \<noteq> [] \<and> active L = a \<and> lRollPending L \<and> sNext a = sBase a \<and> sSize a = 0 \<and> lUnsynced L = 0"

lemma stuck_core: "core M = core L \<Longrightarrow> stuck a M = stuck a L"
  using core_fields(2,9,10) [of M L] by (simp add: stuck_def)

lemma stuck_next_fault: "stuck a L \<Longrightarrow> stuck a (snd (next_fault L))"
  by (simp add: stuck_def next_fault_def split: list.split)

lemma stuck_sync: "stuck a L \<Longrightarrow> syncIfNeeded force now L = (Inr (), L)"
  by (simp add: stuck_def syncIfNeeded_def)

lemma findSegment_active: "lSegs L \<noteq> [] \<Longrightarrow> findSegmentLocked (sBase (active L)) L \<noteq> None"
  unfolding findSegmentLocked_def find_None_iff using last_in_set [of "lSegs L"] by blast

lemma stuck_roll: "stuck a L \<Longrightarrow> \<exists>M. roll now L = (Inl syscallError, M) \<and> stuck a M"
  using stuck_next_fault [of a L] findSegment_active [of "snd (next_fault L)"]
  by (auto simp: roll_def lbind_def stuck_sync createSegment_def stuck_def split: prod.split option.split)

lemma stuck_writeFrame: "stuck a L \<Longrightarrow> \<exists>e M. writeFrame rs b force cache now L = (Inl e, M) \<and> stuck a M"
  using stuck_roll [of a L now]
  by (auto simp: writeFrame_def lbind_def lift_def activeForWrite_def stuck_def split: sum.split)

lemma stuck_writeBatch:
  assumes "stuck a L" and "rs \<noteq> []"
  shows "\<exists>e M. writeBatch rs b force now L = (Inl e, M) \<and> stuck a M"
proof -
  obtain cache K where K: "cacheWrittenFrames L = (cache, K)" "stuck a K"
    using assms(1) by (cases "cacheWrittenFrames L") (auto simp: cacheWrittenFrames_def stuck_def split: if_splits)
  show ?thesis
    using stuck_writeFrame [OF K(2), of "take (frameSplitLen rs) rs" b force cache now] assms(2)
    by (auto simp: writeBatch_def K(1) Let_def lbind_def write_frames.simps [of rs])
qed

lemma stuck_drain: "stuck a L \<Longrightarrow> stuck a (snd (drainBufferForFlush L))"
  by (simp add: drainBufferForFlush_def stuck_def Let_def)

text \<open>The records the next drain would write: those of the buffer, and of the snapshot what did not reach the file.\<close>

definition unwritten :: "Log \<Rightarrow> byte list list" where
  "unwritten L = fst (fst (drainBufferForFlush L))"

lemma stuck_drainAndSync:
  assumes "stuck a L"
  shows "\<exists>r M. drainAndSync force drain now L = (r, M) \<and> stuck a M \<and> (drain \<and> unwritten L \<noteq> [] \<longrightarrow> isl r)"
proof -
  obtain rs b K where K: "drainBufferForFlush L = ((rs, b), K)"
    by (cases "drainBufferForFlush L") auto
  have "stuck a K"
    using stuck_drain [OF assms] by (simp add: K)
  then show ?thesis
    using stuck_writeBatch [of a K rs b force now] assms K
    by (cases "rs = []") (auto simp: drainAndSync_def stuck_sync unwritten_def)
qed

lemma stuck_discard:
  assumes "stuck a L"
  shows "stuck a (discardUncommittedTail t L)"
proof -
  have "lHwm L < sNext a \<Longrightarrow> frameBoundaryAtOrAboveLocked a (lHwm L) L = (sBase a, 0)"
    using assms by (simp add: stuck_def frameBoundaryAtOrAboveLocked_def)
  then show ?thesis
    using assms by (auto simp: discardUncommittedTail_def stuck_def discard_memory_def Let_def)
qed

lemma stuck_release: "stuck a L \<Longrightarrow> stuck a (snd (releaseHighWatermarkFile L))"
  by (auto simp: releaseHighWatermarkFile_def stuck_def next_fault_def Let_def split: list.split option.split)

lemma stuck_advance: "stuck a L \<Longrightarrow> stuck a (snd (AdvanceHighWatermark h L))"
  using stuck_release [of a L]
  by (auto simp: AdvanceHighWatermark_def lbind_def stuck_def split: prod.splits sum.split)

lemma stuck_finish: "stuck a L \<Longrightarrow> stuck a (snd (finishRequest q now L))"
proof -
  assume s: "stuck a L"
  have rot: "stuck a (snd (rotateActive now K))" if "stuck a K" for K
    using that by (simp add: rotateActive_def stuck_def)
  show ?thesis
    unfolding finishRequest_def
    by (rule lbind_inv, simp add: s stuck_core [OF core_finish_verify], rule lbind_inv)
      (simp_all add: stuck_advance lret_def rot)
qed

lemma stuck_drainOnce:
  assumes "stuck a L"
  shows "\<exists>r M. drainOnce force drain q now L = (r, M) \<and> stuck a M \<and> (drain \<and> unwritten L \<noteq> [] \<longrightarrow> isl r)"
proof (cases "lPoison L")
  case None
  obtain r K where K: "drainAndSync force drain now L = (r, K)" "stuck a K" "drain \<and> unwritten L \<noteq> [] \<longrightarrow> isl r"
    using stuck_drainAndSync [OF assms] by blast
  show ?thesis
  proof (cases r)
    case (Inl e)
    then show ?thesis
      using K None by (simp add: drainOnce_def lbind_def stuck_discard)
  next
    case (Inr u)
    define m where "m = (case q of None \<Rightarrow> lret () | Some q' \<Rightarrow> finishRequest q' now) K"
    obtain r' M where m: "m = (r', M)"
      by (cases m)
    have "stuck a (snd m)"
      using K(2) by (simp add: m_def lret_def stuck_finish split: option.split)
    then have "stuck a M"
      by (simp add: m)
    moreover have "stuck a (rollIfPending now M)" if "stuck a M"
      using stuck_roll [OF that, of now] that by (auto simp: rollIfPending_def)
    ultimately show ?thesis
      using K Inr None m [unfolded m_def]
      by (cases r') (auto simp: drainOnce_def lbind_def stuck_discard)
  qed
qed (use assms in \<open>auto simp: drainOnce_def stuck_discard\<close>)

lemma stuck_call:
  assumes "stuck a L"
  shows "stuck a (run_call now c L)"
proof (cases c)
  case (CAppend rs)
  then show ?thesis
    using assms by (auto simp: AppendBatch_def stuck_def split: option.split)
next
  case (CCommit x y)
  then show ?thesis
    using stuck_drainOnce [OF assms, of True True _ now] assms by (auto simp: CommitDurable_def submitCommit_def) (metis snd_conv)+
next
  case CSync
  then show ?thesis
    using stuck_drainOnce [OF assms, of True True _ now] assms by (auto simp: Sync_def submitCommit_def) (metis snd_conv)+
next
  case (CPass force)
  then show ?thesis
    using stuck_drainOnce [OF assms, of False force None now] by (auto simp: flusherPass_def)
next
  case CSweep
  have "rotateExpiredActive now L = L"
    using assms by (simp add: rotateExpiredActive_def activeExpired_def stuck_def)
  moreover have "stuck a (foldl (\<lambda>M s. detachSegmentLocked s M) M ss)" if "stuck a M" for M ss
    using that by (induction ss arbitrary: M) (auto simp: detachSegmentLocked_def stuck_def)
  ultimately show ?thesis
    using CSweep assms by (auto simp: sweep_def Let_def) (auto simp: stuck_def)
next
  case (CRead off)
  then show ?thesis
    using assms by (simp add: stuck_core [OF core_read])
next
  case (CRetention d)
  then show ?thesis
    using assms by (simp add: SetRetentionMaxAge_def stuck_def)
qed

lemma stuck_calls: "stuck a L \<Longrightarrow> stuck a (run_calls cs L)"
  unfolding run_calls_def by (induction cs arbitrary: L) (auto simp: stuck_call)

text \<open>
  C37. When the discard of a failed commit has emptied the active segment while a roll was pending, no record
  reaches the log any more until it is reopened: whatever is called on it, its active segment stays as it is,
  and every commit that has records to write fails, although no system call has to fail for that. The roll
  creates the new segment under the name of the emptied one, which exists.
\<close>

theorem pending_roll_blocks_writes:
  assumes "stuck a L" and "first \<le> lastOff" and "unwritten (run_calls cs L) \<noteq> []"
  shows "isl (fst (CommitDurable first lastOff now (run_calls cs L))) \<and> active (run_calls cs L) = a"
  using stuck_drainOnce [OF stuck_calls [OF assms(1)], of True True] assms(2,3) stuck_calls [OF assms(1), of cs]
  by (auto simp: CommitDurable_def submitCommit_def stuck_def) (metis fst_conv)

definition smallSegments :: logOptions where
  "smallSegments =
     \<lparr>oFlushBytes = 0, oFlushRecords = 0, oFlushInterval = 100000000, oSyncPerWrite = False, oSyncInterval = 1000000000,
      oSyncBytes = 0, oSegmentBytes = 16, oDisableCommitVerify = True, oMaxSegmentAge = 0, oCodec = noopCodec,
      oForeignZstd = Inr noopCodec\<rparr>"

text \<open>
  A log with segments of 16 bytes is created, a record is appended, and its commit fails because the hwm file
  cannot be opened. From then on nothing fails any more.
\<close>

definition failedFirstCommit :: Log where
  "failedFirstCommit =
     run_calls [(1, CAppend [[7]]), (2, CCommit 0 0)]
       (snd (NewLog smallSegments 0 \<lparr>dSegs = [], dHwm = None\<rparr> [None, None, None, Some 0] 0))"

lemma small_simps:
  "oFlushBytes smallSegments = 0" "oFlushRecords smallSegments = 0" "oSegmentBytes smallSegments = 16"
  "oDisableCommitVerify smallSegments" "oMaxSegmentAge smallSegments = 0" "oCodec smallSegments = noopCodec"
  by (simp_all add: smallSegments_def)

lemma encode_seven: "\<exists>f. encodeFrame [[7]] 0 noopCodec = Inr f \<and> 16 \<le> length f"
  by (simp add: encodeFrame_def noopCodec_def Let_def maxFrameBytes_def)

lemma new_log_small:
  "snd (NewLog smallSegments 0 \<lparr>dSegs = [], dHwm = None\<rparr> [None, None, None, Some 0] 0) =
   (emptyLog smallSegments 0 \<lparr>dSegs = [], dHwm = None\<rparr> [None, None, Some 0] 0)
     \<lparr>lSegs := [newSegment 0 0], lHwm := 0,
      lHwmState := \<lparr>wFile = None, wOld = None, wPersisted = 0, wReleased = False, wDirSynced = False\<rparr>\<rparr>"
  by (simp add: NewLog_def lbind_def recover_def emptyLog_def createSegment_def next_fault_def findSegmentLocked_def
      newBuffer_def loadHighWatermark_def lret_def newSegment_def small_simps)

lemma failed_first_commit:
  "stuck (active failedFirstCommit) failedFirstCommit \<and> lFaults failedFirstCommit = [] \<and> \<not> lClosed failedFirstCommit
   \<and> lPoison failedFirstCommit = None \<and> lBuf failedFirstCommit = newBuffer 0 \<and> \<not> fValid (lFlush failedFirstCommit)"
proof -
  obtain f where f: "encodeFrame [[7]] 0 noopCodec = Inr f" "16 \<le> length f"
    using encode_seven by blast
  have one: "frameSplitLen [[7]] = Suc 0"
    by (simp add: frameSplitLen_def)
  show ?thesis
    unfolding failedFirstCommit_def run_calls_def new_log_small
    apply (simp add: AppendBatch_def emptyLog_def buffer_pushBatch_def newSegment_def newBuffer_def CommitDurable_def
        submitCommit_def drainOnce_def small_simps)
    apply (simp add: lbind_def drainAndSync_def drainBufferForFlush_def unwrittenFlushingLocked_def Let_def)
    apply (simp add: writeBatch_def cacheWrittenFrames_def write_frames_one one small_simps)
    apply (simp add: lbind_def lret_def writeFrame_def lift_def f activeForWrite_def segmentAgedOutLocked_def
        rollAgeNow_def small_simps)
    apply (simp add: writeEncodedFrame_def next_fault_def Let_def upd_active_def)
    apply (simp add: frame_written_def Let_def upd_active_def appendIndexLocked_def touchSegmentIndexLocked_def
        appendSparseIndexEntry_def shouldKeepIndexAnchor_def pruneSegmentIndexesLocked.simps)
    apply (simp add: syncIfNeeded_def next_fault_def upd_active_def)
    apply (simp add: finishRequest_def finish_verify_def lbind_def AdvanceHighWatermark_def releaseHighWatermarkFile_def
        next_fault_def)
    apply (simp add: isCommit_def discardUncommittedTail_def frameBoundaryAtOrAboveLocked_def)
    apply (simp add: segment_truncate_def next_fault_def upd_active_def Let_def)
    apply (simp add: discard_truncated_def truncateIndexLocked_def upd_active_def discard_memory_def emptyFlushing_def Let_def)
    using f(2) by (auto simp: stuck_def newBuffer_def small_simps)
qed

theorem pending_roll_blocks_writes_witness:
  "lFaults failedFirstCommit = []
   \<and> isl (fst (CommitDurable 0 0 4 (run_calls [(3, CAppend [[8]])] failedFirstCommit)))"
proof -
  have "unwritten (run_calls [(3, CAppend [[8]])] failedFirstCommit) \<noteq> []"
    using failed_first_commit
    by (simp add: run_calls_def AppendBatch_def unwritten_def drainBufferForFlush_def buffer_pushBatch_def newBuffer_def
        unwrittenFlushingLocked_def Let_def)
  then show ?thesis
    using pending_roll_blocks_writes [of "active failedFirstCommit" failedFirstCommit 0 0 "[(3, CAppend [[8]])]" 4]
      failed_first_commit by simp
qed

end
