(* ===== verification/Keyed_Record.thy ===== *)
theory Keyed_Record
  imports Bytes Errs
begin

text \<open>
  The stored record envelope (\<^verbatim>\<open>src/internal/persistence/storage/keyed_record.go\<close>): a version byte, the
  produce key with its length, the commit time in milliseconds and the payload. A Go string is its bytes,
  so a key is a byte list here.
\<close>

definition keyedRecordVersion :: byte where
  "keyedRecordVersion = 2"

definition EncodeKeyedRecord :: "byte list \<Rightarrow> int \<Rightarrow> byte list \<Rightarrow> byte list" where
  "EncodeKeyedRecord key committedAtUnixMs payload =
     [keyedRecordVersion] @ AppendUvarint (length key) @ key @ be64 (word_of_int committedAtUnixMs) @ payload"

definition DecodeKeyedRecord :: "byte list \<Rightarrow> (byte list \<times> int \<times> byte list) result" where
  "DecodeKeyedRecord b =
     (if b = [] then Inl ErrCorruptRecord
      else if hd b \<noteq> keyedRecordVersion then Inl ErrCorruptRecord
      else case Uvarint (tl b) of
          None \<Rightarrow> Inl ErrCorruptRecord
        | Some (keyLen, n) \<Rightarrow>
            if keyLen > length b - 1 - n then Inl ErrCorruptRecord
            else let rest = drop (1 + n) b; key = take keyLen rest; rest1 = drop keyLen rest
              in if length rest1 < 8 then Inl ErrCorruptRecord
                 else Inr (key, sint (get64 (take 8 rest1)), drop 8 rest1))"

lemma EncodeKeyedRecord_Cons:
  "EncodeKeyedRecord key at payload =
     keyedRecordVersion # AppendUvarint (length key) @ key @ be64 (word_of_int at) @ payload"
  by (simp add: EncodeKeyedRecord_def)

text \<open>
  C35. The record envelope is lossless and self-delimiting: decoding an encoded record gives back the key, the
  commit time and the payload, whatever the payload contains. And nothing shorter passes for it: a strict
  prefix that cuts the key or the time is refused as corrupt, never read as another record.
\<close>

theorem keyed_record_roundtrip:
  assumes "length key < 2 ^ 64" and "- (2 ^ 63) \<le> at" and "at < 2 ^ 63"
  shows "DecodeKeyedRecord (EncodeKeyedRecord key at payload) = Inr (key, at, payload)
       \<and> (n < length (EncodeKeyedRecord key at payload) - length payload \<longrightarrow>
            DecodeKeyedRecord (take n (EncodeKeyedRecord key at payload)) = Inl ErrCorruptRecord)"
proof (intro conjI impI)
  show "DecodeKeyedRecord (EncodeKeyedRecord key at payload) = Inr (key, at, payload)"
    using assms by (simp add: DecodeKeyedRecord_def EncodeKeyedRecord_Cons Let_def)
next
  assume n: "n < length (EncodeKeyedRecord key at payload) - length payload"
  show "DecodeKeyedRecord (take n (EncodeKeyedRecord key at payload)) = Inl ErrCorruptRecord"
  proof (cases n)
    case 0
    then show ?thesis by (simp add: DecodeKeyedRecord_def)
  next
    case (Suc m)
    let ?u = "AppendUvarint (length key)"
    have m: "m < length ?u + length key + 8"
      using n Suc by (simp add: EncodeKeyedRecord_Cons)
    have tail: "tl (take n (EncodeKeyedRecord key at payload)) = take m (?u @ key @ be64 (word_of_int at))"
      using m by (simp add: Suc EncodeKeyedRecord_Cons)
    show ?thesis
    proof (cases "m < length ?u")
      case True
      then show ?thesis
        using Uvarint_take [of m "length key"] tail
        by (simp add: DecodeKeyedRecord_def Suc EncodeKeyedRecord_Cons)
    next
      case False
      then have "Uvarint (tl (take n (EncodeKeyedRecord key at payload))) = Some (length key, length ?u)"
        using assms(1) by (simp add: tail)
      then show ?thesis
        using m False by (auto simp: DecodeKeyedRecord_def Suc EncodeKeyedRecord_Cons Let_def)
    qed
  qed
qed

theorem keyed_record_roundtrip_witness:
  "DecodeKeyedRecord (EncodeKeyedRecord [107, 49] 1700000000000 [1, 2, 3]) = Inr ([107, 49], 1700000000000, [1, 2, 3])
   \<and> DecodeKeyedRecord (take 5 (EncodeKeyedRecord [107, 49] 1700000000000 [1, 2, 3])) = Inl ErrCorruptRecord"
proof -
  have n: "5 < length (EncodeKeyedRecord [107, 49] 1700000000000 [1, 2, 3]) - length [1, 2, 3 :: byte]"
    by (simp add: EncodeKeyedRecord_def)
  show ?thesis
    using keyed_record_roundtrip [of "[107, 49]" 1700000000000 "[1, 2, 3]" 5] n by simp
qed

end
