(* ===== verification/Spec2Isabelle.thy ===== *)
theory Spec2Isabelle
  imports Handle InFlight_Inv Meta_Links Cache_Linear Auth_Sound Log_Calls Keyed_Record
begin

text \<open>
  Narad is a queue-first message broker (paths below are under \<^verbatim>\<open>src/internal\<close>). A topic has partitions; each
  partition is an append-only log of frames on the disk of the node that owns it. Consumers lease messages
  instead of reading a stream: a delivery puts an offset in flight until it is acked, nacked or expires.
  Topics, schemas, members, assignments, users and remotes live in a metadata store replicated by Raft; every
  node serves requests from caches of it. A topic can fan out to child topics and to topics of other clusters.

  \<^bold>\<open>Consumers\<close> (\<^verbatim>\<open>consumer/\<close>). \<open>Expiry_Heap\<close> and \<open>Shard\<close> model one partition's reservation table (\<^verbatim>\<open>shard.go\<close>, \<^verbatim>\<open>reserve.go\<close>,
  \<^verbatim>\<open>ack.go\<close>): the record \<open>Shard\<close> has the source's fields, and each operation that runs under the shard mutex is one
  definition. \<open>Shard_Inv\<close> shows the invariant, \<open>Shard_Spec\<close> that the shard refines an abstract queue that knows
  only which offsets are resolved and which are leased, \<open>Shard_Run\<close> what that means for every run (frontier
  safety, no redelivery under a lease, resolution is final), \<open>Shard_Capacity\<close> the memory bound and the wake-ups.
  \<open>InFlight\<close> and \<open>InFlight_Inv\<close> are the node's table of shards (\<^verbatim>\<open>inflight.go\<close>, \<^verbatim>\<open>caps_follow.go\<close>, \<^verbatim>\<open>purger.go\<close>): isolation
  of partitions, recovery after a crash, limits that follow the topic. \<open>Handle\<close> is the receipt handle codec on
  top of \<open>Decimal\<close>.

  \<^bold>\<open>Metadata store\<close> (\<^verbatim>\<open>persistence/metastore/\<close>, \<^verbatim>\<open>domain/\<close>). \<open>Topic_Model\<close>, \<open>Remote_Skips\<close> and \<open>User_Model\<close> are the
  domain records with their rules. \<open>Metastore\<close> has the buckets, with the walk over their textual keys, and the transaction with its fail-stop;
  \<open>Meta_Schema\<close>, \<open>Meta_Topics\<close>, \<open>Meta_Cluster\<close>, \<open>Meta_Users\<close> and \<open>Meta_Remotes\<close> have one transaction per Raft entry
  type, with every refusal; \<open>Meta_Fsm\<close> is \<^verbatim>\<open>dispatch\<close>, \<^verbatim>\<open>Apply\<close> and restart. \<open>Meta_Exec\<close> reduces an entry to a pure step
  \<open>exec\<close>, shows that a replay applies each entry once and that a refused entry changes nothing, and carries any
  invariant of \<open>exec\<close> to every reachable state; \<open>Fanout_Graph\<close> and \<open>Meta_Links\<close> do so for the fan-out graph.
  The graph's invariant assumes that a created topic carries no link of its own, as the proposers make it.
  \<open>Json_Value\<close> is the comparison of schema documents.

  \<^bold>\<open>Caches and authentication\<close>. \<open>Domain_Versions\<close> is the table of cache versions; \<open>Announcing_Store\<close> states, as a
  locale, what a cache relies on (a change is announced by a version never read before), \<open>Meta_Announce\<close> shows
  that the metadata store keeps that contract, entry by entry. \<open>Metadata_Cache\<close> and \<open>Cache_Linear\<close> are the broker's
  caches (\<^verbatim>\<open>broker/messaging/metadata_cache.go\<close>): linearizable up to announcement, and terminating. \<open>Authenticator\<close> and
  \<open>Auth_Sound\<close> are password verification (\<^verbatim>\<open>security/authenticator.go\<close>): sound for the password, with a race on
  the identity. Until an entry is announced both may still answer from just before it.

  \<^bold>\<open>Storage\<close> (\<^verbatim>\<open>persistence/storage/\<close>). \<open>Bytes\<close> has the byte orders, varints and the CRC-32C; \<open>Frame\<close> the frame format
  with its codecs (round trip, streaming verification, detection of a damaged byte); \<open>Segment_Scan\<close> the
  resynchronisation after damage, the recovery walk and the sparse index; \<open>Keyed_Record\<close> the record envelope.
  \<open>Partition_Log\<close> is the log of a partition: buffer, flushing snapshot, flusher, commit and discard, the hwm file,
  retention, close and recovery. Its state includes the files, with the prefix of each that a power loss leaves,
  and a list of outcomes for the system calls to come. \<open>Log_Calls\<close> shows that reads change only caches, and that a
  roll left pending over an emptied segment blocks all writes.

  \<^bold>\<open>Conventions\<close>. A Go map or bucket is an ordered association list (\<open>omap\<close> in \<open>Prelude\<close>); an error is a value
  of \<open>err\<close> (\<open>Errs\<close>) in the left of a sum; a method that runs under a mutex is one atomic step; goroutines
  interleave as steps of an inductive relation. Offsets are unbounded integers except where a width decides
  (handles, frame headers, varints, checksums). Loops are recursive functions with a termination proof; only
  \<^verbatim>\<open>VerifyDurable\<close> takes fuel, one step for each offset of its range.

  \<^bold>\<open>Not modelled\<close>. Raft itself, RPC, HTTP, timers, logging and metrics are I/O or third-party code around the
  modelled decisions. bcrypt, the keyed digest, zstd and the JSON decoder are parameters, each with named
  hypotheses where a property needs one. The JSON Schema checker, the shipping of remote children, partition
  moves over RPC and the ingress log are not modelled yet.
\<close>

end
